(* ===== verification/QcPrelude.thy ===== *)
theory QcPrelude
  imports Main "HOL-Library.Word" "HOL-Library.Multiset"
begin

text \<open>
  The prelude of the QuickComm development: the machine types the C++ sources use, the
  collections of simplification rules the component theories fill, and the generic lemmas on
  lists, words and multisets that more than one component needs.
\<close>

unbundle bit_operations_syntax

section \<open>Machine types\<close>

type_synonym u8 = "8 word"
type_synonym u16 = "16 word"
type_synonym u32 = "32 word"
type_synonym u64 = "64 word"
type_synonym bytes = "u8 list"

text \<open>
  Pointers are modelled by natural numbers: \<open>addr\<close> for memory of \<open>CMemory\<close>,
  \<open>connptr\<close> for the connection objects (\<open>lpqc_connection_t\<close>).
\<close>

type_synonym addr = nat
type_synonym connptr = nat

section \<open>Collections\<close>

text \<open>
  \<open>qc_defs\<close> collects the definitions of straight-line operations, \<open>qc_frame\<close> what an
  operation leaves unchanged, \<open>qc_inv\<close> the preservation lemmas of the invariants.
\<close>

named_theorems qc_defs
named_theorems qc_frame
named_theorems qc_inv

section \<open>Lists\<close>

text \<open>Overwriting a segment of a buffer: what \<open>recv\<close> and \<open>memcpy\<close> do at an offset.\<close>

definition write_at :: "nat \<Rightarrow> 'a list \<Rightarrow> 'a list \<Rightarrow> 'a list" where
  "write_at off bs buf = take off buf @ bs @ drop (off + length bs) buf"

lemma length_write_at [simp]:
  "off + length bs \<le> length buf \<Longrightarrow> length (write_at off bs buf) = length buf"
  by (simp add: write_at_def)

lemma take_write_at:
  "off + length bs \<le> length buf \<Longrightarrow>
   take (off + length bs) (write_at off bs buf) = take off buf @ bs"
  by (simp add: write_at_def)

lemma take_write_at_before:
  "n \<le> off \<Longrightarrow> off \<le> length buf \<Longrightarrow> take n (write_at off bs buf) = take n buf"
  by (simp add: write_at_def min_def)

lemma write_at_0_full: "length bs = length buf \<Longrightarrow> write_at 0 bs buf = bs"
  by (simp add: write_at_def)

lemma remove1_append_notin: "x \<notin> set xs \<Longrightarrow> remove1 x (xs @ x # ys) = xs @ ys"
  by (simp add: remove1_append)

text \<open>What an update of a function at one point does to its sum.\<close>

lemma sum_fun_upd:
  fixes h :: "'p \<Rightarrow> 'c::comm_monoid_add" and g :: "'i \<Rightarrow> 'p"
  shows "finite A \<Longrightarrow> i \<in> A \<Longrightarrow> (\<Sum>j\<in>A. h ((g(i := pc)) j)) + h (g i) = (\<Sum>j\<in>A. h (g j)) + h pc"
    "finite A \<Longrightarrow> i \<notin> A \<Longrightarrow> (\<Sum>j\<in>insert i A. h ((g(i := pc)) j)) = (\<Sum>j\<in>A. h (g j)) + h pc"
    "finite A \<Longrightarrow> i \<in> A \<Longrightarrow> (\<Sum>j\<in>A - {i}. h ((g(i := pc)) j)) + h (g i) = (\<Sum>j\<in>A. h (g j))"
proof -
  have a: "(\<Sum>j\<in>B. h ((g(i := pc)) j)) = (\<Sum>j\<in>B. h (g j))" if "i \<notin> B" for B
    using that by (intro sum.cong) auto
  show "(\<Sum>j\<in>A. h ((g(i := pc)) j)) + h (g i) = (\<Sum>j\<in>A. h (g j)) + h pc" if "finite A" "i \<in> A"
    using that a [of "A - {i}"] by (simp add: sum.remove [of A i] ac_simps)
  show "(\<Sum>j\<in>insert i A. h ((g(i := pc)) j)) = (\<Sum>j\<in>A. h (g j)) + h pc" if "finite A" "i \<notin> A"
    using that a [of A] by (simp add: ac_simps)
  show "(\<Sum>j\<in>A - {i}. h ((g(i := pc)) j)) + h (g i) = (\<Sum>j\<in>A. h (g j))" if "finite A" "i \<in> A"
    using that a [of "A - {i}"] by (simp add: sum.remove [of A i] ac_simps)
qed

text \<open>
  Changing what one element of a list of distinct elements contributes to a concatenation, as a
  statement on multisets: the bookkeeping of buffer ownership rests on it.
\<close>

lemma mset_concat_map_update:
  assumes "distinct xs" and "p \<in> set xs" and "\<And>q. q \<in> set xs \<Longrightarrow> q \<noteq> p \<Longrightarrow> g q = f q"
  shows "mset (concat (map g xs)) + mset (f p) = mset (concat (map f xs)) + mset (g p)"
proof -
  from assms(2) obtain ys zs where xs: "xs = ys @ p # zs"
    by (auto simp: in_set_conv_decomp)
  with assms(1,3) have "map g ys = map f ys" and "map g zs = map f zs"
    by (auto intro!: map_cong)
  then show ?thesis by (simp add: xs del: map_eq_conv)
qed

lemma mset_concat_map_same:
  "(\<And>q. q \<in> set xs \<Longrightarrow> g q = f q) \<Longrightarrow> mset (concat (map g xs)) = mset (concat (map f xs))"
  by (metis map_cong)

text \<open>Two ownership accounts, of a step and of the rest of a run, add up.\<close>

lemma account_trans:
  fixes D :: "'a multiset"
  assumes "D + T1 = R + T' + E" and "R + T = M + T1 + A"
  shows "D + T = M + T' + (A + E)"
proof -
  have "(D + T) + T1 = (M + T' + (A + E)) + T1"
    using assms by (metis (no_types, opaque_lifting) add.assoc add.commute)
  then show ?thesis by (simp only: add_right_cancel)
qed

lemma account_swap:
  fixes B :: "'a multiset"
  assumes "B' + X = B + Y" and "E' + Y = E + X"
  shows "B' + E' = B + E"
proof -
  have "(B' + E') + (X + Y) = (B' + X) + (E' + Y)" by (simp only: ac_simps)
  also have "\<dots> = (B + Y) + (E + X)" using assms by simp
  also have "\<dots> = (B + E) + (X + Y)" by (simp only: ac_simps)
  finally show ?thesis by (simp only: add_right_cancel)
qed

abbreviation opt_list :: "'a option \<Rightarrow> 'a list" where
  "opt_list p \<equiv> (case p of None \<Rightarrow> [] | Some x \<Rightarrow> [x])"

section \<open>Words\<close>

lemma word_eqI_lt:
  fixes x y :: "'a::len word"
  shows "(\<And>n. n < LENGTH('a) \<Longrightarrow> bit x n = bit y n) \<Longrightarrow> x = y"
  by (rule bit_word_eqI) simp

lemma word_add_of_nat_neq:
  fixes q :: "'a::len word"
  assumes "0 < n" and "n < 2 ^ LENGTH('a)"
  shows "q + of_nat n \<noteq> q"
proof
  assume "q + of_nat n = q"
  then have "(of_nat n :: 'a word) = 0" by simp
  then have "2 ^ LENGTH('a) dvd n" by (simp add: word_of_nat_eq_0_iff)
  with assms show False by (auto dest: dvd_imp_le)
qed

section \<open>Step relations with an invariant\<close>

text \<open>
  The interface of a component that is a step relation: a set of start states, the steps, and an
  invariant that holds at the start and is kept by every step.
\<close>

locale step_system =
  fixes start :: "'s \<Rightarrow> bool" and step :: "'s \<Rightarrow> 's \<Rightarrow> bool" and inv :: "'s \<Rightarrow> bool"
  assumes start_inv: "start s \<Longrightarrow> inv s"
    and step_inv: "inv s \<Longrightarrow> step s t \<Longrightarrow> inv t"
begin

lemma steps_inv: "step\<^sup>*\<^sup>* s t \<Longrightarrow> inv s \<Longrightarrow> inv t"
  by (induction rule: rtranclp_induct) (auto intro: step_inv)

lemma started_run_inv: "start s \<Longrightarrow> step\<^sup>*\<^sup>* s t \<Longrightarrow> inv t"
  by (rule steps_inv [OF _ start_inv])

text \<open>
  If a measure goes down with every step from a state with the invariant, the runs from it are no
  longer than the measure.
\<close>

lemma run_bounded:
  fixes m :: "'s \<Rightarrow> nat"
  assumes "(step ^^ n) s t" and "inv s" and "\<And>s t. inv s \<Longrightarrow> step s t \<Longrightarrow> m t < m s"
  shows "n + m t \<le> m s"
  using assms(1)
proof (induction n arbitrary: t)
  case (Suc n)
  then obtain u where u: "(step ^^ n) s u" "step u t" by auto
  have "inv u" using u(1) assms(2) by (metis rtranclp_power steps_inv)
  with assms(3) u(2) have "m t < m u" by blast
  with Suc.IH [OF u(1)] show ?case by simp
qed simp

text \<open>With a measure every run can be continued to a state where no step is possible.\<close>

lemma run_to_end:
  fixes m :: "'s \<Rightarrow> nat"
  assumes "inv s" and "\<And>s t. inv s \<Longrightarrow> step s t \<Longrightarrow> m t < m s"
  shows "\<exists>t. step\<^sup>*\<^sup>* s t \<and> (\<forall>u. \<not> step t u)"
  using assms(1)
proof (induction "m s" arbitrary: s rule: less_induct)
  case less
  show ?case
  proof (cases "\<exists>t. step s t")
    case True
    then obtain t where t: "step s t" by blast
    with less assms(2) obtain u where "step\<^sup>*\<^sup>* t u" "\<forall>v. \<not> step u v" using step_inv by blast
    with t show ?thesis by (meson converse_rtranclp_into_rtranclp)
  qed blast
qed

end

end
