(* ===== verification/QcComm.thy ===== *)
theory QcComm
  imports QcPrelude
begin

text \<open>
  The wire format (include/qc\_comm.h) and the byte order conversions the code applies to it:
  the packed eight-byte packet header, the receive states, and the encoding and decoding of a
  header in memory. The platform is the little-endian x86-64 Linux the project is built for, so
  a field is loaded least significant byte first and \<open>ntohs\<close>/\<open>ntohl\<close> swap the bytes.
\<close>

section \<open>Constants and states of include/qc\_comm.h\<close>

definition PKG_MAX_LENGTH :: nat where
  [simp]: "PKG_MAX_LENGTH = 30000"

definition DATA_BUFSIZE :: nat where
  [simp]: "DATA_BUFSIZE = 20"

text \<open>\<open>m_iLenPkgHeader = sizeof(COMM_PKG_HEADER)\<close>, \<open>m_iLenMsgHeader = sizeof(STRUC_MSG_HEADER)\<close>.\<close>

definition m_iLenPkgHeader :: nat where
  [simp]: "m_iLenPkgHeader = 8"

definition m_iLenMsgHeader :: nat where
  [simp]: "m_iLenMsgHeader = 16"

datatype pkg_stat = PKG_HD_INIT | PKG_HD_RECVING | PKG_BD_INIT | PKG_BD_RECVING

record COMM_PKG_HEADER =
  pkgLen :: u16
  msgCode :: u16
  crc32 :: u32

section \<open>Loads, stores and byte order\<close>

definition load_u16 :: "bytes \<Rightarrow> u16" where
  "load_u16 bs = ucast (bs ! 0) OR push_bit 8 (ucast (bs ! 1))"

definition load_u32 :: "bytes \<Rightarrow> u32" where
  "load_u32 bs = ucast (bs ! 0) OR push_bit 8 (ucast (bs ! 1))
     OR push_bit 16 (ucast (bs ! 2)) OR push_bit 24 (ucast (bs ! 3))"

definition store_u16 :: "u16 \<Rightarrow> bytes" where
  "store_u16 w = [ucast w, ucast (drop_bit 8 w)]"

definition store_u32 :: "u32 \<Rightarrow> bytes" where
  "store_u32 w = [ucast w, ucast (drop_bit 8 w), ucast (drop_bit 16 w), ucast (drop_bit 24 w)]"

definition ntohs :: "u16 \<Rightarrow> u16" where
  "ntohs w = push_bit 8 w OR drop_bit 8 w"

definition ntohl :: "u32 \<Rightarrow> u32" where
  "ntohl w = push_bit 24 (take_bit 8 w) OR push_bit 16 (take_bit 8 (drop_bit 8 w)) OR
     push_bit 8 (take_bit 8 (drop_bit 16 w)) OR take_bit 8 (drop_bit 24 w)"

abbreviation htons :: "u16 \<Rightarrow> u16" where "htons \<equiv> ntohs"
abbreviation htonl :: "u32 \<Rightarrow> u32" where "htonl \<equiv> ntohl"

text \<open>The header as it lies in memory: the struct fields before any conversion.\<close>

definition load_header :: "bytes \<Rightarrow> COMM_PKG_HEADER" where
  "load_header bs = \<lparr>pkgLen = load_u16 bs, msgCode = load_u16 (drop 2 bs),
     crc32 = load_u32 (drop 4 bs)\<rparr>"

definition store_header :: "COMM_PKG_HEADER \<Rightarrow> bytes" where
  "store_header h = store_u16 (pkgLen h) @ store_u16 (msgCode h) @ store_u32 (crc32 h)"

text \<open>The packet length a header announces: \<open>ntohs(pPkgHeader->pkgLen)\<close>.\<close>

definition e_pkgLen :: "bytes \<Rightarrow> nat" where
  "e_pkgLen bs = unat (ntohs (load_u16 bs))"

section \<open>Round trips\<close>

lemma length_store [simp]:
  "length (store_u16 w) = 2" "length (store_u32 v) = 4" "length (store_header h) = 8"
  by (simp_all add: store_u16_def store_u32_def store_header_def)

text \<open>The bits of one byte inside a wider word, and of one byte cut out of a word.\<close>

lemma bit_byte_in_u16:
  "bit (push_bit k (ucast (b::u8)) :: u16) n \<longleftrightarrow> k \<le> n \<and> n < 16 \<and> n < k + 8 \<and> bit b (n - k)"
  by (auto simp: bit_push_bit_iff bit_ucast_iff dest: bit_imp_le_length)

lemma bit_byte_in_u32:
  "bit (push_bit k (ucast (b::u8)) :: u32) n \<longleftrightarrow> k \<le> n \<and> n < 32 \<and> n < k + 8 \<and> bit b (n - k)"
  by (auto simp: bit_push_bit_iff bit_ucast_iff dest: bit_imp_le_length)

lemma bit_low_byte_in_u16: "bit (ucast (b::u8) :: u16) n \<longleftrightarrow> n < 8 \<and> bit b n"
  by (auto simp: bit_ucast_iff dest: bit_imp_le_length)

lemma bit_low_byte_in_u32: "bit (ucast (b::u8) :: u32) n \<longleftrightarrow> n < 8 \<and> bit b n"
  by (auto simp: bit_ucast_iff dest: bit_imp_le_length)

lemma bit_byte_of_word: "bit (ucast (drop_bit k (w::'a::len word)) :: u8) n \<longleftrightarrow> n < 8 \<and> bit w (k + n)"
  by (auto simp: bit_ucast_iff bit_drop_bit_eq)

lemma bit_low_byte_of_word: "bit (ucast (w::'a::len word) :: u8) n \<longleftrightarrow> n < 8 \<and> bit w n"
  by (auto simp: bit_ucast_iff)

lemmas byte_bits = bit_byte_in_u16 bit_byte_in_u32 bit_low_byte_in_u16 bit_low_byte_in_u32
  bit_byte_of_word bit_low_byte_of_word

lemma load_store_u16 [simp]: "load_u16 (store_u16 w @ rest) = w"
  by (rule word_eqI_lt)
    (auto simp: load_u16_def store_u16_def bit_or_iff byte_bits bit_drop_bit_eq)

lemma byte_range_cases:
  fixes n :: nat
  assumes "n < 32"
  obtains "n < 8" | "8 \<le> n" "n < 16" | "16 \<le> n" "n < 24" | "24 \<le> n" "n < 32"
  using assms by linarith

lemma load_store_u32 [simp]: "load_u32 (store_u32 w @ rest) = w"
proof (rule word_eqI_lt)
  fix n :: nat
  assume "n < LENGTH(32)"
  then have "n < 32" by simp
  then show "bit (load_u32 (store_u32 w @ rest)) n = bit w n"
    by (cases rule: byte_range_cases)
      (auto simp: load_u32_def store_u32_def bit_or_iff byte_bits bit_drop_bit_eq)
qed

lemma load_store_header [simp]: "load_header (store_header h @ rest) = h"
proof -
  have "drop 2 (store_header h @ rest) = store_u16 (msgCode h) @ store_u32 (crc32 h) @ rest"
    by (simp add: store_header_def)
  moreover have "drop 4 (store_header h @ rest) = store_u32 (crc32 h) @ rest"
    by (simp add: store_header_def)
  ultimately show ?thesis
    by (simp add: load_header_def) (simp add: store_header_def)
qed

lemma ntohs_ntohs [simp]: "ntohs (ntohs w) = w"
proof (rule word_eqI_lt)
  fix n :: nat
  assume "n < LENGTH(16)"
  then consider "n < 8" | "8 \<le> n" "n < 16" by force
  then show "bit (ntohs (ntohs w)) n = bit w n"
    by cases (auto simp: ntohs_def bit_or_iff bit_push_bit_iff bit_drop_bit_eq
        dest: bit_imp_le_length)
qed

lemma bit_ntohl:
  "n < 32 \<Longrightarrow> bit (ntohl w) n \<longleftrightarrow>
    (if n < 8 then bit w (n + 24) else if n < 16 then bit w (n + 8)
     else if n < 24 then bit w (n - 8) else bit w (n - 24))"
proof -
  assume "n < 32"
  then show ?thesis
    by (cases rule: byte_range_cases)
      (auto simp: ntohl_def bit_or_iff bit_push_bit_iff bit_take_bit_iff bit_drop_bit_eq add.commute)
qed

lemma ntohl_ntohl [simp]: "ntohl (ntohl w) = w"
proof (rule word_eqI_lt)
  fix n :: nat
  assume "n < LENGTH(32)"
  then have "n < 32" by simp
  then show "bit (ntohl (ntohl w)) n = bit w n"
    by (cases rule: byte_range_cases) (auto simp: bit_ntohl)
qed

lemma load_u16_take [simp]: "2 \<le> n \<Longrightarrow> load_u16 (take n bs) = load_u16 bs"
  by (simp add: load_u16_def)

lemma load_u16_append [simp]: "2 \<le> length bs \<Longrightarrow> load_u16 (bs @ cs) = load_u16 bs"
  by (cases bs rule: list.exhaust, simp, cases "tl bs")
    (auto simp: load_u16_def nth_append)

lemma e_pkgLen_take [simp]: "2 \<le> n \<Longrightarrow> e_pkgLen (take n bs) = e_pkgLen bs"
  by (simp add: e_pkgLen_def)

lemma e_pkgLen_append [simp]: "2 \<le> length bs \<Longrightarrow> e_pkgLen (bs @ cs) = e_pkgLen bs"
  by (simp add: e_pkgLen_def)

lemma e_pkgLen_store_header:
  "e_pkgLen (store_header \<lparr>pkgLen = htons w, msgCode = c, crc32 = x\<rparr> @ rest) = unat w"
  by (simp add: e_pkgLen_def store_header_def)

end
