(* ===== verification/QcMemory.thy ===== *)
theory QcMemory
  imports QcComm
begin

text \<open>
  The allocator \<open>CMemory\<close> (misc/qc\_memory.cc) and the interface its clients rely on. A buffer
  of the server is a message buffer: the message header of include/qc\_socket.h (the connection
  and the sequence number it had when the packet came in), then the packet. The two header
  fields stand for the first \<open>m_iLenMsgHeader\<close> bytes of the buffer, \<open>mb_pkg\<close> for the bytes
  behind them. Undefined behaviour is recorded instead of being given a meaning: every bad free
  or access adds an entry to \<open>mem_faults\<close>, and the safety theorems show that it stays empty.
\<close>

section \<open>The heap\<close>

record STRUC_MSG_HEADER =
  pConn :: connptr
  iCurrsequence :: u64

record msgbuf =
  mb_hdr :: STRUC_MSG_HEADER
  mb_pkg :: bytes

datatype fault =
    BadFree addr
  | BadAccess addr
  | BufferOverflow
  | NullAccess

text \<open>
  \<open>mem_fill\<close> and \<open>mem_fill_hdr\<close> are the contents that memory from \<open>new[]\<close> happens to have:
  nothing is known of them, so whatever a theorem says holds for every filling.
\<close>

record memory =
  mem_objs :: "addr \<rightharpoonup> msgbuf"
  mem_next :: addr
  mem_fill :: "addr \<Rightarrow> nat \<Rightarrow> u8"
  mem_fill_hdr :: "addr \<Rightarrow> STRUC_MSG_HEADER"
  mem_faults :: "fault list"

definition live :: "memory \<Rightarrow> addr set" where
  "live m = dom (mem_objs m)"

definition add_fault :: "fault \<Rightarrow> memory \<Rightarrow> memory" where
  "add_fault f m = m\<lparr>mem_faults := f # mem_faults m\<rparr>"

section \<open>Allocation and release\<close>

definition AllocMemory :: "nat \<Rightarrow> bool \<Rightarrow> memory \<Rightarrow> addr \<times> memory" where
  "AllocMemory memCount ifmemset m =
     (let a = mem_next m;
          n = memCount - m_iLenMsgHeader;
          obj = (if ifmemset
                 then \<lparr>mb_hdr = \<lparr>pConn = 0, iCurrsequence = 0\<rparr>, mb_pkg = replicate n 0\<rparr>
                 else \<lparr>mb_hdr = mem_fill_hdr m a, mb_pkg = map (mem_fill m a) [0..<n]\<rparr>)
      in (a, m\<lparr>mem_objs := (mem_objs m)(a \<mapsto> obj), mem_next := Suc a\<rparr>))"

text \<open>\<open>delete []\<close> of a null pointer does nothing; of a pointer that is not live it is undefined.\<close>

fun FreeMemory :: "addr option \<Rightarrow> memory \<Rightarrow> memory" where
  "FreeMemory None m = m"
| "FreeMemory (Some a) m =
     (if a \<in> live m then m\<lparr>mem_objs := (mem_objs m)(a := None)\<rparr> else add_fault (BadFree a) m)"

text \<open>Reading and writing a live buffer through a pointer.\<close>

definition read_obj :: "addr \<Rightarrow> memory \<Rightarrow> msgbuf" where
  "read_obj a m = (case mem_objs m a of
     Some b \<Rightarrow> b | None \<Rightarrow> \<lparr>mb_hdr = mem_fill_hdr m a, mb_pkg = []\<rparr>)"

definition check_access :: "addr \<Rightarrow> memory \<Rightarrow> memory" where
  "check_access a m = (if a \<in> live m then m else add_fault (BadAccess a) m)"

definition write_obj :: "addr \<Rightarrow> msgbuf \<Rightarrow> memory \<Rightarrow> memory" where
  "write_obj a b m =
     (if a \<in> live m then m\<lparr>mem_objs := (mem_objs m)(a \<mapsto> b)\<rparr> else add_fault (BadAccess a) m)"

text \<open>The well-formed heaps: allocation never returns a live address.\<close>

definition mem_wf :: "memory \<Rightarrow> bool" where
  "mem_wf m \<longleftrightarrow> (\<forall>a \<in> live m. a < mem_next m) \<and> finite (live m)"

section \<open>Laws\<close>

lemma live_AllocMemory [simp]: "live (snd (AllocMemory n z m)) = insert (mem_next m) (live m)"
  by (auto simp: AllocMemory_def live_def Let_def)

lemma fst_AllocMemory [simp]: "fst (AllocMemory n z m) = mem_next m"
  by (simp add: AllocMemory_def Let_def)

lemma AllocMemory_faults [simp]: "mem_faults (snd (AllocMemory n z m)) = mem_faults m"
  by (simp add: AllocMemory_def Let_def)

lemma AllocMemory_length:
  "length (mb_pkg (read_obj (mem_next m) (snd (AllocMemory n z m)))) = n - m_iLenMsgHeader"
  by (simp add: AllocMemory_def Let_def read_obj_def)

lemma AllocMemory_other [simp]:
  "a \<noteq> mem_next m \<Longrightarrow> mem_objs (snd (AllocMemory n z m)) a = mem_objs m a"
  by (simp add: AllocMemory_def Let_def)

lemma mem_next_fresh: "mem_wf m \<Longrightarrow> mem_next m \<notin> live m"
  by (auto simp: mem_wf_def)

lemma mem_wf_AllocMemory [qc_inv]: "mem_wf m \<Longrightarrow> mem_wf (snd (AllocMemory n z m))"
  by (auto simp: mem_wf_def) (auto simp: AllocMemory_def Let_def less_SucI)

lemma live_FreeMemory [simp]:
  "live (FreeMemory p m) = (case p of None \<Rightarrow> live m | Some a \<Rightarrow> live m - {a})"
  by (cases p) (auto simp: live_def add_fault_def)

lemma live_remove [simp]: "live (m\<lparr>mem_objs := (mem_objs m)(a := None)\<rparr>) = live m - {a}"
  by (auto simp: live_def)

lemma FreeMemory_faults:
  "(\<And>a. p = Some a \<Longrightarrow> a \<in> live m) \<Longrightarrow> mem_faults (FreeMemory p m) = mem_faults m"
  by (cases p) auto

lemma FreeMemory_next [simp]: "mem_next (FreeMemory p m) = mem_next m"
  by (cases p) (auto simp: add_fault_def)

lemma FreeMemory_other:
  "p \<noteq> Some a \<Longrightarrow> mem_objs (FreeMemory p m) a = mem_objs m a"
  by (cases p) (auto simp: add_fault_def)

lemma mem_wf_FreeMemory [qc_inv]: "mem_wf m \<Longrightarrow> mem_wf (FreeMemory p m)"
  by (auto simp: mem_wf_def split: option.splits)

lemma live_write_obj [simp]: "live (write_obj a b m) = live m"
  by (auto simp: write_obj_def live_def add_fault_def)

lemma write_obj_faults [simp]: "a \<in> live m \<Longrightarrow> mem_faults (write_obj a b m) = mem_faults m"
  by (simp add: write_obj_def)

lemma write_obj_next [simp]: "mem_next (write_obj a b m) = mem_next m"
  by (simp add: write_obj_def add_fault_def)

lemma mem_wf_write_obj [qc_inv]: "mem_wf m \<Longrightarrow> mem_wf (write_obj a b m)"
  by (simp add: mem_wf_def)

lemma read_write_obj [simp]: "a \<in> live m \<Longrightarrow> read_obj a (write_obj a b m) = b"
  by (simp add: read_obj_def write_obj_def)

lemma mem_objs_write_obj_other [simp]: "a' \<noteq> a \<Longrightarrow> mem_objs (write_obj a b m) a' = mem_objs m a'"
  by (simp add: write_obj_def add_fault_def)

lemma check_access_live [simp]: "a \<in> live m \<Longrightarrow> check_access a m = m"
  by (simp add: check_access_def)

text \<open>
  The live addresses as a multiset, for the ownership accounts: allocation adds one address,
  release of a live buffer removes one.
\<close>

definition live_mset :: "memory \<Rightarrow> addr multiset" where
  "live_mset m = mset_set (live m)"

lemma live_mset_AllocMemory [simp]:
  "mem_wf m \<Longrightarrow> live_mset (snd (AllocMemory n z m)) = add_mset (mem_next m) (live_mset m)"
  using mem_next_fresh [of m] by (simp add: live_mset_def mem_wf_def)

lemma live_mset_write_obj [simp]: "live_mset (write_obj a b m) = live_mset m"
  by (simp add: live_mset_def)

lemma live_mset_FreeMemory:
  "mem_wf m \<Longrightarrow> set_option p \<subseteq> live m \<Longrightarrow>
   live_mset m = live_mset (FreeMemory p m) + mset (opt_list p)"
  by (cases p) (simp_all add: live_mset_def mem_wf_def mset_set.remove [of "live m"])

lemma set_live_mset [simp]: "mem_wf m \<Longrightarrow> set_mset (live_mset m) = live m"
  by (simp add: live_mset_def mem_wf_def)

lemma read_obj_write_other [simp]: "a' \<noteq> a \<Longrightarrow> read_obj a' (write_obj a b m) = read_obj a' m"
  by (simp add: read_obj_def write_obj_def add_fault_def split: option.split)

lemma read_obj_Alloc_other [simp]:
  "a \<noteq> mem_next m \<Longrightarrow> read_obj a (snd (AllocMemory n z m)) = read_obj a m"
  by (simp add: read_obj_def AllocMemory_def Let_def split: option.split)

lemma read_obj_Free_other:
  "p \<noteq> Some a \<Longrightarrow> read_obj a (FreeMemory p m) = read_obj a m"
  by (cases p) (simp_all add: read_obj_def add_fault_def split: option.split)

lemma live_minus:
  assumes "mem_wf m" and "live_mset m = live_mset m' + mset xs" and "mem_wf m'"
  shows "live m' = live m - set xs"
proof (rule set_eqI)
  fix a
  have "(if a \<in> live m then 1 else 0) = (if a \<in> live m' then 1 else 0) + count (mset xs) a"
    using arg_cong [OF assms(2), of "\<lambda>M. count M a"] assms(1,3)
    by (simp add: live_mset_def mem_wf_def count_mset_set')
  moreover have "a \<notin> set xs \<Longrightarrow> count (mset xs) a = 0" by simp
  moreover have "a \<in> set xs \<Longrightarrow> count (mset xs) a > 0" by simp
  ultimately show "a \<in> live m' \<longleftrightarrow> a \<in> live m - set xs"
    by (cases "a \<in> set xs") (simp_all split: if_splits)
qed

text \<open>
  What an operation may do to the objects outside \<open>A\<close>: nothing but release them. Addresses are
  never used twice, so the relation composes.
\<close>

definition mem_step :: "addr set \<Rightarrow> memory \<Rightarrow> memory \<Rightarrow> bool" where
  "mem_step A m m' \<longleftrightarrow> mem_next m \<le> mem_next m'
     \<and> (\<forall>a < mem_next m. a \<notin> A \<longrightarrow> mem_objs m' a = mem_objs m a \<or> mem_objs m' a = None)"

lemma mem_step_refl [simp]: "mem_step A m m"
  by (simp add: mem_step_def)

lemma mem_step_trans:
  assumes "mem_step A m m'" and "mem_step B m' m''"
  shows "mem_step (A \<union> B) m m''"
  unfolding mem_step_def
proof (intro conjI allI impI)
  show "mem_next m \<le> mem_next m''" using assms by (auto simp: mem_step_def)
next
  fix a
  assume "a < mem_next m" and "a \<notin> A \<union> B"
  with assms have "mem_objs m' a = mem_objs m a \<or> mem_objs m' a = None"
    and "mem_objs m'' a = mem_objs m' a \<or> mem_objs m'' a = None"
    by (auto simp: mem_step_def)
  then show "mem_objs m'' a = mem_objs m a \<or> mem_objs m'' a = None" by auto
qed

lemma mem_step_trans_same: "mem_step A m m' \<Longrightarrow> mem_step A m' m'' \<Longrightarrow> mem_step A m m''"
  using mem_step_trans [of A m m' A m''] by simp

lemma mem_step_mono: "mem_step A m m' \<Longrightarrow> A \<subseteq> B \<Longrightarrow> mem_step B m m'"
  by (auto simp: mem_step_def)

lemma mem_step_Alloc [simp]: "mem_step A m (snd (AllocMemory n z m))"
  by (auto simp: mem_step_def AllocMemory_def Let_def)

lemma mem_step_Free [simp]: "mem_step A m (FreeMemory p m)"
  by (cases p) (auto simp: mem_step_def add_fault_def)

lemma mem_step_write: "a \<in> A \<Longrightarrow> mem_step A m (write_obj a b m)"
  by (auto simp: mem_step_def write_obj_def add_fault_def)

text \<open>Writing into a buffer that did not exist before changes no object of the old heap.\<close>

lemma mem_step_fresh: "mem_step {r} m m' \<Longrightarrow> mem_next m \<le> r \<Longrightarrow> mem_step {} m m'"
  by (auto simp: mem_step_def)

lemma mem_step_fault [simp]: "mem_step A m (add_fault f m)"
  by (simp add: mem_step_def add_fault_def)

lemma mem_step_read:
  assumes "mem_step A m m'" and "mem_wf m" and "a \<in> live m" and "a \<in> live m'" and "a \<notin> A"
  shows "read_obj a m' = read_obj a m"
proof -
  have "a < mem_next m" using assms(2,3) by (simp add: mem_wf_def)
  moreover have "mem_objs m' a \<noteq> None" using assms(4) by (simp add: live_def domIff)
  ultimately have "mem_objs m' a = mem_objs m a" using assms(1,5) by (auto simp: mem_step_def)
  with assms(3) show ?thesis by (auto simp: read_obj_def live_def)
qed

section \<open>The interface of the allocator\<close>

text \<open>
  What the queues of the server ask of a memory manager: releasing a live buffer removes exactly
  that buffer and is no fault. The clean-up loops of three components (\<open>clearMsgSendQueue\<close>,
  \<open>clearAllFromTimerQueue\<close>, \<open>clearMsgRecvQueue\<close>) release every buffer of a queue; that this is
  right is proved once here.
\<close>

locale memory_manager =
  fixes lv :: "'m \<Rightarrow> addr set"
    and flt :: "'m \<Rightarrow> fault list"
    and free :: "addr option \<Rightarrow> 'm \<Rightarrow> 'm"
  assumes free_null: "free None m = m"
    and free_lv: "a \<in> lv m \<Longrightarrow> lv (free (Some a) m) = lv m - {a}"
    and free_flt: "a \<in> lv m \<Longrightarrow> flt (free (Some a) m) = flt m"
begin

lemma free_all_lv:
  "distinct as \<Longrightarrow> set as \<subseteq> lv m \<Longrightarrow> lv (fold (\<lambda>a. free (Some a)) as m) = lv m - set as"
proof (induction as arbitrary: m)
  case Nil
  then show ?case by simp
next
  case (Cons a as)
  then have "set as \<subseteq> lv (free (Some a) m)" by (auto simp: free_lv)
  with Cons show ?case by (auto simp: free_lv)
qed

lemma free_all_flt:
  "distinct as \<Longrightarrow> set as \<subseteq> lv m \<Longrightarrow> flt (fold (\<lambda>a. free (Some a)) as m) = flt m"
proof (induction as arbitrary: m)
  case Nil
  then show ?case by simp
next
  case (Cons a as)
  then have "set as \<subseteq> lv (free (Some a) m)" by (auto simp: free_lv)
  with Cons show ?case by (simp add: free_flt)
qed

lemma free_option_lv:
  "set_option p \<subseteq> lv m \<Longrightarrow> lv (free p m) = lv m - set_option p"
  by (cases p) (simp_all add: free_null free_lv)

lemma free_option_flt: "set_option p \<subseteq> lv m \<Longrightarrow> flt (free p m) = flt m"
  by (cases p) (simp_all add: free_null free_flt)

end

interpretation cmem: memory_manager live mem_faults FreeMemory
  by unfold_locales auto

declare FreeMemory.simps(2) [simp del]

end
