(* ===== verification/QcConn.thy ===== *)
theory QcConn
  imports QcMemory
begin

text \<open>
  The connection object (\<open>qc_connection_s\<close>, include/qc\_socket.h) and the connection pool of
  net/qc\_socket\_conn.cc: taking a connection, giving it back, the recycle queue and the thread
  that empties it. Every operation runs under the mutex the code takes for it, so it is one
  atomic function on the state; the clock it reads is an argument.
\<close>

section \<open>The connection object\<close>

text \<open>Pointers into a receive or send buffer: into \<open>dataHeadInfo\<close>, or into a heap buffer.\<close>

datatype bufptr =
    NullPtr
  | HeadPtr nat
  | PkgPtr addr nat

datatype ev_handler = H_event_accept | H_read_request | H_write_request

record conn =
  fd :: int
  listening :: "nat option"
  cseq :: u64
  s_sockaddr :: bytes
  rhandler :: "ev_handler option"
  whandler :: "ev_handler option"
  events :: u32
  curStat :: pkg_stat
  dataHeadInfo :: bytes
  precvbuf :: bufptr
  irecvlen :: nat
  precvMemPointer :: "addr option"
  iThrowsendCount :: int
  psendMemPointer :: "addr option"
  psendbuf :: bufptr
  isendlen :: nat
  inRecyTime :: int
  lastPingTime :: int
  FloodkickLastTime :: u64
  FloodAttackCount :: int
  iSendCount :: int

text \<open>
  A connection object right after its memory was zeroed and \<open>qc_connection_s()\<close> ran;
  \<open>cseq\<close> is the field \<open>iCurrsequence\<close> of the connection.
\<close>

definition qc_connection_init :: conn where
  "qc_connection_init = \<lparr>fd = 0, listening = None, cseq = 0, s_sockaddr = replicate 16 0,
     rhandler = None, whandler = None, events = 0, curStat = PKG_HD_INIT,
     dataHeadInfo = replicate DATA_BUFSIZE 0, precvbuf = NullPtr, irecvlen = 0,
     precvMemPointer = None, iThrowsendCount = 0, psendMemPointer = None, psendbuf = NullPtr,
     isendlen = 0, inRecyTime = 0, lastPingTime = 0, FloodkickLastTime = 0,
     FloodAttackCount = 0, iSendCount = 0\<rparr>"

definition GetOneToUse :: "int \<Rightarrow> conn \<Rightarrow> conn" where
  "GetOneToUse now c = c\<lparr>cseq := cseq c + 1, fd := -1, curStat := PKG_HD_INIT,
     precvbuf := HeadPtr 0, irecvlen := m_iLenPkgHeader, precvMemPointer := None,
     iThrowsendCount := 0, psendMemPointer := None, events := 0, lastPingTime := now,
     FloodkickLastTime := 0, FloodAttackCount := 0, iSendCount := 0\<rparr>"

definition PutOneToFree :: "conn \<Rightarrow> memory \<Rightarrow> conn \<times> memory" where
  "PutOneToFree c m =
     (c\<lparr>cseq := cseq c + 1, precvMemPointer := None, psendMemPointer := None,
        iThrowsendCount := 0\<rparr>,
      FreeMemory (psendMemPointer c) (FreeMemory (precvMemPointer c) m))"

section \<open>The pool\<close>

record pool =
  conns :: "connptr \<Rightarrow> conn"
  next_conn :: connptr
  m_connectionList :: "connptr list"
  m_freeconnectionList :: "connptr list"
  m_recyconnectionList :: "connptr list"
  m_total_connection_n :: int
  m_free_connection_n :: int
  m_totol_recyconnection_n :: int
  m_onlineUserCount :: int

definition upd_conn :: "connptr \<Rightarrow> (conn \<Rightarrow> conn) \<Rightarrow> pool \<Rightarrow> pool" where
  "upd_conn p f P = P\<lparr>conns := (conns P)(p := f (conns P p))\<rparr>"

definition empty_pool :: pool where
  "empty_pool = \<lparr>conns = (\<lambda>_. qc_connection_init), next_conn = 0, m_connectionList = [],
     m_freeconnectionList = [], m_recyconnectionList = [], m_total_connection_n = 0,
     m_free_connection_n = 0, m_totol_recyconnection_n = 0, m_onlineUserCount = 0\<rparr>"

text \<open>A connection object freshly allocated and constructed, ready to use.\<close>

definition new_conn :: "int \<Rightarrow> pool \<Rightarrow> connptr \<times> pool" where
  "new_conn now P = (let p = next_conn P in
     (p, P\<lparr>conns := (conns P)(p := GetOneToUse now qc_connection_init), next_conn := Suc p,
           m_connectionList := m_connectionList P @ [p]\<rparr>))"

fun initconnection_loop :: "nat \<Rightarrow> int \<Rightarrow> pool \<Rightarrow> pool" where
  "initconnection_loop 0 now P = P"
| "initconnection_loop (Suc n) now P =
     (let (p, P1) = new_conn now P
      in initconnection_loop n now
           (P1\<lparr>m_freeconnectionList := m_freeconnectionList P1 @ [p]\<rparr>))"

definition initconnection :: "int \<Rightarrow> int \<Rightarrow> pool \<Rightarrow> pool" where
  "initconnection worker_connections now P =
     (let P1 = initconnection_loop (nat worker_connections) now P;
          n = int (length (m_connectionList P1))
      in P1\<lparr>m_free_connection_n := n, m_total_connection_n := n\<rparr>)"

definition qc_get_connection :: "int \<Rightarrow> int \<Rightarrow> pool \<Rightarrow> connptr \<times> pool" where
  "qc_get_connection isock now P =
     (case m_freeconnectionList P of
        p # ps \<Rightarrow>
          (p, P\<lparr>conns := (conns P)(p := (GetOneToUse now (conns P p))\<lparr>fd := isock\<rparr>),
                m_freeconnectionList := ps,
                m_free_connection_n := m_free_connection_n P - 1\<rparr>)
      | [] \<Rightarrow>
          (let (p, P1) = new_conn now P
           in (p, upd_conn p (\<lambda>c. c\<lparr>fd := isock\<rparr>)
                    (P1\<lparr>m_total_connection_n := m_total_connection_n P1 + 1\<rparr>))))"

definition qc_free_connection :: "connptr \<Rightarrow> pool \<times> memory \<Rightarrow> pool \<times> memory" where
  "qc_free_connection p = (\<lambda>(P, m).
     let (c, m') = PutOneToFree (conns P p) m
     in (P\<lparr>conns := (conns P)(p := c),
           m_freeconnectionList := m_freeconnectionList P @ [p],
           m_free_connection_n := m_free_connection_n P + 1\<rparr>, m'))"

text \<open>
  The search loop of \<open>inRecyConnectQueue\<close> looks for the connection in the queue; the rest runs
  only when it is not there.
\<close>

fun find_conn :: "connptr \<Rightarrow> connptr list \<Rightarrow> bool" where
  "find_conn p [] = False"
| "find_conn p (q # qs) = (if q = p then True else find_conn p qs)"

definition inRecyConnectQueue :: "connptr \<Rightarrow> int \<Rightarrow> pool \<Rightarrow> pool" where
  "inRecyConnectQueue p now P =
     (if find_conn p (m_recyconnectionList P) then P
      else (upd_conn p (\<lambda>c. c\<lparr>inRecyTime := now, cseq := cseq c + 1\<rparr>) P)
             \<lparr>m_recyconnectionList := m_recyconnectionList P @ [p],
              m_totol_recyconnection_n := m_totol_recyconnection_n P + 1,
              m_onlineUserCount := m_onlineUserCount P - 1\<rparr>)"

text \<open>\<open>qc_close_connection\<close> also returns the descriptor it closes, if any.\<close>

definition qc_close_connection :: "connptr \<Rightarrow> pool \<times> memory \<Rightarrow> (pool \<times> memory) \<times> int list" where
  "qc_close_connection p Pm =
     (let (P, m) = qc_free_connection p Pm
      in if fd (conns P p) \<noteq> -1
         then ((upd_conn p (\<lambda>c. c\<lparr>fd := -1\<rparr>) P, m), [fd (conns P p)])
         else ((P, m), []))"

text \<open>
  \<open>clearconnection\<close> destroys and frees every connection object; the free and recycle lists keep
  their now dangling entries.
\<close>

definition clearconnection :: "pool \<Rightarrow> pool" where
  "clearconnection P = P\<lparr>m_connectionList := []\<rparr>"

section \<open>The recycling thread\<close>

text \<open>
  The \<open>for\<close> loop stops at the first connection that may be released, which the body then
  erases before it jumps back to \<open>lblRRTD\<close>; \<open>split_first\<close> is that search, with the
  entries before and after the hit.
\<close>

fun split_first :: "('a \<Rightarrow> bool) \<Rightarrow> 'a list \<Rightarrow> ('a list \<times> 'a \<times> 'a list) option" where
  "split_first f [] = None"
| "split_first f (x # xs) =
     (if f x then Some ([], x, xs)
      else (case split_first f xs of
              None \<Rightarrow> None
            | Some (pre, y, post) \<Rightarrow> Some (x # pre, y, post)))"

definition recy_due :: "int \<Rightarrow> int \<Rightarrow> int \<Rightarrow> pool \<Rightarrow> connptr \<Rightarrow> bool" where
  "recy_due wait currtime g_stopEvent P p \<longleftrightarrow>
     \<not> (inRecyTime (conns P p) + wait > currtime \<and> g_stopEvent = 0)"

definition release_one ::
  "connptr list \<Rightarrow> connptr \<Rightarrow> connptr list \<Rightarrow> pool \<times> memory \<Rightarrow> pool \<times> memory" where
  "release_one pre p post = (\<lambda>(P, m).
     qc_free_connection p
       (P\<lparr>m_totol_recyconnection_n := m_totol_recyconnection_n P - 1,
          m_recyconnectionList := pre @ post\<rparr>, m))"

lemma split_first_Some:
  "split_first f xs = Some (pre, y, post) \<Longrightarrow>
   xs = pre @ y # post \<and> f y \<and> (\<forall>x \<in> set pre. \<not> f x)"
  by (induction xs arbitrary: pre) (auto split: if_splits option.splits)

lemma split_first_None: "split_first f xs = None \<longleftrightarrow> (\<forall>x \<in> set xs. \<not> f x)"
  by (induction xs) (auto split: option.splits)

lemma recyList_qc_free_connection [simp]:
  "m_recyconnectionList (fst (qc_free_connection p Pm)) = m_recyconnectionList (fst Pm)"
  by (simp add: qc_free_connection_def PutOneToFree_def split: prod.split)

lemma recyList_release_one [simp]:
  "m_recyconnectionList (fst (release_one pre p post Pm)) = pre @ post"
  by (simp add: release_one_def split: prod.split)

function recy_loop :: "int \<Rightarrow> int \<Rightarrow> int \<Rightarrow> pool \<times> memory \<Rightarrow> pool \<times> memory" where
  "recy_loop wait currtime g_stopEvent Pm =
     (case split_first (recy_due wait currtime g_stopEvent (fst Pm))
             (m_recyconnectionList (fst Pm)) of
        None \<Rightarrow> Pm
      | Some (pre, p, post) \<Rightarrow>
          recy_loop wait currtime g_stopEvent (release_one pre p post Pm))"
  by pat_completeness auto
termination
  by (relation "measure (\<lambda>(w, c, g, Pm). length (m_recyconnectionList (fst Pm)))")
    (auto dest!: split_first_Some)

declare recy_loop.simps [simp del]

text \<open>The second loop, on shutdown, releases whatever is at the head until the queue is empty.\<close>

function recy_drain :: "pool \<times> memory \<Rightarrow> pool \<times> memory" where
  "recy_drain Pm =
     (case m_recyconnectionList (fst Pm) of
        [] \<Rightarrow> Pm
      | p # post \<Rightarrow> recy_drain (release_one [] p post Pm))"
  by pat_completeness auto
termination
  by (relation "measure (\<lambda>Pm. length (m_recyconnectionList (fst Pm)))") auto

declare recy_drain.simps [simp del]

text \<open>
  One round of \<open>ServerRecyConnectionThread\<close>: the state after it and whether the thread leaves
  its loop.
\<close>

definition ServerRecyConnectionThread ::
  "int \<Rightarrow> int \<Rightarrow> int \<Rightarrow> pool \<times> memory \<Rightarrow> (pool \<times> memory) \<times> bool" where
  "ServerRecyConnectionThread wait currtime g_stopEvent Pm =
     (let Pm1 = (if m_totol_recyconnection_n (fst Pm) > 0
                 then recy_loop wait currtime g_stopEvent Pm else Pm)
      in if g_stopEvent = 1
         then ((if m_totol_recyconnection_n (fst Pm1) > 0 then recy_drain Pm1 else Pm1), True)
         else (Pm1, False))"

section \<open>Well-formed pools\<close>

text \<open>
  Every connection object is in the connection list; the free list and the recycle queue hold
  each connection at most once and share none; the counters are the lengths.
\<close>

definition pool_lists :: "pool \<Rightarrow> bool" where
  "pool_lists P \<longleftrightarrow>
     distinct (m_connectionList P) \<and> distinct (m_freeconnectionList P)
     \<and> distinct (m_recyconnectionList P)
     \<and> set (m_freeconnectionList P) \<subseteq> set (m_connectionList P)
     \<and> set (m_recyconnectionList P) \<subseteq> set (m_connectionList P)
     \<and> set (m_freeconnectionList P) \<inter> set (m_recyconnectionList P) = {}
     \<and> (\<forall>p \<in> set (m_connectionList P). p < next_conn P)"

definition pool_counters :: "pool \<Rightarrow> bool" where
  "pool_counters P \<longleftrightarrow>
     m_total_connection_n P = int (length (m_connectionList P))
     \<and> m_free_connection_n P = int (length (m_freeconnectionList P))
     \<and> m_totol_recyconnection_n P = int (length (m_recyconnectionList P))"

definition pool_inv :: "pool \<Rightarrow> bool" where
  "pool_inv P \<longleftrightarrow> pool_lists P \<and> pool_counters P"

lemmas pool_inv_defs = pool_inv_def pool_lists_def pool_counters_def

text \<open>The connections some user or listening socket holds: neither free nor being recycled.\<close>

definition in_use :: "pool \<Rightarrow> connptr set" where
  "in_use P = set (m_connectionList P) - set (m_freeconnectionList P) - set (m_recyconnectionList P)"

lemma find_conn_iff [simp]: "find_conn p qs \<longleftrightarrow> p \<in> set qs"
  by (induction qs) auto

lemma pool_inv_empty: "pool_inv empty_pool"
  by (simp add: pool_inv_defs empty_pool_def)

lemma upd_conn_simps [simp]:
  "m_connectionList (upd_conn p f P) = m_connectionList P"
  "m_freeconnectionList (upd_conn p f P) = m_freeconnectionList P"
  "m_recyconnectionList (upd_conn p f P) = m_recyconnectionList P"
  "m_total_connection_n (upd_conn p f P) = m_total_connection_n P"
  "m_free_connection_n (upd_conn p f P) = m_free_connection_n P"
  "m_totol_recyconnection_n (upd_conn p f P) = m_totol_recyconnection_n P"
  "m_onlineUserCount (upd_conn p f P) = m_onlineUserCount P"
  "next_conn (upd_conn p f P) = next_conn P"
  "conns (upd_conn p f P) q = (if q = p then f (conns P p) else conns P q)"
  by (simp_all add: upd_conn_def)

lemma pool_inv_upd_conn [simp]: "pool_inv (upd_conn p f P) = pool_inv P"
  by (simp add: pool_inv_defs)

text \<open>The pool without the contents of the connection objects.\<close>

definition pool_shape :: "pool \<Rightarrow> pool" where
  "pool_shape P = P\<lparr>conns := (\<lambda>_. qc_connection_init)\<rparr>"

lemma pool_shape_upd [simp]: "pool_shape (upd_conn p f P) = pool_shape P"
  by (simp add: pool_shape_def upd_conn_def)

lemma pool_shapeD:
  assumes "pool_shape P = pool_shape Q"
  shows "m_connectionList P = m_connectionList Q" "m_freeconnectionList P = m_freeconnectionList Q"
    "m_recyconnectionList P = m_recyconnectionList Q" "m_onlineUserCount P = m_onlineUserCount Q"
    "next_conn P = next_conn Q" "in_use P = in_use Q" "pool_inv P = pool_inv Q"
proof -
  show *: "m_connectionList P = m_connectionList Q" "m_freeconnectionList P = m_freeconnectionList Q"
    "m_recyconnectionList P = m_recyconnectionList Q" "m_onlineUserCount P = m_onlineUserCount Q"
    "next_conn P = next_conn Q"
    using arg_cong [OF assms, of m_connectionList] arg_cong [OF assms, of m_freeconnectionList]
      arg_cong [OF assms, of m_recyconnectionList] arg_cong [OF assms, of m_onlineUserCount]
      arg_cong [OF assms, of next_conn]
    by (simp_all add: pool_shape_def)
  show "in_use P = in_use Q" using * by (simp add: in_use_def)
  show "pool_inv P = pool_inv Q"
    using * arg_cong [OF assms, of m_total_connection_n] arg_cong [OF assms, of m_free_connection_n]
      arg_cong [OF assms, of m_totol_recyconnection_n]
    by (simp add: pool_inv_defs pool_shape_def)
qed

lemma in_use_upd_conn [simp]: "in_use (upd_conn p f P) = in_use P"
  by (simp add: in_use_def)

lemma initconnection_loop_inv:
  "pool_lists P \<Longrightarrow> pool_lists (initconnection_loop n now P)"
proof (induction n arbitrary: P)
  case 0
  then show ?case by simp
next
  case (Suc n)
  have "pool_lists ((snd (new_conn now P))
      \<lparr>m_freeconnectionList := m_freeconnectionList P @ [next_conn P]\<rparr>)"
    using Suc.prems by (auto simp: new_conn_def Let_def pool_lists_def less_SucI)
  then show ?case
    using Suc.IH by (simp add: new_conn_def Let_def)
qed

lemma initconnection_loop_lists:
  "m_freeconnectionList P = m_connectionList P \<Longrightarrow>
   m_freeconnectionList (initconnection_loop n now P) = m_connectionList (initconnection_loop n now P)
   \<and> length (m_connectionList (initconnection_loop n now P)) = length (m_connectionList P) + n
   \<and> m_recyconnectionList (initconnection_loop n now P) = m_recyconnectionList P
   \<and> m_totol_recyconnection_n (initconnection_loop n now P) = m_totol_recyconnection_n P"
  by (induction n arbitrary: P) (simp_all add: new_conn_def Let_def)

lemma empty_pool_simps [simp]:
  "m_connectionList empty_pool = []" "m_freeconnectionList empty_pool = []"
  "m_recyconnectionList empty_pool = []" "m_totol_recyconnection_n empty_pool = 0"
  by (simp_all add: empty_pool_def)

lemma pool_lists_counters [simp]:
  "pool_lists (P\<lparr>m_free_connection_n := i, m_total_connection_n := j\<rparr>) = pool_lists P"
  by (simp add: pool_lists_def)

lemma initconnection_inv: "pool_inv (initconnection w now empty_pool)"
proof -
  let ?P = "initconnection_loop (nat w) now empty_pool"
  have "pool_lists ?P"
    using pool_inv_empty by (simp add: initconnection_loop_inv pool_inv_def)
  moreover have "m_freeconnectionList ?P = m_connectionList ?P" "m_recyconnectionList ?P = []"
    "m_totol_recyconnection_n ?P = 0"
    using initconnection_loop_lists [of empty_pool "nat w" now] by simp_all
  ultimately show ?thesis
    by (simp add: initconnection_def Let_def pool_inv_def pool_counters_def)
qed

lemma pool_inv_get [qc_inv]:
  "pool_inv P \<Longrightarrow> pool_inv (snd (qc_get_connection isock now P))"
  by (cases "m_freeconnectionList P")
    (auto simp: pool_inv_defs qc_get_connection_def new_conn_def Let_def less_SucI)

lemma get_not_in_use: "pool_inv P \<Longrightarrow> fst (qc_get_connection isock now P) \<notin> in_use P"
  by (cases "m_freeconnectionList P")
    (auto simp: pool_inv_defs in_use_def qc_get_connection_def new_conn_def Let_def)

lemma in_use_get:
  "pool_inv P \<Longrightarrow> in_use (snd (qc_get_connection isock now P)) =
     insert (fst (qc_get_connection isock now P)) (in_use P)"
  by (cases "m_freeconnectionList P")
    (auto simp: pool_inv_defs in_use_def qc_get_connection_def new_conn_def Let_def)

lemma conns_get_same:
  "conns (snd (qc_get_connection isock now P)) (fst (qc_get_connection isock now P)) =
     (GetOneToUse now (if m_freeconnectionList P = [] then qc_connection_init
        else conns P (fst (qc_get_connection isock now P))))\<lparr>fd := isock\<rparr>"
  by (cases "m_freeconnectionList P") (simp_all add: qc_get_connection_def new_conn_def Let_def)

lemma conns_get_other:
  "q \<noteq> fst (qc_get_connection isock now P) \<Longrightarrow>
   conns (snd (qc_get_connection isock now P)) q = conns P q"
  by (cases "m_freeconnectionList P") (simp_all add: qc_get_connection_def new_conn_def Let_def)

lemma pool_inv_free [qc_inv]:
  "pool_inv P \<Longrightarrow> p \<in> in_use P \<Longrightarrow> pool_inv (fst (qc_free_connection p (P, m)))"
  by (auto simp: pool_inv_defs in_use_def qc_free_connection_def PutOneToFree_def)

lemma in_use_free: "in_use (fst (qc_free_connection p (P, m))) = in_use P - {p}"
  by (auto simp: in_use_def qc_free_connection_def PutOneToFree_def)

lemma pool_inv_recy [qc_inv]:
  "pool_inv P \<Longrightarrow> p \<in> in_use P \<or> p \<in> set (m_recyconnectionList P) \<Longrightarrow>
   pool_inv (inRecyConnectQueue p now P)"
  by (auto simp: pool_inv_defs in_use_def inRecyConnectQueue_def)

lemma in_use_recy: "in_use (inRecyConnectQueue p now P) = in_use P - {p}"
  by (auto simp: in_use_def inRecyConnectQueue_def)

lemma pool_inv_release_one [qc_inv]:
  "pool_inv P \<Longrightarrow> m_recyconnectionList P = pre @ p # post \<Longrightarrow>
   pool_inv (fst (release_one pre p post (P, m)))"
  by (auto simp: pool_inv_defs release_one_def qc_free_connection_def PutOneToFree_def)

lemma in_use_release_one:
  "m_recyconnectionList P = pre @ p # post \<Longrightarrow>
   in_use (fst (release_one pre p post (P, m))) = in_use P"
  by (auto simp: in_use_def release_one_def qc_free_connection_def PutOneToFree_def)

text \<open>What releasing one connection leaves alone.\<close>

lemma release_one_simps [simp]:
  "m_freeconnectionList (fst (release_one pre p post (P, m))) = m_freeconnectionList P @ [p]"
  "m_connectionList (fst (release_one pre p post (P, m))) = m_connectionList P"
  "m_onlineUserCount (fst (release_one pre p post (P, m))) = m_onlineUserCount P"
  "next_conn (fst (release_one pre p post (P, m))) = next_conn P"
  "inRecyTime (conns (fst (release_one pre p post (P, m))) q) = inRecyTime (conns P q)"
  "q \<noteq> p \<Longrightarrow> conns (fst (release_one pre p post (P, m))) q = conns P q"
  by (simp_all add: release_one_def qc_free_connection_def PutOneToFree_def)

lemma recy_due_release_one [simp]:
  "recy_due w t g (fst (release_one pre p post (P, m))) = recy_due w t g P"
  by (rule ext) (simp add: recy_due_def)

section \<open>The recycling loop\<close>

text \<open>Loop rules: what every release preserves, the loops preserve.\<close>

lemma recy_loop_None:
  "split_first (recy_due w t g (fst Pm)) (m_recyconnectionList (fst Pm)) = None \<Longrightarrow>
   recy_loop w t g Pm = Pm"
  by (simp add: recy_loop.simps [of w t g Pm])

lemma recy_loop_Some:
  "split_first (recy_due w t g (fst Pm)) (m_recyconnectionList (fst Pm)) = Some (pre, p, post) \<Longrightarrow>
   recy_loop w t g Pm = recy_loop w t g (release_one pre p post Pm)"
  by (simp add: recy_loop.simps [of w t g Pm])

lemma recy_loop_rule:
  assumes step: "\<And>P m pre p post. I (P, m) \<Longrightarrow> m_recyconnectionList P = pre @ p # post \<Longrightarrow>
      recy_due w t g P p \<Longrightarrow> I (release_one pre p post (P, m))"
    and init: "I Pm"
  shows "I (recy_loop w t g Pm)"
  using init
proof (induction n \<equiv> "length (m_recyconnectionList (fst Pm))" arbitrary: Pm rule: less_induct)
  case less
  show ?case
  proof (cases "split_first (recy_due w t g (fst Pm)) (m_recyconnectionList (fst Pm))")
    case None
    with less.prems show ?thesis by (simp add: recy_loop_None)
  next
    case (Some hit)
    obtain pre p post where hit: "hit = (pre, p, post)" by (cases hit)
    from split_first_Some [OF Some [unfolded hit]]
    have "m_recyconnectionList (fst Pm) = pre @ p # post" "recy_due w t g (fst Pm) p" by simp_all
    with step [of "fst Pm" "snd Pm" pre p post] less.prems less.hyps
    have "I (recy_loop w t g (release_one pre p post Pm))" by simp
    then show ?thesis by (simp only: recy_loop_Some [OF Some [unfolded hit]])
  qed
qed

lemma recy_drain_rule:
  assumes step: "\<And>P m p post. I (P, m) \<Longrightarrow> m_recyconnectionList P = p # post \<Longrightarrow>
      I (release_one [] p post (P, m))"
    and init: "I Pm"
  shows "I (recy_drain Pm)"
  using init
proof (induction n \<equiv> "length (m_recyconnectionList (fst Pm))" arbitrary: Pm rule: less_induct)
  case less
  show ?case
  proof (cases "m_recyconnectionList (fst Pm)")
    case Nil
    with less.prems show ?thesis by (subst recy_drain.simps) simp
  next
    case (Cons p post)
    with step [of "fst Pm" "snd Pm" p post] less.prems less.hyps
    have "I (recy_drain (release_one [] p post Pm))" by simp
    with Cons show ?thesis by (subst recy_drain.simps) simp
  qed
qed

lemma recycle_thread_rule:
  assumes "\<And>P m pre p post. I (P, m) \<Longrightarrow> m_recyconnectionList P = pre @ p # post \<Longrightarrow>
      I (release_one pre p post (P, m))"
    and "I Pm"
  shows "I (fst (ServerRecyConnectionThread w t g Pm))"
proof -
  have loop: "I (recy_loop w t g Qm)" if "I Qm" for Qm
    using assms(1) that by (rule recy_loop_rule)
  have drain: "I (recy_drain Qm)" if "I Qm" for Qm
  proof (rule recy_drain_rule [where I = I and Pm = Qm, OF _ that])
    fix P m p post
    assume "I (P, m)" and "m_recyconnectionList P = p # post"
    with assms(1) [of P m "[]" p post] show "I (release_one [] p post (P, m))" by simp
  qed
  show ?thesis
    using assms(2) loop [of Pm] drain [of Pm] drain [of "recy_loop w t g Pm"]
    by (auto simp: ServerRecyConnectionThread_def Let_def)
qed

lemma recy_loop_lists:
  "m_recyconnectionList (fst (recy_loop w t g Pm)) =
     filter (\<lambda>p. \<not> recy_due w t g (fst Pm) p) (m_recyconnectionList (fst Pm))
   \<and> m_freeconnectionList (fst (recy_loop w t g Pm)) =
     m_freeconnectionList (fst Pm) @
       filter (recy_due w t g (fst Pm)) (m_recyconnectionList (fst Pm))"
proof (induction n \<equiv> "length (m_recyconnectionList (fst Pm))" arbitrary: Pm rule: less_induct)
  case less
  obtain P m where Pm: "Pm = (P, m)" by (cases Pm)
  show ?case
  proof (cases "split_first (recy_due w t g (fst Pm)) (m_recyconnectionList (fst Pm))")
    case None
    then have "\<forall>x \<in> set (m_recyconnectionList P). \<not> recy_due w t g P x"
      by (simp add: Pm split_first_None)
    then have "filter (recy_due w t g P) (m_recyconnectionList P) = []"
      and "filter (\<lambda>p. \<not> recy_due w t g P p) (m_recyconnectionList P) = m_recyconnectionList P"
      by (auto simp: filter_empty_conv filter_id_conv)
    with None show ?thesis by (simp add: recy_loop_None Pm)
  next
    case (Some hit)
    obtain pre p post where hit: "hit = (pre, p, post)" by (cases hit)
    from split_first_Some [OF Some [unfolded hit]]
    have split: "m_recyconnectionList P = pre @ p # post"
      "recy_due w t g P p" "\<forall>x \<in> set pre. \<not> recy_due w t g P x"
      by (simp_all add: Pm)
    have pre: "filter (recy_due w t g P) pre = []" "filter (\<lambda>p. \<not> recy_due w t g P p) pre = pre"
      using split(3) by (auto simp: filter_empty_conv filter_id_conv)
    have "length (m_recyconnectionList (fst (release_one pre p post Pm)))
        < length (m_recyconnectionList (fst Pm))"
      using split by (simp add: Pm)
    from less [OF this] show ?thesis
      using split pre by (simp only: recy_loop_Some [OF Some [unfolded hit]]) (simp add: Pm)
  qed
qed

lemma recycle_thread_inv [qc_inv]:
  "pool_inv P \<Longrightarrow>
   pool_inv (fst (fst (ServerRecyConnectionThread w t g (P, m))))
   \<and> in_use (fst (fst (ServerRecyConnectionThread w t g (P, m)))) = in_use P"
  by (rule recycle_thread_rule [where I = "\<lambda>Qm. pool_inv (fst Qm) \<and> in_use (fst Qm) = in_use P"])
    (simp_all add: pool_inv_release_one in_use_release_one)

lemma recy_drain_empty: "m_recyconnectionList (fst (recy_drain Pm)) = []"
proof (induction n \<equiv> "length (m_recyconnectionList (fst Pm))" arbitrary: Pm rule: less_induct)
  case less
  then show ?case
    by (cases "m_recyconnectionList (fst Pm)") (subst recy_drain.simps, simp)+
qed

end
