(* ===== verification/QcTimer.thy ===== *)
theory QcTimer
  imports QcMemory
begin

text \<open>
  The timer queue of net/qc\_socket\_time.cc: a multimap from deadlines to message headers, with
  a size counter and the cached first deadline. The multimap is a list of pairs in key order; an
  insertion goes behind the entries with an equal key, as \<open>std::multimap::insert\<close> does.
\<close>

section \<open>The code\<close>

record timerq =
  m_timerQueuemap :: "(int \<times> addr) list"
  m_cur_size :: nat
  m_timer_value :: int

text \<open>The configuration the timer functions read: \<open>m_iWaitTime\<close> and \<open>m_ifTimeOutKick\<close>.\<close>

record timer_conf =
  m_iWaitTime :: int
  m_ifTimeOutKick :: int

fun multimap_insert :: "int \<Rightarrow> 'a \<Rightarrow> (int \<times> 'a) list \<Rightarrow> (int \<times> 'a) list" where
  "multimap_insert t x [] = [(t, x)]"
| "multimap_insert t x ((u, y) # es) =
     (if t < u then (t, x) # (u, y) # es else (u, y) # multimap_insert t x es)"

text \<open>
  \<open>GetEarliestTime\<close> dereferences \<open>begin()\<close>, which an empty map does not have; its callers
  check the size first. On the empty map the model gives 0.
\<close>

definition GetEarliestTime :: "timerq \<Rightarrow> int" where
  "GetEarliestTime T = (case m_timerQueuemap T of [] \<Rightarrow> 0 | (t, _) # _ \<Rightarrow> t)"

definition alloc_header :: "STRUC_MSG_HEADER \<Rightarrow> memory \<Rightarrow> addr \<times> memory" where
  "alloc_header h m =
     (let (a, m1) = AllocMemory m_iLenMsgHeader False m
      in (a, write_obj a ((read_obj a m1)\<lparr>mb_hdr := h\<rparr>) m1))"

definition AddToTimerQueue ::
  "timer_conf \<Rightarrow> connptr \<Rightarrow> u64 \<Rightarrow> int \<Rightarrow> timerq \<times> memory \<Rightarrow> timerq \<times> memory" where
  "AddToTimerQueue cf p seq now = (\<lambda>(T, m).
     let futtime = now + m_iWaitTime cf;
         (a, m1) = alloc_header \<lparr>pConn = p, iCurrsequence = seq\<rparr> m;
         T1 = T\<lparr>m_timerQueuemap := multimap_insert futtime a (m_timerQueuemap T),
                m_cur_size := m_cur_size T + 1\<rparr>
     in (T1\<lparr>m_timer_value := GetEarliestTime T1\<rparr>, m1))"

definition RemoveFirstTimer :: "timerq \<Rightarrow> addr option \<times> timerq" where
  "RemoveFirstTimer T =
     (if m_cur_size T \<le> 0 then (None, T)
      else (case m_timerQueuemap T of
              [] \<Rightarrow> (None, T)
            | (t, a) # es \<Rightarrow>
                (Some a, T\<lparr>m_timerQueuemap := es, m_cur_size := m_cur_size T - 1\<rparr>)))"

definition GetOverTimeTimer ::
  "timer_conf \<Rightarrow> int \<Rightarrow> timerq \<times> memory \<Rightarrow> addr option \<times> timerq \<times> memory" where
  "GetOverTimeTimer cf cur_time = (\<lambda>(T, m).
     if m_cur_size T = 0 \<or> m_timerQueuemap T = [] then (None, T, m)
     else if GetEarliestTime T \<le> cur_time then
       (case RemoveFirstTimer T of
          (None, T1) \<Rightarrow> (None, T1, m)
        | (Some a, T1) \<Rightarrow>
            (let (T2, m2) =
               (if m_ifTimeOutKick cf \<noteq> 1 then
                  (let (b, m1) = alloc_header (mb_hdr (read_obj a m)) (check_access a m)
                   in (T1\<lparr>m_timerQueuemap :=
                            multimap_insert (cur_time + m_iWaitTime cf) b (m_timerQueuemap T1),
                          m_cur_size := m_cur_size T1 + 1\<rparr>, m1))
                else (T1, m));
               T3 = (if m_cur_size T2 > 0 then T2\<lparr>m_timer_value := GetEarliestTime T2\<rparr> else T2)
             in (Some a, T3, m2)))
     else (None, T, m))"

text \<open>
  \<open>DeleteFromTimerQueue\<close> scans from the start, erases the first entry of the connection and
  starts over (\<open>goto lblMTQM\<close>), until a scan finds none.
\<close>

fun erase_first :: "connptr \<Rightarrow> memory \<Rightarrow> (int \<times> addr) list \<Rightarrow> (addr \<times> (int \<times> addr) list) option" where
  "erase_first p m [] = None"
| "erase_first p m ((t, a) # es) =
     (if pConn (mb_hdr (read_obj a m)) = p then Some (a, es)
      else (case erase_first p m es of
              None \<Rightarrow> None
            | Some (b, es') \<Rightarrow> Some (b, (t, a) # es')))"

lemma erase_first_length: "erase_first p m es = Some (a, es') \<Longrightarrow> length es = Suc (length es')"
  by (induction es arbitrary: es') (auto split: if_splits option.splits)

function delete_loop :: "connptr \<Rightarrow> timerq \<times> memory \<Rightarrow> timerq \<times> memory" where
  "delete_loop p (T, m) =
     (case erase_first p m (m_timerQueuemap T) of
        None \<Rightarrow> (T, m)
      | Some (a, es) \<Rightarrow>
          delete_loop p (T\<lparr>m_timerQueuemap := es, m_cur_size := m_cur_size T - 1\<rparr>,
                         FreeMemory (Some a) m))"
  by pat_completeness auto
termination
  by (relation "measure (\<lambda>(p, T, m). length (m_timerQueuemap T))")
    (auto dest!: erase_first_length)

declare delete_loop.simps [simp del]

definition DeleteFromTimerQueue :: "connptr \<Rightarrow> timerq \<times> memory \<Rightarrow> timerq \<times> memory" where
  "DeleteFromTimerQueue p Tm =
     (let (T, m) = delete_loop p Tm
      in (if m_cur_size T > 0 then T\<lparr>m_timer_value := GetEarliestTime T\<rparr> else T, m))"

definition clearAllFromTimerQueue :: "timerq \<times> memory \<Rightarrow> timerq \<times> memory" where
  "clearAllFromTimerQueue = (\<lambda>(T, m).
     (T\<lparr>m_timerQueuemap := [], m_cur_size := m_cur_size T - length (m_timerQueuemap T)\<rparr>,
      fold (\<lambda>a. FreeMemory (Some a)) (map snd (m_timerQueuemap T)) m))"

text \<open>
  The loop of \<open>ServerTimerQueueMonitorThread\<close> that collects the expired entries. It ends only
  because an entry that is put back gets a later deadline; without that it would run for ever, so
  it is a partial function, and its termination is a theorem below.
\<close>

partial_function (option) collect_expired ::
  "timer_conf \<Rightarrow> int \<Rightarrow> addr list \<Rightarrow> timerq \<times> memory \<Rightarrow> (addr list \<times> timerq \<times> memory) option" where
  "collect_expired cf cur_time acc Tm =
     (case GetOverTimeTimer cf cur_time Tm of
        (None, T, m) \<Rightarrow> Some (acc, T, m)
      | (Some a, T, m) \<Rightarrow> collect_expired cf cur_time (acc @ [a]) (T, m))"

text \<open>
  One round of the monitor thread up to the point where it leaves the mutex: the list of expired
  headers to hand to \<open>procPingTimeOutChecking\<close>.
\<close>

definition monitor_collect ::
  "timer_conf \<Rightarrow> int \<Rightarrow> timerq \<times> memory \<Rightarrow> (addr list \<times> timerq \<times> memory) option" where
  "monitor_collect cf cur_time Tm =
     (if m_cur_size (fst Tm) > 0 \<and> m_timer_value (fst Tm) < cur_time
      then collect_expired cf cur_time [] Tm
      else Some ([], Tm))"

section \<open>Well-formed timer queues\<close>

text \<open>
  The entries are in key order, the counter is their number and the cached deadline is the first
  one; the headers are live buffers, each the header of one entry only.
\<close>

definition timer_wf :: "timerq \<Rightarrow> bool" where
  "timer_wf T \<longleftrightarrow> sorted (map fst (m_timerQueuemap T))
     \<and> m_cur_size T = length (m_timerQueuemap T)
     \<and> (m_timerQueuemap T \<noteq> [] \<longrightarrow> m_timer_value T = fst (hd (m_timerQueuemap T)))"

definition timer_addrs :: "timerq \<Rightarrow> addr list" where
  "timer_addrs T = map snd (m_timerQueuemap T)"

definition timer_live :: "timerq \<Rightarrow> memory \<Rightarrow> bool" where
  "timer_live T m \<longleftrightarrow> distinct (timer_addrs T) \<and> set (timer_addrs T) \<subseteq> live m \<and> mem_wf m"

definition hdr :: "memory \<Rightarrow> addr \<Rightarrow> STRUC_MSG_HEADER" where
  "hdr m a = mb_hdr (read_obj a m)"

lemma GetEarliestTime_hd: "m_timerQueuemap T \<noteq> [] \<Longrightarrow> GetEarliestTime T = fst (hd (m_timerQueuemap T))"
  by (cases "m_timerQueuemap T") (auto simp: GetEarliestTime_def)

lemma mset_multimap_insert [simp]: "mset (multimap_insert t x es) = add_mset (t, x) (mset es)"
  by (induction es rule: multimap_insert.induct) auto

lemma set_multimap_insert [simp]: "set (multimap_insert t x es) = insert (t, x) (set es)"
  by (induction es rule: multimap_insert.induct) auto

lemma length_multimap_insert [simp]: "length (multimap_insert t x es) = Suc (length es)"
  by (induction es rule: multimap_insert.induct) auto

lemma sorted_multimap_insert:
  "sorted (map fst es) \<Longrightarrow> sorted (map fst (multimap_insert t x es))"
  by (induction es rule: multimap_insert.induct) (auto simp: sorted_simps)

lemma distinct_multimap_insert [simp]:
  "distinct (map snd (multimap_insert t x es)) \<longleftrightarrow> x \<notin> snd ` set es \<and> distinct (map snd es)"
  by (induction es rule: multimap_insert.induct) auto

lemma multimap_insert_not_Nil [simp]: "multimap_insert t x es \<noteq> []"
  by (induction es rule: multimap_insert.induct) auto

text \<open>A new header: a fresh address that holds it, and nothing else changes.\<close>

lemma alloc_header_simps [simp]:
  "fst (alloc_header h m) = mem_next m"
  "live (snd (alloc_header h m)) = insert (mem_next m) (live m)"
  "mem_faults (snd (alloc_header h m)) = mem_faults m"
  "mem_wf m \<Longrightarrow> mem_wf (snd (alloc_header h m))"
  "mem_wf m \<Longrightarrow> live_mset (snd (alloc_header h m)) = add_mset (mem_next m) (live_mset m)"
  "hdr (snd (alloc_header h m)) (mem_next m) = h"
  "a \<noteq> mem_next m \<Longrightarrow> read_obj a (snd (alloc_header h m)) = read_obj a m"
  by (simp_all add: alloc_header_def Let_def case_prod_beta qc_inv hdr_def)

lemma alloc_header_live:
  "mem_wf m \<Longrightarrow> b \<in> live m \<Longrightarrow> read_obj b (snd (alloc_header h m)) = read_obj b m"
  by (metis alloc_header_simps(7) mem_next_fresh)

lemma mem_step_alloc_header [simp]: "mem_step A m (snd (alloc_header h m))"
proof -
  have "mem_step {mem_next m} m (snd (alloc_header h m))"
    using mem_step_trans_same [OF mem_step_Alloc mem_step_write]
    by (simp add: alloc_header_def Let_def case_prod_beta)
  from mem_step_fresh [OF this order_refl] show ?thesis by (rule mem_step_mono) simp
qed

lemma alloc_header_pair: "alloc_header h m = (mem_next m, snd (alloc_header h m))"
  by (metis alloc_header_simps(1) prod.collapse)

section \<open>Adding and deleting\<close>

lemma AddToTimerQueue_map:
  "m_timerQueuemap (fst (AddToTimerQueue cf p seq now (T, m))) =
     multimap_insert (now + m_iWaitTime cf) (mem_next m) (m_timerQueuemap T)"
  "snd (AddToTimerQueue cf p seq now (T, m)) =
     snd (alloc_header \<lparr>pConn = p, iCurrsequence = seq\<rparr> m)"
  by (simp_all add: AddToTimerQueue_def Let_def case_prod_beta)

lemma AddToTimerQueue_wf [qc_inv]:
  "timer_wf T \<Longrightarrow> timer_wf (fst (AddToTimerQueue cf p seq now (T, m)))"
  by (simp add: AddToTimerQueue_def Let_def case_prod_beta timer_wf_def sorted_multimap_insert
      GetEarliestTime_hd)

lemma AddToTimerQueue_live [qc_inv]:
  "timer_live T m \<Longrightarrow>
   timer_live (fst (AddToTimerQueue cf p seq now (T, m))) (snd (AddToTimerQueue cf p seq now (T, m)))"
  using mem_next_fresh [of m]
  by (auto simp: timer_live_def timer_addrs_def AddToTimerQueue_map)

lemma erase_first_Some:
  "erase_first p m es = Some (a, es') \<Longrightarrow>
   \<exists>xs t ys. es = xs @ (t, a) # ys \<and> es' = xs @ ys \<and> pConn (hdr m a) = p
     \<and> (\<forall>e \<in> set xs. pConn (hdr m (snd e)) \<noteq> p)"
proof (induction es arbitrary: es')
  case Nil
  then show ?case by simp
next
  case (Cons e es)
  obtain t b where e: "e = (t, b)" by (cases e)
  show ?case
  proof (cases "pConn (hdr m b) = p")
    case True
    with Cons.prems e show ?thesis
      by (intro exI [of _ "[]"]) (auto simp: hdr_def)
  next
    case False
    with Cons.prems e obtain es'' where "erase_first p m es = Some (a, es'')" "es' = e # es''"
      by (auto simp: hdr_def split: option.splits)
    with Cons.IH [of es''] obtain xs t' ys where "es = xs @ (t', a) # ys" "es'' = xs @ ys"
      "pConn (hdr m a) = p" "\<forall>e \<in> set xs. pConn (hdr m (snd e)) \<noteq> p" by blast
    with False e \<open>es' = e # es''\<close> show ?thesis
      by (intro exI [of _ "e # xs"]) auto
  qed
qed

lemma erase_first_None:
  "erase_first p m es = None \<longleftrightarrow> (\<forall>e \<in> set es. pConn (hdr m (snd e)) \<noteq> p)"
  by (induction es rule: erase_first.induct) (auto simp: hdr_def split: option.splits)

text \<open>The erase loop is a filter; the headers of the erased entries are released, no others.\<close>

definition deleted_addrs :: "connptr \<Rightarrow> timerq \<Rightarrow> memory \<Rightarrow> addr list" where
  "deleted_addrs p T m = filter (\<lambda>a. pConn (hdr m a) = p) (timer_addrs T)"

lemma delete_loop_spec:
  assumes "timer_live T m" and "m_cur_size T = length (m_timerQueuemap T)"
  shows "fst (delete_loop p (T, m)) =
      T\<lparr>m_timerQueuemap := filter (\<lambda>e. pConn (hdr m (snd e)) \<noteq> p) (m_timerQueuemap T),
        m_cur_size := length (filter (\<lambda>e. pConn (hdr m (snd e)) \<noteq> p) (m_timerQueuemap T))\<rparr>
    \<and> mem_wf (snd (delete_loop p (T, m)))
    \<and> mem_faults (snd (delete_loop p (T, m))) = mem_faults m
    \<and> live_mset m = live_mset (snd (delete_loop p (T, m))) + mset (deleted_addrs p T m)
    \<and> mem_next (snd (delete_loop p (T, m))) = mem_next m
    \<and> (\<forall>a. a \<notin> set (deleted_addrs p T m) \<longrightarrow>
         read_obj a (snd (delete_loop p (T, m))) = read_obj a m)"
  using assms
proof (induction p "(T, m)" arbitrary: T m rule: delete_loop.induct)
  case (1 p T m)
  let ?q = "m_timerQueuemap T"
  show ?case
  proof (cases "erase_first p m ?q")
    case None
    then have none: "\<forall>e \<in> set ?q. pConn (hdr m (snd e)) \<noteq> p" by (simp add: erase_first_None)
    then have "filter (\<lambda>e. pConn (hdr m (snd e)) \<noteq> p) ?q = ?q" by (simp add: filter_id_conv)
    moreover from none have "deleted_addrs p T m = []"
      by (auto simp: deleted_addrs_def timer_addrs_def filter_empty_conv)
    ultimately show ?thesis
      using "1.prems" None by (simp add: delete_loop.simps timer_live_def)
  next
    case (Some hit)
    obtain a es where hit: "hit = (a, es)" by (cases hit)
    from erase_first_Some [OF Some [unfolded hit]] obtain xs t ys where
      q: "?q = xs @ (t, a) # ys" and es: "es = xs @ ys" and pa: "pConn (hdr m a) = p"
      and xs: "\<forall>e \<in> set xs. pConn (hdr m (snd e)) \<noteq> p" by blast
    let ?T = "T\<lparr>m_timerQueuemap := es, m_cur_size := m_cur_size T - 1\<rparr>"
    let ?m = "FreeMemory (Some a) m"
    from "1.prems"(1) q have a: "a \<in> live m" and notin: "a \<notin> snd ` set xs" "a \<notin> snd ` set ys"
      and wf: "mem_wf m"
      by (auto simp: timer_live_def timer_addrs_def)
    have same: "hdr ?m b = hdr m b" if "b \<noteq> a" for b
      using that by (simp add: hdr_def read_obj_Free_other)
    have prems: "timer_live ?T ?m" "m_cur_size ?T = length (m_timerQueuemap ?T)"
      using "1.prems" notin
      by (auto simp: timer_live_def timer_addrs_def q es mem_wf_FreeMemory)
    note IH = "1.hyps" [OF Some [unfolded hit] refl prems]
    have same_es: "\<forall>e \<in> set es. hdr ?m (snd e) = hdr m (snd e)"
      using notin by (metis es image_eqI same set_append UnE)
    then have "filter (\<lambda>e. pConn (hdr ?m (snd e)) \<noteq> p) es = filter (\<lambda>e. pConn (hdr m (snd e)) \<noteq> p) es"
      by (intro filter_cong) (simp_all)
    also have "\<dots> = filter (\<lambda>e. pConn (hdr m (snd e)) \<noteq> p) ?q" by (simp add: q es pa)
    finally have filt: "filter (\<lambda>e. pConn (hdr ?m (snd e)) \<noteq> p) es =
      filter (\<lambda>e. pConn (hdr m (snd e)) \<noteq> p) ?q" .
    have "filter (\<lambda>b. pConn (hdr ?m b) = p) (map snd es) = filter (\<lambda>b. pConn (hdr m b) = p) (map snd es)"
      using same_es by (intro filter_cong) (auto)
    moreover have "filter (\<lambda>b. pConn (hdr m b) = p) (map snd xs) = []"
      using xs by (auto simp: filter_empty_conv)
    ultimately have dele: "deleted_addrs p T m = a # deleted_addrs p ?T ?m"
      by (simp add: deleted_addrs_def timer_addrs_def q es pa)
    have step: "delete_loop p (T, m) = delete_loop p (?T, ?m)"
      by (simp add: delete_loop.simps [of p T m] Some hit)
    have "live_mset m = live_mset ?m + {#a#}"
      using live_mset_FreeMemory [OF wf, of "Some a"] a by (simp)
    moreover have "mem_faults ?m = mem_faults m" using a by (simp add: cmem.free_flt)
    moreover have "read_obj b ?m = read_obj b m" if "b \<noteq> a" for b
      using that by (simp add: read_obj_Free_other)
    ultimately show ?thesis
      using IH filt by (simp add: step dele)
  qed
qed

lemma DeleteFromTimerQueue_eq:
  assumes "timer_wf T" and "timer_live T m"
  shows "m_timerQueuemap (fst (DeleteFromTimerQueue p (T, m))) =
      filter (\<lambda>e. pConn (hdr m (snd e)) \<noteq> p) (m_timerQueuemap T)"
    and "snd (DeleteFromTimerQueue p (T, m)) = snd (delete_loop p (T, m))"
    and "timer_addrs (fst (DeleteFromTimerQueue p (T, m))) =
      filter (\<lambda>a. pConn (hdr m a) \<noteq> p) (timer_addrs T)"
  using delete_loop_spec [OF assms(2), of p] assms(1)
  by (simp_all add: DeleteFromTimerQueue_def Let_def case_prod_beta timer_wf_def timer_addrs_def
      filter_map comp_def)

lemma sorted_filter_fst: "sorted (map fst es) \<Longrightarrow> sorted (map fst (filter P es))"
  by (induction es) auto

lemma timer_live_set: "timer_live T m \<Longrightarrow> a \<in> set (timer_addrs T) \<Longrightarrow> a \<in> live m"
  by (auto simp: timer_live_def)

lemma DeleteFromTimerQueue_wf [qc_inv]:
  assumes "timer_wf T" and "timer_live T m"
  shows "timer_wf (fst (DeleteFromTimerQueue p (T, m)))"
  using delete_loop_spec [OF assms(2), of p] assms(1)
  by (auto simp: DeleteFromTimerQueue_def Let_def case_prod_beta timer_wf_def sorted_filter_fst
      GetEarliestTime_hd)

lemma DeleteFromTimerQueue_mem:
  assumes "timer_wf T" and "timer_live T m"
  shows "mem_wf (snd (DeleteFromTimerQueue p (T, m)))"
    and "mem_faults (snd (DeleteFromTimerQueue p (T, m))) = mem_faults m"
    and "live_mset m = live_mset (snd (DeleteFromTimerQueue p (T, m))) + mset (deleted_addrs p T m)"
    and "live (snd (DeleteFromTimerQueue p (T, m))) = live m - set (deleted_addrs p T m)"
    and "a \<notin> set (deleted_addrs p T m) \<Longrightarrow>
      read_obj a (snd (DeleteFromTimerQueue p (T, m))) = read_obj a m"
proof -
  have size: "m_cur_size T = length (m_timerQueuemap T)" using assms(1) by (simp add: timer_wf_def)
  note spec = delete_loop_spec [OF assms(2) size, of p]
  show "mem_wf (snd (DeleteFromTimerQueue p (T, m)))"
    and "mem_faults (snd (DeleteFromTimerQueue p (T, m))) = mem_faults m"
    and "live_mset m = live_mset (snd (DeleteFromTimerQueue p (T, m))) + mset (deleted_addrs p T m)"
    and "a \<notin> set (deleted_addrs p T m) \<Longrightarrow>
      read_obj a (snd (DeleteFromTimerQueue p (T, m))) = read_obj a m"
    using spec by (simp_all add: DeleteFromTimerQueue_eq(2) [OF assms])
  then show "live (snd (DeleteFromTimerQueue p (T, m))) = live m - set (deleted_addrs p T m)"
    using assms(2) by (intro live_minus) (simp_all add: timer_live_def)
qed

lemma delete_loop_next: "mem_next (snd (delete_loop p Tm)) = mem_next (snd Tm)"
  by (induction p Tm rule: delete_loop.induct)
    (subst delete_loop.simps, auto split: option.splits)

lemma delete_loop_step: "mem_step {} (snd Tm) (snd (delete_loop p Tm))"
proof (induction p Tm rule: delete_loop.induct)
  case (1 p T m)
  show ?case
  proof (cases "erase_first p m (m_timerQueuemap T)")
    case None
    then show ?thesis by (simp add: delete_loop.simps [of p T m])
  next
    case (Some hit)
    obtain a es where hit: "hit = (a, es)" by (cases hit)
    from mem_step_trans_same [OF mem_step_Free "1.IH" [OF Some [unfolded hit] refl, simplified]]
    show ?thesis
      by (simp add: delete_loop.simps [of p T m] Some hit)
  qed
qed

lemma DeleteFromTimerQueue_step [simp]: "mem_step A m (snd (DeleteFromTimerQueue p (T, m)))"
  using mem_step_mono [OF delete_loop_step [of "(T, m)" p], of A]
  by (simp add: DeleteFromTimerQueue_def Let_def case_prod_beta)

lemma DeleteFromTimerQueue_live [qc_inv]:
  assumes "timer_wf T" and "timer_live T m"
  shows "timer_live (fst (DeleteFromTimerQueue p (T, m))) (snd (DeleteFromTimerQueue p (T, m)))"
  using assms DeleteFromTimerQueue_mem [OF assms, of p]
  by (auto simp: timer_live_def DeleteFromTimerQueue_eq deleted_addrs_def)

lemma DeleteFromTimerQueue_ownership:
  assumes "timer_wf T" and "timer_live T m"
  shows "live_mset m + mset (timer_addrs (fst (DeleteFromTimerQueue p (T, m)))) =
    live_mset (snd (DeleteFromTimerQueue p (T, m))) + mset (timer_addrs T)"
  using DeleteFromTimerQueue_mem(3) [OF assms, of p]
  by (simp add: DeleteFromTimerQueue_eq(3) [OF assms] deleted_addrs_def flip: mset_append)

section \<open>Collecting the expired entries\<close>

definition expired :: "int \<Rightarrow> timerq \<Rightarrow> (int \<times> addr) list" where
  "expired cur T = filter (\<lambda>e. fst e \<le> cur) (m_timerQueuemap T)"

definition not_expired :: "int \<Rightarrow> timerq \<Rightarrow> (int \<times> addr) list" where
  "not_expired cur T = filter (\<lambda>e. cur < fst e) (m_timerQueuemap T)"

text \<open>The entries of a queue with the headers they point to, whatever their addresses.\<close>

definition entries :: "memory \<Rightarrow> (int \<times> addr) list \<Rightarrow> (int \<times> STRUC_MSG_HEADER) multiset" where
  "entries m es = mset (map (\<lambda>(t, a). (t, hdr m a)) es)"

lemma entries_append [simp]: "entries m (xs @ ys) = entries m xs + entries m ys"
  by (simp add: entries_def)

lemma entries_insert [simp]:
  "entries m (multimap_insert t a es) = add_mset (t, hdr m a) (entries m es)"
  by (simp add: entries_def)

lemma entries_cong:
  "(\<And>e. e \<in> set es \<Longrightarrow> hdr m' (snd e) = hdr m (snd e)) \<Longrightarrow> entries m' es = entries m es"
  by (auto simp: entries_def intro!: image_mset_cong)

lemma filter_insert_later:
  "cur < t \<Longrightarrow> filter (\<lambda>e. fst e \<le> cur) (multimap_insert t b es) = filter (\<lambda>e. fst e \<le> cur) es"
  by (induction t b es rule: multimap_insert.induct) auto

lemma expired_empty_iff:
  "timer_wf T \<Longrightarrow> expired cur T = [] \<longleftrightarrow>
     m_timerQueuemap T = [] \<or> cur < fst (hd (m_timerQueuemap T))"
  by (cases "m_timerQueuemap T") (auto simp: expired_def timer_wf_def filter_empty_conv)

lemma GetOverTimeTimer_none:
  "timer_wf T \<Longrightarrow> expired cur T = [] \<Longrightarrow> GetOverTimeTimer cf cur (T, m) = (None, T, m)"
  by (auto simp: GetOverTimeTimer_def expired_empty_iff GetEarliestTime_hd)

text \<open>The queue after one expired entry was taken out, and put back when users are not kicked.\<close>

definition requeue :: "timer_conf \<Rightarrow> int \<Rightarrow> addr \<Rightarrow> (int \<times> addr) list \<Rightarrow> (int \<times> addr) list" where
  "requeue cf cur b es =
     (if m_ifTimeOutKick cf \<noteq> 1 then multimap_insert (cur + m_iWaitTime cf) b es else es)"

definition realloc :: "timer_conf \<Rightarrow> addr \<Rightarrow> memory \<Rightarrow> memory" where
  "realloc cf a m = (if m_ifTimeOutKick cf \<noteq> 1 then snd (alloc_header (hdr m a) m) else m)"

lemma GetOverTimeTimer_some:
  assumes "timer_wf T" and "m_timerQueuemap T = (t, a) # es" and "t \<le> cur" and "a \<in> live m"
  obtains T' where "GetOverTimeTimer cf cur (T, m) = (Some a, T', realloc cf a m)"
    and "m_timerQueuemap T' = requeue cf cur (mem_next m) es" and "timer_wf T'"
proof -
  let ?R = "GetOverTimeTimer cf cur (T, m)"
  have "fst ?R = Some a" "snd (snd ?R) = realloc cf a m"
    "m_timerQueuemap (fst (snd ?R)) = requeue cf cur (mem_next m) es" "timer_wf (fst (snd ?R))"
    using assms by (auto simp: GetOverTimeTimer_def GetEarliestTime_def RemoveFirstTimer_def
        realloc_def requeue_def hdr_def Let_def case_prod_beta timer_wf_def sorted_multimap_insert
        split: list.splits)
  then show thesis by (metis that prod.collapse)
qed

lemma realloc_simps [simp]:
  "mem_faults (realloc cf a m) = mem_faults m"
  "mem_wf m \<Longrightarrow> mem_wf (realloc cf a m)"
  "mem_wf m \<Longrightarrow> b \<in> live m \<Longrightarrow> read_obj b (realloc cf a m) = read_obj b m"
  "mem_wf m \<Longrightarrow> b \<in> live m \<Longrightarrow> hdr (realloc cf a m) b = hdr m b"
  "b \<in> live m \<Longrightarrow> b \<in> live (realloc cf a m)"
  by (auto simp: realloc_def hdr_def alloc_header_live)

definition put_back :: "timer_conf \<Rightarrow> int \<Rightarrow> memory \<Rightarrow> (int \<times> addr) list \<Rightarrow>
  (int \<times> STRUC_MSG_HEADER) multiset" where
  "put_back cf cur m es =
     (if m_ifTimeOutKick cf \<noteq> 1 then mset (map (\<lambda>e. (cur + m_iWaitTime cf, hdr m (snd e))) es)
      else {#})"

text \<open>One step, as the induction over the expired entries needs it.\<close>

lemma collect_step:
  assumes T: "timer_wf T" "timer_live T m" and wait: "0 < m_iWaitTime cf"
    and q: "m_timerQueuemap T = (t, a) # es" and "t \<le> cur"
    and q': "m_timerQueuemap T' = requeue cf cur (mem_next m) es"
  shows "timer_live T' (realloc cf a m)"
    and "expired cur T = (t, a) # expired cur T'"
    and "entries (realloc cf a m) (not_expired cur T') + put_back cf cur (realloc cf a m) (expired cur T') =
      entries m (not_expired cur T) + put_back cf cur m (expired cur T)"
    and "live_mset (realloc cf a m) + mset (timer_addrs T) =
      live_mset m + mset (timer_addrs T') + {#a#}"
proof -
  from T(2) q have a: "a \<in> live m" and es: "snd ` set es \<subseteq> live m" and dist: "distinct (map snd es)"
    and wf: "mem_wf m" and notin: "a \<notin> snd ` set es"
    by (auto simp: timer_live_def timer_addrs_def)
  from wf have new: "mem_next m \<notin> live m" by (rule mem_next_fresh)
  have hdrs: "hdr (realloc cf a m) (snd e) = hdr m (snd e)" if "e \<in> set es" for e
    using that es wf by auto
  show "timer_live T' (realloc cf a m)"
    using es dist wf new a by (auto simp: timer_live_def timer_addrs_def q' requeue_def realloc_def)
  have fil: "filter (\<lambda>e. fst e \<le> cur) (multimap_insert (cur + m_iWaitTime cf) b es) =
      filter (\<lambda>e. fst e \<le> cur) es" for b
    using wait by (simp add: filter_insert_later)
  then show ex: "expired cur T = (t, a) # expired cur T'"
    using q \<open>t \<le> cur\<close> by (simp add: expired_def q' requeue_def)
  have ex': "expired cur T' = filter (\<lambda>e. fst e \<le> cur) es"
    using fil by (simp add: expired_def q' requeue_def)
  have old: "entries (realloc cf a m) (filter P es) = entries m (filter P es)" for P
    using hdrs by (intro entries_cong) auto
  have old': "put_back cf cur (realloc cf a m) (filter P es) = put_back cf cur m (filter P es)" for P
    using hdrs by (auto simp: put_back_def intro!: image_mset_cong)
  have new_hdr: "hdr (realloc cf a m) (mem_next m) = hdr m a" if "m_ifTimeOutKick cf \<noteq> 1"
    using that by (simp add: realloc_def)
  have "entries (realloc cf a m) (not_expired cur T') =
      (if m_ifTimeOutKick cf \<noteq> 1 then {#(cur + m_iWaitTime cf, hdr m a)#} else {#})
      + entries m (not_expired cur T)"
    using wait new_hdr old [of "\<lambda>e. cur < fst e"] q \<open>t \<le> cur\<close>
    by (simp add: not_expired_def q' requeue_def entries_def)
  moreover have "put_back cf cur m (expired cur T) =
      (if m_ifTimeOutKick cf \<noteq> 1 then {#(cur + m_iWaitTime cf, hdr m a)#} else {#})
      + put_back cf cur (realloc cf a m) (expired cur T')"
    using fil by (simp add: ex ex' old') (simp add: put_back_def)
  ultimately show "entries (realloc cf a m) (not_expired cur T') +
        put_back cf cur (realloc cf a m) (expired cur T') =
      entries m (not_expired cur T) + put_back cf cur m (expired cur T)"
    by simp
  show "live_mset (realloc cf a m) + mset (timer_addrs T) =
      live_mset m + mset (timer_addrs T') + {#a#}"
    using wf by (simp add: timer_addrs_def q q' requeue_def realloc_def)
qed

lemma collect_expired_spec:
  assumes "timer_wf T" and "timer_live T m" and "0 < m_iWaitTime cf"
  shows "\<exists>T' m'. collect_expired cf cur acc (T, m) = Some (acc @ map snd (expired cur T), T', m')
    \<and> timer_wf T' \<and> timer_live T' m' \<and> mem_faults m' = mem_faults m \<and> expired cur T' = []
    \<and> entries m' (m_timerQueuemap T') =
        entries m (not_expired cur T) + put_back cf cur m (expired cur T)
    \<and> live_mset m' + mset (timer_addrs T) =
        live_mset m + mset (timer_addrs T') + mset (map snd (expired cur T))
    \<and> live m \<subseteq> live m' \<and> (\<forall>b \<in> live m. read_obj b m' = read_obj b m) \<and> mem_step {} m m'"
  using assms
proof (induction "length (expired cur T)" arbitrary: T m acc)
  case 0
  then have "expired cur T = []" by simp
  moreover from this have "not_expired cur T = m_timerQueuemap T"
    by (auto simp: expired_def not_expired_def filter_empty_conv filter_id_conv not_le)
  ultimately show ?case
    using "0.prems" by (subst collect_expired.simps) (simp add: GetOverTimeTimer_none put_back_def)
next
  case (Suc n)
  then obtain t a es where q: "m_timerQueuemap T = (t, a) # es" and "t \<le> cur"
    using expired_empty_iff [OF Suc.prems(1), of cur]
    by (cases "m_timerQueuemap T") (auto simp: expired_def split: if_splits)
  from Suc.prems q have a: "a \<in> live m" and wf: "mem_wf m"
    by (auto simp: timer_live_def timer_addrs_def)
  obtain T1 where get: "GetOverTimeTimer cf cur (T, m) = (Some a, T1, realloc cf a m)"
    and q1: "m_timerQueuemap T1 = requeue cf cur (mem_next m) es" and wf1: "timer_wf T1"
    using GetOverTimeTimer_some [OF Suc.prems(1) q \<open>t \<le> cur\<close> a] by blast
  note step = collect_step [OF Suc.prems(1-3) q \<open>t \<le> cur\<close> q1]
  from Suc.hyps(2) step(2) have "n = length (expired cur T1)" by simp
  from Suc.hyps(1) [OF this wf1 step(1) Suc.prems(3), of "acc @ [a]"]
  obtain T' m' where IH: "collect_expired cf cur (acc @ [a]) (T1, realloc cf a m) =
      Some ((acc @ [a]) @ map snd (expired cur T1), T', m')"
    "timer_wf T'" "timer_live T' m'" "mem_faults m' = mem_faults m" "expired cur T' = []"
    "entries m' (m_timerQueuemap T') =
        entries (realloc cf a m) (not_expired cur T1) + put_back cf cur (realloc cf a m) (expired cur T1)"
    "live_mset m' + mset (timer_addrs T1) =
        live_mset (realloc cf a m) + mset (timer_addrs T') + mset (map snd (expired cur T1))"
    "live (realloc cf a m) \<subseteq> live m'"
    "\<forall>b \<in> live (realloc cf a m). read_obj b m' = read_obj b (realloc cf a m)"
    "mem_step {} (realloc cf a m) m'"
    by auto
  have "mem_step {} m (realloc cf a m)" by (simp add: realloc_def)
  from mem_step_trans_same [OF this IH(10)] have "mem_step {} m m'" .
  moreover have "live_mset m' + mset (timer_addrs T) =
        live_mset m + mset (timer_addrs T') + mset (map snd (expired cur T))"
    using account_trans [OF IH(7) step(4)] by (simp add: step(2))
  moreover have "collect_expired cf cur acc (T, m) = Some (acc @ map snd (expired cur T), T', m')"
    by (subst collect_expired.simps) (simp add: get IH(1) step(2))
  ultimately show ?case
    using IH step(3) wf by (intro exI [of _ T'] exI [of _ m']) (auto simp: subset_iff)
qed

section \<open>The properties\<close>

text \<open>
  Taking a connection out of the timer queue removes exactly its entries: the others stay in
  order with the counter and the cached deadline right, exactly the headers of the removed
  entries are released, and nothing is released twice.
\<close>

theorem DeleteFromTimerQueue_removes:
  assumes "timer_wf T" and "timer_live T m"
    and "DeleteFromTimerQueue p (T, m) = (T', m')"
  shows "m_timerQueuemap T' = filter (\<lambda>e. pConn (hdr m (snd e)) \<noteq> p) (m_timerQueuemap T)
    \<and> timer_wf T' \<and> timer_live T' m' \<and> mem_faults m' = mem_faults m
    \<and> live m' = live m - {a \<in> set (timer_addrs T). pConn (hdr m a) = p}"
  using DeleteFromTimerQueue_eq(1) [OF assms(1,2), of p] DeleteFromTimerQueue_wf [OF assms(1,2), of p]
    DeleteFromTimerQueue_live [OF assms(1,2), of p] DeleteFromTimerQueue_mem [OF assms(1,2), of p] assms(3)
  by (auto simp: deleted_addrs_def)

text \<open>
  C11. With a positive waiting time the loop that collects the expired entries ends. It hands out
  the headers of exactly the entries whose deadline has passed, in deadline order. When users are
  kicked those entries are gone; otherwise each is back with a new deadline and a fresh header
  with the same contents. Nothing expired is left, and no header is lost or released.
\<close>

theorem collect_expired_total:
  assumes "timer_wf T" and "timer_live T m" and "0 < m_iWaitTime cf"
  shows "\<exists>T' m'. collect_expired cf cur [] (T, m) = Some (map snd (expired cur T), T', m')
    \<and> timer_wf T' \<and> timer_live T' m' \<and> mem_faults m' = mem_faults m \<and> expired cur T' = []
    \<and> entries m' (m_timerQueuemap T') =
        entries m (not_expired cur T) + put_back cf cur m (expired cur T)
    \<and> live_mset m' + mset (timer_addrs T) =
        live_mset m + mset (timer_addrs T') + mset (map snd (expired cur T))"
  using collect_expired_spec [OF assms, of cur "[]"] by (metis append_Nil)

definition demo_timer :: "timerq \<times> memory" where
  "demo_timer = AddToTimerQueue \<lparr>m_iWaitTime = 20, m_ifTimeOutKick = 0\<rparr> 3 1 100
     (\<lparr>m_timerQueuemap = [], m_cur_size = 0, m_timer_value = 0\<rparr>,
      \<lparr>mem_objs = Map.empty, mem_next = 0, mem_fill = (\<lambda>_ _. 0),
       mem_fill_hdr = (\<lambda>_. \<lparr>pConn = 0, iCurrsequence = 0\<rparr>), mem_faults = []\<rparr>)"

lemma demo_timer_ok: "timer_wf (fst demo_timer)" "timer_live (fst demo_timer) (snd demo_timer)"
  unfolding demo_timer_def
  by (rule AddToTimerQueue_wf AddToTimerQueue_live,
      simp add: timer_wf_def timer_live_def timer_addrs_def mem_wf_def live_def)+

lemma demo_timer_hdr: "hdr (snd demo_timer) 0 = \<lparr>pConn = 3, iCurrsequence = 1\<rparr>"
  "m_timerQueuemap (fst demo_timer) = [(120, 0)]"
proof -
  let ?m = "\<lparr>mem_objs = Map.empty, mem_next = 0, mem_fill = (\<lambda>_ _. 0),
       mem_fill_hdr = (\<lambda>_. \<lparr>pConn = 0, iCurrsequence = 0\<rparr>), mem_faults = []\<rparr>"
  show "hdr (snd demo_timer) 0 = \<lparr>pConn = 3, iCurrsequence = 1\<rparr>"
    using alloc_header_simps(6) [of "\<lparr>pConn = 3, iCurrsequence = 1\<rparr>" ?m]
    by (simp add: demo_timer_def AddToTimerQueue_map)
  show "m_timerQueuemap (fst demo_timer) = [(120, 0)]"
    by (simp add: demo_timer_def AddToTimerQueue_map)
qed

theorem DeleteFromTimerQueue_removes_witness:
  "\<exists>T' m'. DeleteFromTimerQueue 3 demo_timer = (T', m') \<and> m_timerQueuemap T' = [] \<and> timer_wf T'"
proof -
  obtain T' m' where eq: "DeleteFromTimerQueue 3 (fst demo_timer, snd demo_timer) = (T', m')"
    by (cases "DeleteFromTimerQueue 3 (fst demo_timer, snd demo_timer)")
  from DeleteFromTimerQueue_removes [OF demo_timer_ok eq] eq show ?thesis
    by (simp add: demo_timer_hdr)
qed

theorem collect_expired_total_witness:
  "\<exists>T' m'. collect_expired \<lparr>m_iWaitTime = 20, m_ifTimeOutKick = 0\<rparr> 130 [] (fst demo_timer, snd demo_timer) =
     Some ([0], T', m') \<and> timer_wf T' \<and> expired 130 T' = []"
proof -
  have "expired 130 (fst demo_timer) = [(120, 0)]" by (simp add: expired_def demo_timer_hdr)
  with collect_expired_total [OF demo_timer_ok, of "\<lparr>m_iWaitTime = 20, m_ifTimeOutKick = 0\<rparr>" 130]
  show ?thesis by auto
qed

end
