(* ===== verification/QcServer.thy ===== *)
theory QcServer
  imports QcConn QcTimer
begin

text \<open>
  The state of a worker process: the class \<open>CSocket\<close> (include/qc\_socket.h), the receive queue
  of the thread pool, the heap, and the part of the kernel the code talks to. The operations that
  several handlers share are here: the epoll bookkeeping, closing a socket, the flood test and
  queueing a packet for sending (net/qc\_socket.cc).

  The system calls whose outcome the program cannot know draw their answers from scripts in the
  kernel record. A script that has run out answers as a socket whose buffer is full
  (\<open>send\<close>) or with success (\<open>epoll_ctl\<close>), so a finite script stands for any finite run.
\<close>

section \<open>The kernel\<close>

text \<open>The error numbers the code distinguishes.\<close>

datatype errno = EAGAIN | EINTR | ECONNABORTED | EMFILE | ENFILE | ENOSYS | EBADF | E_other

datatype send_result = SendAccept nat | SendErr errno

record kernel =
  k_send :: "send_result list"
  k_sent :: "(int \<times> bytes) list"
  k_ctl :: "bool list"
  k_epoll :: "int \<rightharpoonup> u32 \<times> connptr"
  k_closed :: "int list"

text \<open>
  \<open>send\<close>: on a closed descriptor \<open>EBADF\<close>; otherwise the next answer of the script, a number of
  bytes the kernel takes (never more than it was offered) or an error.
\<close>

definition sys_send :: "int \<Rightarrow> bytes \<Rightarrow> kernel \<Rightarrow> (errno + nat) \<times> kernel" where
  "sys_send sock buff K =
     (if sock = -1 then (Inl EBADF, K\<lparr>k_send := tl (k_send K)\<rparr>)
      else (case k_send K of
              [] \<Rightarrow> (Inl EAGAIN, K)
            | SendErr e # rs \<Rightarrow> (Inl e, K\<lparr>k_send := rs\<rparr>)
            | SendAccept n # rs \<Rightarrow>
                (let k = min n (length buff)
                 in (Inr k, K\<lparr>k_send := rs, k_sent := k_sent K @ [(sock, take k buff)]\<rparr>))))"

text \<open>\<open>close\<close> also takes the descriptor out of the epoll set.\<close>

definition sys_close :: "int \<Rightarrow> kernel \<Rightarrow> kernel" where
  "sys_close sock K = K\<lparr>k_closed := k_closed K @ [sock], k_epoll := (k_epoll K)(sock := None)\<rparr>"

definition EPOLL_CTL_ADD :: u32 where [simp]: "EPOLL_CTL_ADD = 1"
definition EPOLL_CTL_DEL :: u32 where [simp]: "EPOLL_CTL_DEL = 2"
definition EPOLL_CTL_MOD :: u32 where [simp]: "EPOLL_CTL_MOD = 3"

definition EPOLLIN :: u32 where "EPOLLIN = 0x001"
definition EPOLLOUT :: u32 where "EPOLLOUT = 0x004"
definition EPOLLERR :: u32 where "EPOLLERR = 0x008"
definition EPOLLHUP :: u32 where "EPOLLHUP = 0x010"
definition EPOLLRDHUP :: u32 where "EPOLLRDHUP = 0x2000"

text \<open>
  \<open>epoll_ctl\<close>: adding a descriptor that is in the set, or changing one that is not, fails; the
  script says whether the kernel has the resources for the rest.
\<close>

definition sys_epoll_ctl :: "u32 \<Rightarrow> int \<Rightarrow> u32 \<Rightarrow> connptr \<Rightarrow> kernel \<Rightarrow> bool \<times> kernel" where
  "sys_epoll_ctl op sock evs p K =
     (let ok = (case k_ctl K of [] \<Rightarrow> True | b # _ \<Rightarrow> b);
          present = k_epoll K sock \<noteq> None;
          K1 = K\<lparr>k_ctl := tl (k_ctl K)\<rparr>
      in if ok \<and> (if op = EPOLL_CTL_ADD then \<not> present \<and> sock \<noteq> -1 else present)
         then (True, K1\<lparr>k_epoll := (k_epoll K)(sock \<mapsto> (evs, p))\<rparr>)
         else (False, K1))"

section \<open>The state of a worker\<close>

record sock_conf =
  m_worker_connections :: int
  m_RecyConnectionWaitTime :: int
  m_ifkickTimeCount :: int
  m_timerconf :: timer_conf
  m_floodAkEnable :: int
  m_floodTimeInterval :: u32
  m_floodKickCount :: int

record server =
  sconf :: sock_conf
  smem :: memory
  spool :: pool
  stimer :: timerq
  skern :: kernel
  m_MsgSendQueue :: "addr list"
  m_iSendMsgQueueCount :: int
  m_iDiscardSendPkgCount :: int
  m_semEventSendQueue :: nat
  m_MsgRecvQueue :: "addr list"
  m_iRecvMsgQueueCount :: int
  m_lastprintTime :: int
  use_accept4 :: bool

text \<open>The state the constructor of \<open>CSocket\<close> leaves, over a given heap and kernel.\<close>

definition empty_memory :: "(addr \<Rightarrow> nat \<Rightarrow> u8) \<Rightarrow> (addr \<Rightarrow> STRUC_MSG_HEADER) \<Rightarrow> memory" where
  "empty_memory fill fill_hdr = \<lparr>mem_objs = Map.empty, mem_next = 0, mem_fill = fill,
     mem_fill_hdr = fill_hdr, mem_faults = []\<rparr>"

definition CSocket_ctor :: "sock_conf \<Rightarrow> memory \<Rightarrow> kernel \<Rightarrow> server" where
  "CSocket_ctor cf m K = \<lparr>sconf = cf, smem = m, spool = empty_pool,
     stimer = \<lparr>m_timerQueuemap = [], m_cur_size = 0, m_timer_value = 0\<rparr>, skern = K,
     m_MsgSendQueue = [], m_iSendMsgQueueCount = 0, m_iDiscardSendPkgCount = 0,
     m_semEventSendQueue = 0, m_MsgRecvQueue = [], m_iRecvMsgQueueCount = 0,
     m_lastprintTime = 0, use_accept4 = True\<rparr>"

text \<open>A kernel with empty scripts, and the default configuration (\<open>ReadConf\<close> on an empty file).\<close>

definition quiet_kernel :: kernel where
  "quiet_kernel = \<lparr>k_send = [], k_sent = [], k_ctl = [], k_epoll = Map.empty, k_closed = []\<rparr>"

definition default_conf :: sock_conf where
  "default_conf = \<lparr>m_worker_connections = 1, m_RecyConnectionWaitTime = 60, m_ifkickTimeCount = 0,
     m_timerconf = \<lparr>m_iWaitTime = 5, m_ifTimeOutKick = 0\<rparr>, m_floodAkEnable = 0,
     m_floodTimeInterval = 100, m_floodKickCount = 10\<rparr>"

abbreviation cn :: "server \<Rightarrow> connptr \<Rightarrow> conn" where
  "cn s p \<equiv> conns (spool s) p"

definition upd_cn :: "connptr \<Rightarrow> (conn \<Rightarrow> conn) \<Rightarrow> server \<Rightarrow> server" where
  "upd_cn p f s = s\<lparr>spool := upd_conn p f (spool s)\<rparr>"

definition free_buf :: "addr option \<Rightarrow> server \<Rightarrow> server" where
  "free_buf a s = s\<lparr>smem := FreeMemory a (smem s)\<rparr>"

definition sem_post :: "server \<Rightarrow> server" where
  "sem_post s = s\<lparr>m_semEventSendQueue := m_semEventSendQueue s + 1\<rparr>"

text \<open>Moving a buffer pointer forward.\<close>

fun buf_advance :: "nat \<Rightarrow> bufptr \<Rightarrow> bufptr" where
  "buf_advance n (PkgPtr a off) = PkgPtr a (off + n)"
| "buf_advance n (HeadPtr off) = HeadPtr (off + n)"
| "buf_advance n NullPtr = NullPtr"

section \<open>Shared operations of CSocket\<close>

text \<open>The event mask after the three forms of \<open>bcaction\<close>: add, take out, replace.\<close>

definition new_events :: "u32 \<Rightarrow> u32 \<Rightarrow> int \<Rightarrow> u32" where
  "new_events old flag bcaction =
     (if bcaction = 0 then old OR flag
      else if bcaction = 1 then old AND NOT flag else flag)"

definition qc_epoll_oper_event ::
  "int \<Rightarrow> u32 \<Rightarrow> u32 \<Rightarrow> int \<Rightarrow> connptr \<Rightarrow> server \<Rightarrow> int \<times> server" where
  "qc_epoll_oper_event sock eventtype flag bcaction p s =
     (if eventtype \<noteq> EPOLL_CTL_ADD \<and> eventtype \<noteq> EPOLL_CTL_MOD then (1, s)
      else
        let evs = (if eventtype = EPOLL_CTL_ADD then flag
                   else new_events (events (cn s p)) flag bcaction);
            s1 = upd_cn p (\<lambda>c. c\<lparr>events := evs\<rparr>) s;
            (ok, K) = sys_epoll_ctl eventtype sock evs p (skern s)
        in (if ok then 1 else -1, s1\<lparr>skern := K\<rparr>))"

text \<open>The four parts of \<open>zdClosesocketProc\<close>: timer, descriptor, send mark, recycle queue.\<close>

definition zd_timer :: "connptr \<Rightarrow> server \<Rightarrow> server" where
  "zd_timer p s =
     (if m_ifkickTimeCount (sconf s) = 1
      then (let (T, m) = DeleteFromTimerQueue p (stimer s, smem s) in s\<lparr>stimer := T, smem := m\<rparr>)
      else s)"

definition zd_fd :: "connptr \<Rightarrow> server \<Rightarrow> server" where
  "zd_fd p s =
     (if fd (cn s p) \<noteq> -1
      then upd_cn p (\<lambda>c. c\<lparr>fd := -1\<rparr>) (s\<lparr>skern := sys_close (fd (cn s p)) (skern s)\<rparr>)
      else s)"

definition zd_throw :: "connptr \<Rightarrow> server \<Rightarrow> server" where
  "zd_throw p s =
     (if iThrowsendCount (cn s p) > 0
      then upd_cn p (\<lambda>c. c\<lparr>iThrowsendCount := iThrowsendCount c - 1\<rparr>) s
      else s)"

definition zdClosesocketProc :: "connptr \<Rightarrow> int \<Rightarrow> server \<Rightarrow> server" where
  "zdClosesocketProc p now s =
     (let s1 = zd_throw p (zd_fd p (zd_timer p s))
      in s1\<lparr>spool := inRecyConnectQueue p now (spool s1)\<rparr>)"

definition msgSend :: "addr \<Rightarrow> int \<Rightarrow> server \<Rightarrow> server" where
  "msgSend psbuf now s =
     (if m_iSendMsgQueueCount s > 50000
      then free_buf (Some psbuf) (s\<lparr>m_iDiscardSendPkgCount := m_iDiscardSendPkgCount s + 1\<rparr>)
      else
        let p = pConn (hdr (smem s) psbuf)
        in if iSendCount (cn s p) > 400
           then zdClosesocketProc p now
                  (free_buf (Some psbuf) (s\<lparr>m_iDiscardSendPkgCount := m_iDiscardSendPkgCount s + 1\<rparr>))
           else sem_post
                  ((upd_cn p (\<lambda>c. c\<lparr>iSendCount := iSendCount c + 1\<rparr>) s)
                     \<lparr>m_MsgSendQueue := m_MsgSendQueue s @ [psbuf],
                      m_iSendMsgQueueCount := m_iSendMsgQueueCount s + 1\<rparr>))"

text \<open>\<open>TestFlood\<close> on the clock in milliseconds; the difference is computed modulo \<open>2 ^ 64\<close>.\<close>

definition TestFlood :: "sock_conf \<Rightarrow> u64 \<Rightarrow> conn \<Rightarrow> bool \<times> conn" where
  "TestFlood cf iCurrTime c =
     (let c1 = (if iCurrTime - FloodkickLastTime c < ucast (m_floodTimeInterval cf)
                then c\<lparr>FloodAttackCount := FloodAttackCount c + 1, FloodkickLastTime := iCurrTime\<rparr>
                else c\<lparr>FloodAttackCount := 0, FloodkickLastTime := iCurrTime\<rparr>)
      in (m_floodKickCount cf \<le> FloodAttackCount c1, c1))"

text \<open>
  \<open>printTDInfo\<close>: at most one report in ten seconds. The figures it prints, and whether it warns
  about the receive queue.
\<close>

definition printTDInfo :: "int \<Rightarrow> server \<Rightarrow> (int list \<times> bool) option \<times> server" where
  "printTDInfo currtime s =
     (if currtime - m_lastprintTime s > 10
      then (Some ([m_onlineUserCount (spool s), m_worker_connections (sconf s),
                   int (length (m_freeconnectionList (spool s))),
                   int (length (m_connectionList (spool s))),
                   int (length (m_recyconnectionList (spool s))),
                   int (length (m_timerQueuemap (stimer s))),
                   m_iRecvMsgQueueCount s, m_iSendMsgQueueCount s, m_iDiscardSendPkgCount s],
                  m_iRecvMsgQueueCount s > 100000),
            s\<lparr>m_lastprintTime := currtime\<rparr>)
      else (None, s))"

text \<open>
  \<open>clearMsgSendQueue\<close>; \<open>Shutdown_subproc\<close>, whose post lets the sending thread see the end of the
  program. At the joins the three threads are not inside a step.
\<close>

fun clear_queue :: "addr list \<Rightarrow> memory \<Rightarrow> memory" where
  "clear_queue [] m = m"
| "clear_queue (a # as) m = clear_queue as (FreeMemory (Some a) m)"

definition clearMsgSendQueue :: "server \<Rightarrow> server" where
  "clearMsgSendQueue s = s\<lparr>smem := clear_queue (m_MsgSendQueue s) (smem s), m_MsgSendQueue := []\<rparr>"

definition Shutdown_subproc :: "server \<Rightarrow> server" where
  "Shutdown_subproc s =
     (let s1 = clearMsgSendQueue (sem_post s);
          s2 = s1\<lparr>spool := clearconnection (spool s1)\<rparr>;
          (T, m) = clearAllFromTimerQueue (stimer s2, smem s2)
      in s2\<lparr>stimer := T, smem := m\<rparr>)"

end
