(* ===== verification/QcAccount.thy ===== *)
theory QcAccount
  imports QcServer
begin

text \<open>
  Who owns which buffer. A live buffer of the heap belongs to exactly one place: the send queue,
  the receive queue, the timer queue, or the receive or send pointer of a connection object; or it
  is in the hands of the running operation (\<open>E\<close>). As an equation between multisets this says at
  once that nothing leaks, nothing is freed twice and nothing is used after it was freed. The
  lemmas give the effect of every shared operation on the account.
\<close>

section \<open>The account\<close>

definition conn_bufs :: "conn \<Rightarrow> addr list" where
  "conn_bufs c = opt_list (precvMemPointer c) @ opt_list (psendMemPointer c)"

definition pool_bufs :: "pool \<Rightarrow> addr multiset" where
  "pool_bufs P = mset (concat (map (\<lambda>p. conn_bufs (conns P p)) (m_connectionList P)))"

definition owned :: "server \<Rightarrow> addr multiset" where
  "owned s = mset (m_MsgSendQueue s) + mset (m_MsgRecvQueue s) + mset (timer_addrs (stimer s))
     + pool_bufs (spool s)"

definition acct :: "addr multiset \<Rightarrow> server \<Rightarrow> bool" where
  "acct E s \<longleftrightarrow> mem_wf (smem s) \<and> mem_faults (smem s) = [] \<and> live_mset (smem s) = owned s + E
     \<and> pool_inv (spool s) \<and> timer_wf (stimer s)"

text \<open>The connection objects that may be closed: in use, or already waiting to be recycled.\<close>

definition closable :: "server \<Rightarrow> connptr \<Rightarrow> bool" where
  "closable s p \<longleftrightarrow> p \<in> in_use (spool s) \<or> p \<in> set (m_recyconnectionList (spool s))"

text \<open>The packet in a message buffer, and the part of it that is sent.\<close>

definition queued_pkg :: "memory \<Rightarrow> addr \<Rightarrow> bytes" where
  "queued_pkg m a = mb_pkg (read_obj a m)"

definition msg_bytes :: "memory \<Rightarrow> addr \<Rightarrow> bytes" where
  "msg_bytes m a = take (e_pkgLen (queued_pkg m a)) (queued_pkg m a)"

definition pkg_ok :: "memory \<Rightarrow> addr \<Rightarrow> bool" where
  "pkg_ok m a \<longleftrightarrow> m_iLenPkgHeader \<le> e_pkgLen (queued_pkg m a)
     \<and> e_pkgLen (queued_pkg m a) \<le> length (queued_pkg m a)"

text \<open>The connection a message is for.\<close>

definition conn_of :: "server \<Rightarrow> addr \<Rightarrow> connptr" where
  "conn_of s a = pConn (hdr (smem s) a)"

text \<open>The connection that a message is for has not been closed since.\<close>

definition current :: "server \<Rightarrow> addr \<Rightarrow> bool" where
  "current s a \<longleftrightarrow> cseq (cn s (conn_of s a)) = iCurrsequence (hdr (smem s) a)"

section \<open>Frames\<close>

lemma upd_cn_simps [simp]:
  "sconf (upd_cn p f s) = sconf s" "smem (upd_cn p f s) = smem s" "stimer (upd_cn p f s) = stimer s"
  "skern (upd_cn p f s) = skern s" "m_MsgSendQueue (upd_cn p f s) = m_MsgSendQueue s"
  "m_iSendMsgQueueCount (upd_cn p f s) = m_iSendMsgQueueCount s"
  "m_iDiscardSendPkgCount (upd_cn p f s) = m_iDiscardSendPkgCount s"
  "m_semEventSendQueue (upd_cn p f s) = m_semEventSendQueue s"
  "m_MsgRecvQueue (upd_cn p f s) = m_MsgRecvQueue s"
  "m_iRecvMsgQueueCount (upd_cn p f s) = m_iRecvMsgQueueCount s"
  "use_accept4 (upd_cn p f s) = use_accept4 s"
  "spool (upd_cn p f s) = upd_conn p f (spool s)"
  by (simp_all add: upd_cn_def)

lemma free_buf_simps [simp]:
  "sconf (free_buf a s) = sconf s" "smem (free_buf a s) = FreeMemory a (smem s)"
  "stimer (free_buf a s) = stimer s" "skern (free_buf a s) = skern s"
  "m_MsgSendQueue (free_buf a s) = m_MsgSendQueue s"
  "m_iSendMsgQueueCount (free_buf a s) = m_iSendMsgQueueCount s"
  "m_iDiscardSendPkgCount (free_buf a s) = m_iDiscardSendPkgCount s"
  "m_semEventSendQueue (free_buf a s) = m_semEventSendQueue s"
  "m_MsgRecvQueue (free_buf a s) = m_MsgRecvQueue s"
  "m_iRecvMsgQueueCount (free_buf a s) = m_iRecvMsgQueueCount s"
  "use_accept4 (free_buf a s) = use_accept4 s" "spool (free_buf a s) = spool s"
  by (simp_all add: free_buf_def)

lemma sem_post_simps [simp]:
  "sconf (sem_post s) = sconf s" "smem (sem_post s) = smem s" "stimer (sem_post s) = stimer s"
  "skern (sem_post s) = skern s" "m_MsgSendQueue (sem_post s) = m_MsgSendQueue s"
  "m_iSendMsgQueueCount (sem_post s) = m_iSendMsgQueueCount s"
  "m_semEventSendQueue (sem_post s) = m_semEventSendQueue s + 1"
  "m_MsgRecvQueue (sem_post s) = m_MsgRecvQueue s"
  "m_iRecvMsgQueueCount (sem_post s) = m_iRecvMsgQueueCount s" "spool (sem_post s) = spool s"
  by (simp_all add: sem_post_def)

lemma upd_cn_upd_cn [simp]: "upd_cn p f (upd_cn p g s) = upd_cn p (f \<circ> g) s"
  by (simp add: upd_cn_def upd_conn_def)

lemma closable_upd_cn [simp]: "closable (upd_cn p f s) q = closable s q"
  by (simp add: closable_def)

lemma closable_free_buf [simp]: "closable (free_buf a s) q = closable s q"
  by (simp add: closable_def)

lemma closable_listed: "pool_inv (spool s) \<Longrightarrow> closable s p \<Longrightarrow> p \<in> set (m_connectionList (spool s))"
  by (auto simp: closable_def in_use_def pool_inv_defs)

lemma pool_bufs_upd:
  assumes "pool_inv P" and "p \<in> set (m_connectionList P)"
  shows "pool_bufs (upd_conn p f P) + mset (conn_bufs (conns P p)) =
    pool_bufs P + mset (conn_bufs (f (conns P p)))"
  using mset_concat_map_update [of "m_connectionList P" p
      "\<lambda>q. conn_bufs (conns (upd_conn p f P) q)" "\<lambda>q. conn_bufs (conns P q)"] assms
  by (simp add: pool_bufs_def pool_inv_defs)

lemma pool_bufs_same:
  "conn_bufs (f (conns P p)) = conn_bufs (conns P p) \<Longrightarrow> pool_bufs (upd_conn p f P) = pool_bufs P"
  unfolding pool_bufs_def by (simp only: upd_conn_simps) (rule mset_concat_map_same, simp)

lemma pool_bufs_in:
  "p \<in> set (m_connectionList P) \<Longrightarrow> a \<in> set (conn_bufs (conns P p)) \<Longrightarrow> a \<in># pool_bufs P"
  by (auto simp: pool_bufs_def)

lemma pool_bufs_conns_cong:
  "m_connectionList P' = m_connectionList P \<Longrightarrow>
   (\<And>p. conn_bufs (conns P' p) = conn_bufs (conns P p)) \<Longrightarrow> pool_bufs P' = pool_bufs P"
  by (simp add: pool_bufs_def)

lemma conn_bufs_cong:
  "precvMemPointer c = precvMemPointer d \<Longrightarrow> psendMemPointer c = psendMemPointer d \<Longrightarrow>
   conn_bufs c = conn_bufs d"
  by (simp add: conn_bufs_def)

text \<open>Changes that do not touch the account.\<close>

lemma acct_frames [simp]:
  "acct E (s\<lparr>skern := K\<rparr>) = acct E s"
  "acct E (s\<lparr>m_iSendMsgQueueCount := i\<rparr>) = acct E s"
  "acct E (s\<lparr>m_iDiscardSendPkgCount := i\<rparr>) = acct E s"
  "acct E (s\<lparr>m_semEventSendQueue := n\<rparr>) = acct E s"
  "acct E (s\<lparr>m_iRecvMsgQueueCount := i\<rparr>) = acct E s"
  "acct E (s\<lparr>m_lastprintTime := i\<rparr>) = acct E s"
  "acct E (s\<lparr>use_accept4 := b\<rparr>) = acct E s"
  "acct E (sem_post s) = acct E s"
  by (simp_all add: acct_def owned_def)

lemma acct_upd_cn:
  "conn_bufs (f (cn s p)) = conn_bufs (cn s p) \<Longrightarrow> acct E (upd_cn p f s) = acct E s"
  by (simp add: acct_def owned_def pool_bufs_same)

section \<open>Consequences\<close>

lemma mset_subset_live:
  assumes "mem_wf m" and "mset xs \<subseteq># live_mset m"
  shows "distinct xs" and "set xs \<subseteq> live m"
proof -
  show "set xs \<subseteq> live m"
    using assms by (metis set_live_mset set_mset_mono set_mset_mset)
  have "count (mset xs) a \<le> 1" for a
  proof -
    have "count (mset xs) a \<le> count (live_mset m) a" using assms(2) by (rule mset_subset_eq_count)
    also have "\<dots> \<le> 1" using assms(1) by (simp add: live_mset_def mem_wf_def count_mset_set')
    finally show ?thesis .
  qed
  then show "distinct xs"
    by (metis count_mset_0_iff distinct_count_atmost_1 le_antisym less_one not_le One_nat_def)
qed

lemma acct_live:
  "acct E s \<Longrightarrow> a \<in># owned s + E \<Longrightarrow> a \<in> live (smem s)"
  by (metis acct_def set_live_mset)

lemma acct_timer_live: "acct E s \<Longrightarrow> timer_live (stimer s) (smem s)"
  using mset_subset_live [of "smem s" "timer_addrs (stimer s)"]
  by (auto simp: acct_def timer_live_def owned_def)

lemma acct_conn_live:
  "acct E s \<Longrightarrow> p \<in> set (m_connectionList (spool s)) \<Longrightarrow> a \<in> set (conn_bufs (cn s p)) \<Longrightarrow>
   a \<in> live (smem s)"
  by (rule acct_live) (auto simp: owned_def pool_bufs_in)

text \<open>Between two operations every live buffer is in exactly one place.\<close>

lemma acct_places:
  assumes "acct {#} t"
  shows "distinct (m_MsgSendQueue t @ m_MsgRecvQueue t @ timer_addrs (stimer t)
         @ concat (map (\<lambda>p. conn_bufs (cn t p)) (m_connectionList (spool t))))"
    and "live (smem t) = set (m_MsgSendQueue t) \<union> set (m_MsgRecvQueue t) \<union> set (timer_addrs (stimer t))
         \<union> (\<Union>p \<in> set (m_connectionList (spool t)). set (conn_bufs (cn t p)))"
proof -
  let ?xs = "m_MsgSendQueue t @ m_MsgRecvQueue t @ timer_addrs (stimer t)
         @ concat (map (\<lambda>p. conn_bufs (cn t p)) (m_connectionList (spool t)))"
  have m: "mset ?xs = live_mset (smem t)" "mem_wf (smem t)"
    using assms by (simp_all add: acct_def owned_def pool_bufs_def)
  show "distinct ?xs" by (rule mset_subset_live(1) [OF m(2)]) (simp only: m(1) subseteq_mset_def order_refl simp_thms)
  have "set_mset (live_mset (smem t)) = live (smem t)" using m(2) by (simp add: live_mset_def mem_wf_def)
  then have "live (smem t) = set ?xs" using arg_cong [OF m(1), of set_mset] by (simp only: set_mset_mset)
  then show "live (smem t) = set (m_MsgSendQueue t) \<union> set (m_MsgRecvQueue t) \<union> set (timer_addrs (stimer t))
         \<union> (\<Union>p \<in> set (m_connectionList (spool t)). set (conn_bufs (cn t p)))" by (simp add: Un_assoc)
qed

text \<open>Two different places never hold the same buffer.\<close>

lemma acct_disjoint:
  assumes "acct E s" and "M + N \<subseteq># owned s + E" and "a \<in># M" and "b \<in># N"
  shows "a \<noteq> b"
proof
  assume "a = b"
  with assms(3,4) have "1 \<le> count M a" and "1 \<le> count N a" by simp_all
  then have "2 \<le> count M a + count N a" by linarith
  then have "2 \<le> count (M + N) a" by simp
  also have "\<dots> \<le> count (live_mset (smem s)) a"
    using assms(1,2) by (metis acct_def mset_subset_eq_count)
  also have "\<dots> \<le> 1"
    by (simp add: live_mset_def count_mset_set')
  finally show False by simp
qed

lemma pool_bufs_sub:
  assumes "p \<in> set (m_connectionList P)"
  shows "mset (conn_bufs (conns P p)) \<subseteq># pool_bufs P"
proof -
  from assms obtain xs ys where "m_connectionList P = xs @ p # ys"
    by (auto simp: in_set_conv_decomp)
  then show ?thesis by (simp add: pool_bufs_def)
qed

lemma acct_recvq_conn:
  assumes "acct E s" and "p \<in> set (m_connectionList (spool s))"
    and "a \<in> set (m_MsgRecvQueue s)" and "b \<in> set (conn_bufs (cn s p))"
  shows "a \<noteq> b"
  by (rule acct_disjoint [OF assms(1), of "mset (m_MsgRecvQueue s)" "mset (conn_bufs (cn s p))"])
    (use assms(2-4) pool_bufs_sub [OF assms(2)] in \<open>auto simp: owned_def subset_mset.add_increasing
       subset_mset.add_increasing2 intro!: subset_mset.add_mono\<close>)

lemma acct_sendq_conn:
  assumes "acct E s" and "p \<in> set (m_connectionList (spool s))"
    and "a \<in> set (m_MsgSendQueue s)" and "b \<in> set (conn_bufs (cn s p))"
  shows "a \<noteq> b"
  by (rule acct_disjoint [OF assms(1), of "mset (m_MsgSendQueue s)" "mset (conn_bufs (cn s p))"])
    (use assms(2-4) pool_bufs_sub [OF assms(2)] in \<open>auto simp: owned_def subset_mset.add_increasing
       subset_mset.add_increasing2 intro!: subset_mset.add_mono\<close>)

section \<open>Moving buffers\<close>

text \<open>Releasing a buffer that is in hand.\<close>

lemma acct_free_buf:
  assumes "acct (E + mset (opt_list a)) s"
  shows "acct E (free_buf a s)"
proof -
  have "set_option a \<subseteq> live (smem s)"
    using acct_live [OF assms] by (cases a) auto
  with assms show ?thesis
    using live_mset_FreeMemory [of "smem s" a] cmem.free_option_flt [of a "smem s"]
    by (auto simp: acct_def owned_def mem_wf_FreeMemory ac_simps)
qed

text \<open>Taking the receive or the send buffer from a connection, and putting one there.\<close>

lemma acct_move:
  assumes "acct E s" and "p \<in> set (m_connectionList (spool s))"
    and "E' + mset (conn_bufs (f (cn s p))) = E + mset (conn_bufs (cn s p))"
  shows "acct E' (upd_cn p f s)"
proof -
  have "pool_bufs (upd_conn p f (spool s)) + mset (conn_bufs (cn s p)) =
      pool_bufs (spool s) + mset (conn_bufs (f (cn s p)))"
    using assms(1,2) by (intro pool_bufs_upd) (simp_all add: acct_def)
  then have "pool_bufs (upd_conn p f (spool s)) + E' = pool_bufs (spool s) + E"
    by (rule account_swap) (rule assms(3))
  with assms(1) show ?thesis by (simp add: acct_def owned_def add.assoc)
qed

lemma acct_alloc:
  assumes "acct E s" and "AllocMemory n z (smem s) = (a, m)"
  shows "acct (add_mset a E) (s\<lparr>smem := m\<rparr>)"
  using assms(1) fst_AllocMemory [of n z "smem s"] AllocMemory_faults [of n z "smem s"]
    live_mset_AllocMemory [of "smem s" n z] mem_wf_AllocMemory [of "smem s" n z]
  by (simp add: acct_def owned_def assms(2))

lemma acct_write:
  "a \<in> live (smem s) \<Longrightarrow> acct E (s\<lparr>smem := write_obj a b (smem s)\<rparr>) = acct E s"
  by (simp add: acct_def owned_def mem_wf_def)

text \<open>The queues.\<close>

lemma acct_enqueue_send:
  "acct (add_mset a E) s \<Longrightarrow>
   acct E (s\<lparr>m_MsgSendQueue := m_MsgSendQueue s @ [a], m_iSendMsgQueueCount := n\<rparr>)"
  by (simp add: acct_def owned_def)

lemma acct_enqueue_recv:
  "acct (add_mset a E) s \<Longrightarrow>
   acct E (s\<lparr>m_MsgRecvQueue := m_MsgRecvQueue s @ [a], m_iRecvMsgQueueCount := n\<rparr>)"
  by (simp add: acct_def owned_def)

lemma acct_dequeue_send:
  "acct E s \<Longrightarrow> m_MsgSendQueue s = xs @ a # ys \<Longrightarrow>
   acct (add_mset a E) (s\<lparr>m_MsgSendQueue := xs @ ys, m_iSendMsgQueueCount := n\<rparr>)"
  by (simp add: acct_def owned_def)

lemma acct_dequeue_recv:
  "acct E s \<Longrightarrow> m_MsgRecvQueue s = a # ys \<Longrightarrow>
   acct (add_mset a E) (s\<lparr>m_MsgRecvQueue := ys, m_iRecvMsgQueueCount := n\<rparr>)"
  by (simp add: acct_def owned_def)

section \<open>Shared operations\<close>

lemma sys_epoll_ctl_simps [simp]:
  "k_sent (snd (sys_epoll_ctl op sock evs p K)) = k_sent K"
  "k_send (snd (sys_epoll_ctl op sock evs p K)) = k_send K"
  "k_closed (snd (sys_epoll_ctl op sock evs p K)) = k_closed K"
  by (simp_all add: sys_epoll_ctl_def Let_def)

lemma oper_event_eq:
  obtains evs K where "snd (qc_epoll_oper_event sock op flag act p s) =
    (upd_cn p (\<lambda>c. c\<lparr>events := evs\<rparr>) s)\<lparr>skern := K\<rparr>" and "k_sent K = k_sent (skern s)"
    and "k_send K = k_send (skern s)" and "k_closed K = k_closed (skern s)"
proof (cases "op = EPOLL_CTL_ADD \<or> op = EPOLL_CTL_MOD")
  case True
  then show thesis
    by (intro that [where evs = "if op = EPOLL_CTL_ADD then flag else new_events (events (cn s p)) flag act"
          and K = "snd (sys_epoll_ctl op sock (if op = EPOLL_CTL_ADD then flag
             else new_events (events (cn s p)) flag act) p (skern s))"])
      (auto simp: qc_epoll_oper_event_def Let_def case_prod_beta)
next
  case False
  then have "snd (qc_epoll_oper_event sock op flag act p s) =
      (upd_cn p (\<lambda>c. c\<lparr>events := events (cn s p)\<rparr>) s)\<lparr>skern := skern s\<rparr>"
    by (simp add: qc_epoll_oper_event_def upd_cn_def upd_conn_def)
  then show thesis by (rule that) simp_all
qed

lemma acct_oper_event [simp]: "acct E (snd (qc_epoll_oper_event sock op flag act p s)) = acct E s"
  by (rule oper_event_eq [of sock op flag act p s]) (simp add: acct_upd_cn conn_bufs_def)

lemma acct_zd_timer: "acct E s \<Longrightarrow> acct E (zd_timer p s)"
proof (cases "m_ifkickTimeCount (sconf s) = 1")
  case True
  assume A: "acct E s"
  then have T: "timer_wf (stimer s)" "timer_live (stimer s) (smem s)"
    by (simp_all add: acct_def acct_timer_live)
  let ?Tm = "DeleteFromTimerQueue p (stimer s, smem s)"
  have "live_mset (smem s) + mset (timer_addrs (fst ?Tm)) =
      live_mset (snd ?Tm) + mset (timer_addrs (stimer s))"
    by (rule DeleteFromTimerQueue_ownership [OF T])
  with A have "live_mset (snd ?Tm) = owned (s\<lparr>stimer := fst ?Tm, smem := snd ?Tm\<rparr>) + E"
    by (auto simp: acct_def owned_def ac_simps)
  with A True show ?thesis
    using DeleteFromTimerQueue_mem [OF T] DeleteFromTimerQueue_wf [OF T]
    by (simp add: zd_timer_def Let_def case_prod_beta acct_def)
qed (simp add: zd_timer_def)

lemma zd_fd_simps [simp]:
  "acct E (zd_fd p s) = acct E s" "closable (zd_fd p s) q = closable s q"
  "in_use (spool (zd_fd p s)) = in_use (spool s)"
  "m_recyconnectionList (spool (zd_fd p s)) = m_recyconnectionList (spool s)"
  "cn (zd_fd p s) q = (if q = p then (cn s p)\<lparr>fd := -1\<rparr> else cn s q)"
  "smem (zd_fd p s) = smem s" "stimer (zd_fd p s) = stimer s"
  "m_MsgSendQueue (zd_fd p s) = m_MsgSendQueue s" "m_MsgRecvQueue (zd_fd p s) = m_MsgRecvQueue s"
  "sconf (zd_fd p s) = sconf s"
  by (simp_all add: zd_fd_def acct_upd_cn conn_bufs_def closable_def)

lemma zd_throw_simps [simp]:
  "acct E (zd_throw p s) = acct E s" "closable (zd_throw p s) q = closable s q"
  "in_use (spool (zd_throw p s)) = in_use (spool s)"
  "m_recyconnectionList (spool (zd_throw p s)) = m_recyconnectionList (spool s)"
  "cn (zd_throw p s) q = (if q = p then (cn s p)
      \<lparr>iThrowsendCount := iThrowsendCount (cn s p) - (if iThrowsendCount (cn s p) > 0 then 1 else 0)\<rparr>
    else cn s q)"
  "smem (zd_throw p s) = smem s" "stimer (zd_throw p s) = stimer s"
  "m_MsgSendQueue (zd_throw p s) = m_MsgSendQueue s"
  "m_MsgRecvQueue (zd_throw p s) = m_MsgRecvQueue s" "sconf (zd_throw p s) = sconf s"
  by (simp_all add: zd_throw_def acct_upd_cn conn_bufs_def)

lemma zd_timer_simps [simp]:
  "spool (zd_timer p s) = spool s" "skern (zd_timer p s) = skern s"
  "m_MsgSendQueue (zd_timer p s) = m_MsgSendQueue s"
  "m_MsgRecvQueue (zd_timer p s) = m_MsgRecvQueue s" "sconf (zd_timer p s) = sconf s"
  "closable (zd_timer p s) q = closable s q"
  by (simp_all add: zd_timer_def closable_def case_prod_beta)

lemma inRecy_conns:
  "conns (inRecyConnectQueue p now P) q =
     (if q = p \<and> p \<notin> set (m_recyconnectionList P)
      then (conns P p)\<lparr>inRecyTime := now, cseq := cseq (conns P p) + 1\<rparr> else conns P q)"
  by (simp add: inRecyConnectQueue_def)

lemma inRecy_lists [simp]:
  "m_connectionList (inRecyConnectQueue p now P) = m_connectionList P"
  "m_freeconnectionList (inRecyConnectQueue p now P) = m_freeconnectionList P"
  "set (m_recyconnectionList (inRecyConnectQueue p now P)) = insert p (set (m_recyconnectionList P))"
  by (auto simp: inRecyConnectQueue_def)

lemma acct_inRecy:
  assumes "acct E s" and "closable s p"
  shows "acct E (s\<lparr>spool := inRecyConnectQueue p now (spool s)\<rparr>)"
  using assms pool_inv_recy [of "spool s" p now]
    pool_bufs_conns_cong [of "inRecyConnectQueue p now (spool s)" "spool s"]
  by (auto simp: acct_def owned_def closable_def inRecy_conns conn_bufs_def)

lemma acct_zdClose [qc_inv]:
  "acct E s \<Longrightarrow> closable s p \<Longrightarrow> acct E (zdClosesocketProc p now s)"
  by (simp add: zdClosesocketProc_def Let_def acct_inRecy acct_zd_timer)

lemma zdClose_simps [simp]:
  "m_MsgSendQueue (zdClosesocketProc p now s) = m_MsgSendQueue s"
  "m_MsgRecvQueue (zdClosesocketProc p now s) = m_MsgRecvQueue s"
  "sconf (zdClosesocketProc p now s) = sconf s"
  "m_connectionList (spool (zdClosesocketProc p now s)) = m_connectionList (spool s)"
  "m_freeconnectionList (spool (zdClosesocketProc p now s)) = m_freeconnectionList (spool s)"
  "in_use (spool (zdClosesocketProc p now s)) = in_use (spool s) - {p}"
  "q \<noteq> p \<Longrightarrow> cn (zdClosesocketProc p now s) q = cn s q"
  "closable (zdClosesocketProc p now s) q \<longleftrightarrow> q = p \<or> closable s q"
  by (auto simp: zdClosesocketProc_def Let_def in_use_recy inRecy_conns closable_def zd_fd_def zd_throw_def)

lemma mem_step_zdClose [simp]: "mem_step A (smem s) (smem (zdClosesocketProc p now s))"
  by (simp add: zdClosesocketProc_def Let_def zd_timer_def case_prod_beta)

lemma zdClose_self:
  "cn (zdClosesocketProc p now s) p = (cn s p)
     \<lparr>fd := -1,
      iThrowsendCount := iThrowsendCount (cn s p) - (if iThrowsendCount (cn s p) > 0 then 1 else 0),
      inRecyTime := (if p \<in> set (m_recyconnectionList (spool s)) then inRecyTime (cn s p) else now),
      cseq := cseq (cn s p) + (if p \<in> set (m_recyconnectionList (spool s)) then 0 else 1)\<rparr>"
  by (simp add: zdClosesocketProc_def Let_def inRecy_conns)

lemma acct_msgSend [qc_inv]:
  assumes "acct (add_mset a E) s" and "closable s (pConn (hdr (smem s) a))"
  shows "acct E (msgSend a now s)"
proof -
  have free: "acct E (free_buf (Some a) t)" if "acct (add_mset a E) t" for t
    using that by (intro acct_free_buf) simp
  have "acct E ((upd_cn p (\<lambda>c. c\<lparr>iSendCount := iSendCount c + 1\<rparr>) s)
      \<lparr>m_MsgSendQueue := m_MsgSendQueue s @ [a], m_iSendMsgQueueCount := n\<rparr>)" for p n
    using assms(1) acct_enqueue_send
      [of a E "upd_cn p (\<lambda>c. c\<lparr>iSendCount := iSendCount c + 1\<rparr>) s"]
    by (simp add: acct_upd_cn conn_bufs_def)
  then show ?thesis
    using assms by (simp add: msgSend_def Let_def free acct_zdClose closable_def)
qed

text \<open>Adding a timer for a connection (\<open>AddToTimerQueue\<close> on the state).\<close>

definition add_timer :: "connptr \<Rightarrow> int \<Rightarrow> server \<Rightarrow> server" where
  "add_timer p now s =
     (let (T, m) = AddToTimerQueue (m_timerconf (sconf s)) p (cseq (cn s p)) now (stimer s, smem s)
      in s\<lparr>stimer := T, smem := m\<rparr>)"

lemma add_timer_eq:
  obtains T m where "add_timer p now s = s\<lparr>stimer := T, smem := m\<rparr>"
    and "m = snd (alloc_header \<lparr>pConn = p, iCurrsequence = cseq (cn s p)\<rparr> (smem s))"
    and "m_timerQueuemap T =
      multimap_insert (now + m_iWaitTime (m_timerconf (sconf s))) (mem_next (smem s)) (m_timerQueuemap (stimer s))"
    and "timer_wf (stimer s) \<longrightarrow> timer_wf T"
  by (rule that [of "snd (AddToTimerQueue (m_timerconf (sconf s)) p (cseq (cn s p)) now (stimer s, smem s))"
        "fst (AddToTimerQueue (m_timerconf (sconf s)) p (cseq (cn s p)) now (stimer s, smem s))"])
    (simp_all add: add_timer_def case_prod_beta AddToTimerQueue_map AddToTimerQueue_wf)

lemma acct_add_timer: "acct E s \<Longrightarrow> acct E (add_timer p now s)"
proof -
  assume A: "acct E s"
  obtain T m where e: "add_timer p now s = s\<lparr>stimer := T, smem := m\<rparr>"
    "m = snd (alloc_header \<lparr>pConn = p, iCurrsequence = cseq (cn s p)\<rparr> (smem s))"
    "m_timerQueuemap T =
      multimap_insert (now + m_iWaitTime (m_timerconf (sconf s))) (mem_next (smem s)) (m_timerQueuemap (stimer s))"
    "timer_wf (stimer s) \<longrightarrow> timer_wf T"
    by (rule add_timer_eq [where p = p and now = now and s = s])
  have wf: "mem_wf (smem s)" using A by (simp add: acct_def)
  have "mset (timer_addrs T) = add_mset (mem_next (smem s)) (mset (timer_addrs (stimer s)))"
    by (simp add: timer_addrs_def e(3))
  then show ?thesis
    using A e(4) alloc_header_simps(4,5) [OF wf] by (simp add: e(1,2) acct_def owned_def)
qed

section \<open>Sequence numbers\<close>

text \<open>
  Sequence numbers only go up. \<open>seq_step j s s'\<close>: from \<open>s\<close> to \<open>s'\<close> each connection's number went
  up by at most \<open>j\<close>, and by at least one if the connection left its user.
\<close>

definition seq_step :: "nat \<Rightarrow> server \<Rightarrow> server \<Rightarrow> bool" where
  "seq_step j s s' \<longleftrightarrow> (\<forall>p. \<exists>i \<le> j. cseq (cn s' p) = cseq (cn s p) + of_nat i
     \<and> (i = 0 \<longrightarrow> p \<in> in_use (spool s) \<longrightarrow> p \<in> in_use (spool s')))"

lemma seq_step_refl [simp]: "seq_step j s s"
  by (auto simp: seq_step_def intro!: exI [of _ 0])

lemma seq_step_trans:
  assumes "seq_step i s t" and "seq_step j t u"
  shows "seq_step (i + j) s u"
  unfolding seq_step_def
proof
  fix p
  obtain k where k: "k \<le> i" "cseq (cn t p) = cseq (cn s p) + of_nat k"
    "k = 0 \<longrightarrow> p \<in> in_use (spool s) \<longrightarrow> p \<in> in_use (spool t)"
    using assms(1) unfolding seq_step_def by blast
  obtain l where l: "l \<le> j" "cseq (cn u p) = cseq (cn t p) + of_nat l"
    "l = 0 \<longrightarrow> p \<in> in_use (spool t) \<longrightarrow> p \<in> in_use (spool u)"
    using assms(2) unfolding seq_step_def by blast
  show "\<exists>n \<le> i + j. cseq (cn u p) = cseq (cn s p) + of_nat n
      \<and> (n = 0 \<longrightarrow> p \<in> in_use (spool s) \<longrightarrow> p \<in> in_use (spool u))"
    using k l by (intro exI [of _ "k + l"]) auto
qed

lemma seq_step_mono: "seq_step i s t \<Longrightarrow> i \<le> j \<Longrightarrow> seq_step j s t"
  unfolding seq_step_def by (meson order_trans)

lemma seq_step_frame:
  "(\<And>p. cseq (cn s' p) = cseq (cn s p)) \<Longrightarrow> in_use (spool s') = in_use (spool s) \<Longrightarrow> seq_step j s s'"
  by (auto simp: seq_step_def intro!: exI [of _ 0])

lemma seq_step_zdClose:
  assumes "acct E s" and "closable s p"
  shows "seq_step 1 s (zdClosesocketProc p now s)"
  unfolding seq_step_def
proof
  fix q
  have disj: "p \<in> in_use (spool s) \<Longrightarrow> p \<notin> set (m_recyconnectionList (spool s))"
    by (simp add: in_use_def)
  consider "q \<noteq> p" | "q = p" "p \<in> set (m_recyconnectionList (spool s))"
    | "q = p" "p \<notin> set (m_recyconnectionList (spool s))" by blast
  then show "\<exists>i \<le> 1. cseq (cn (zdClosesocketProc p now s) q) = cseq (cn s q) + of_nat i
      \<and> (i = 0 \<longrightarrow> q \<in> in_use (spool s) \<longrightarrow> q \<in> in_use (spool (zdClosesocketProc p now s)))"
  proof cases
    case 1 then show ?thesis by (intro exI [of _ 0]) simp
  next
    case 2 with disj show ?thesis by (intro exI [of _ 0]) (auto simp: zdClose_self)
  next
    case 3 then show ?thesis by (intro exI [of _ 1]) (simp add: zdClose_self)
  qed
qed

section \<open>Taking and giving back connections\<close>

text \<open>Free connection objects own no buffers; otherwise taking one would lose them.\<close>

definition free_clean :: "pool \<Rightarrow> bool" where
  "free_clean P \<longleftrightarrow> (\<forall>p \<in> set (m_freeconnectionList P). conn_bufs (conns P p) = [])"

lemma free_clean_empty [simp]: "free_clean empty_pool"
  by (simp add: free_clean_def)

lemma pool_bufs_get:
  assumes "pool_inv P" and "free_clean P"
  shows "pool_bufs (snd (qc_get_connection sock now P)) = pool_bufs P"
proof (cases "m_freeconnectionList P")
  case Nil
  let ?P = "snd (qc_get_connection sock now P)"
  have L: "m_connectionList ?P = m_connectionList P @ [next_conn P]"
    and new: "conn_bufs (conns ?P (next_conn P)) = []"
    and old: "q \<noteq> next_conn P \<Longrightarrow> conns ?P q = conns P q" for q
    using Nil by (simp_all add: qc_get_connection_def new_conn_def Let_def conn_bufs_def
        GetOneToUse_def qc_connection_init_def)
  have "mset (concat (map (\<lambda>q. conn_bufs (conns ?P q)) (m_connectionList P))) =
      mset (concat (map (\<lambda>q. conn_bufs (conns P q)) (m_connectionList P)))"
    using assms(1) by (intro mset_concat_map_same) (auto simp: pool_inv_defs intro!: arg_cong [where f = conn_bufs] old)
  then show ?thesis by (simp add: pool_bufs_def L new)
next
  case (Cons p ps)
  then have "conn_bufs (conns P p) = []" using assms(2) by (simp add: free_clean_def)
  then show ?thesis
    using Cons by (intro pool_bufs_conns_cong)
      (auto simp: qc_get_connection_def conn_bufs_def GetOneToUse_def)
qed

lemma acct_get [qc_inv]:
  assumes "acct E s" and "free_clean (spool s)"
  shows "acct E (s\<lparr>spool := snd (qc_get_connection sock now (spool s))\<rparr>)"
  using assms pool_bufs_get [of "spool s" sock now] pool_inv_get [of "spool s" sock now]
  by (simp add: acct_def owned_def)

lemma acct_ctor: "acct {#} (CSocket_ctor cf (empty_memory f h) K)"
  using pool_inv_empty
  by (simp add: acct_def CSocket_ctor_def empty_memory_def mem_wf_def live_def live_mset_def owned_def
      timer_addrs_def pool_bufs_def timer_wf_def empty_pool_def)

text \<open>
  A worker with one connection: the constructed state after a connection was taken for
  descriptor 7. The witnesses of several properties start from it.
\<close>

definition one_conn :: server where
  "one_conn = (CSocket_ctor default_conf (empty_memory (\<lambda>_ _. 0) (\<lambda>_. \<lparr>pConn = 0, iCurrsequence = 0\<rparr>))
     quiet_kernel)\<lparr>spool := snd (qc_get_connection 7 0 empty_pool)\<rparr>"

lemma one_conn_simps [simp]:
  "cn one_conn 0 = (GetOneToUse 0 qc_connection_init)\<lparr>fd := 7\<rparr>"
  "in_use (spool one_conn) = {0}" "m_connectionList (spool one_conn) = [0]"
  "sconf one_conn = default_conf" "m_MsgRecvQueue one_conn = []" "m_MsgSendQueue one_conn = []"
  "m_iSendMsgQueueCount one_conn = 0" "skern one_conn = quiet_kernel"
  "m_semEventSendQueue one_conn = 0"
  by (simp_all add: one_conn_def CSocket_ctor_def qc_get_connection_def new_conn_def in_use_def
      empty_pool_def Let_def)

lemma acct_one_conn: "acct {#} one_conn"
  using acct_get [OF acct_ctor, of default_conf "\<lambda>_ _. 0" "\<lambda>_. \<lparr>pConn = 0, iCurrsequence = 0\<rparr>"
      quiet_kernel 7 0]
  by (simp add: one_conn_def CSocket_ctor_def)

text \<open>A packet of eight bytes in its heap, a ping for that connection.\<close>

definition demo_msg :: msgbuf where
  "demo_msg = \<lparr>mb_hdr = \<lparr>pConn = 0, iCurrsequence = 1\<rparr>, mb_pkg = [0, 8, 0, 0, 0, 0, 0, 0]\<rparr>"

definition one_msg :: "msgbuf \<Rightarrow> memory" where
  "one_msg b = write_obj 0 b (snd (AllocMemory 24 False (smem one_conn)))"

lemma demo_mem [simp]: "mem_next (smem one_conn) = 0"
  by (simp add: one_conn_def CSocket_ctor_def empty_memory_def)

lemma one_msg_simps [simp]: "read_obj 0 (one_msg b) = b" "0 \<in> live (one_msg b)"
  by (simp_all add: one_msg_def)

lemma acct_one_msg: "acct {#0#} (one_conn\<lparr>smem := one_msg b\<rparr>)"
proof -
  let ?m = "snd (AllocMemory 24 False (smem one_conn))"
  have "acct {#0#} (one_conn\<lparr>smem := ?m\<rparr>)"
    using acct_alloc [OF acct_one_conn, of 24 False 0 ?m] fst_AllocMemory [of 24 False "smem one_conn"]
    by (metis (no_types) demo_mem prod.collapse)
  then show ?thesis
    using acct_write [of 0 "one_conn\<lparr>smem := ?m\<rparr>" "{#0#}" b] by (simp add: one_msg_def)
qed

text \<open>The same packet in the receive queue.\<close>

definition demo_job :: "msgbuf \<Rightarrow> server" where
  "demo_job b = one_conn\<lparr>smem := one_msg b, m_MsgRecvQueue := [0], m_iRecvMsgQueueCount := 1\<rparr>"

lemma demo_job_simps [simp]:
  "smem (demo_job b) = one_msg b" "m_MsgRecvQueue (demo_job b) = [0]" "spool (demo_job b) = spool one_conn"
  "m_iSendMsgQueueCount (demo_job b) = 0" "m_MsgSendQueue (demo_job b) = []"
  by (simp_all add: demo_job_def)

lemma acct_demo_job: "acct {#} (demo_job b)"
  using acct_enqueue_recv [OF acct_one_msg [of b], of 1] by (simp add: demo_job_def)

end
