(* ===== verification/QcSend.thy ===== *)
theory QcSend
  imports QcAccount
begin

text \<open>
  Sending (net/qc\_socket.cc, net/qc\_socket\_request.cc): \<open>sendproc\<close>, the round of the sending
  thread over the send queue, and the handler that goes on when the kernel has room again.
\<close>

section \<open>The code\<close>

text \<open>
  The bytes at a buffer pointer, and the check that they are inside a live buffer: an access
  outside one is recorded as a fault.
\<close>

definition buf_ok :: "bufptr \<Rightarrow> nat \<Rightarrow> memory \<Rightarrow> bool" where
  "buf_ok b n m =
     (case b of
        PkgPtr a off \<Rightarrow> a \<in> live m \<and> off + n \<le> length (mb_pkg (read_obj a m))
      | _ \<Rightarrow> False)"

definition buf_bytes :: "bufptr \<Rightarrow> nat \<Rightarrow> memory \<Rightarrow> bytes" where
  "buf_bytes b n m =
     (case b of
        PkgPtr a off \<Rightarrow> take n (drop off (mb_pkg (read_obj a m)))
      | _ \<Rightarrow> [])"

fun buf_fault :: "bufptr \<Rightarrow> fault" where
  "buf_fault (PkgPtr a off) = BadAccess a"
| "buf_fault (HeadPtr off) = BufferOverflow"
| "buf_fault NullPtr = NullAccess"

definition check_buf :: "bufptr \<Rightarrow> nat \<Rightarrow> memory \<Rightarrow> memory" where
  "check_buf b n m = (if buf_ok b n m then m else add_fault (buf_fault b) m)"

text \<open>
  \<open>sendproc\<close> calls \<open>send\<close> until it is not interrupted. It returns the number of bytes, 0, -1 for
  a full socket buffer or -2 for any other error. The kernel looks at the descriptor first: for one
  that is not open it answers with an error and does not touch the buffer.
\<close>

lemma sys_send_EINTR:
  "sys_send sock buff K = (Inl EINTR, K1) \<Longrightarrow> length (k_send K1) < length (k_send K)"
  by (cases "k_send K")
    (auto simp: sys_send_def Let_def split: if_splits send_result.splits)

function send_loop :: "int \<Rightarrow> bytes \<Rightarrow> kernel \<Rightarrow> int \<times> kernel" where
  "send_loop sock buff K =
     (case sys_send sock buff K of
        (Inr n, K1) \<Rightarrow> (int n, K1)
      | (Inl e, K1) \<Rightarrow>
          if e = EAGAIN then (-1, K1)
          else if e = EINTR then send_loop sock buff K1
          else (-2, K1))"
  by pat_completeness auto

termination
  by (relation "measure (\<lambda>(sock, buff, K). length (k_send K))") (auto dest!: sys_send_EINTR [OF sym])

declare send_loop.simps [simp del]

definition sendproc :: "connptr \<Rightarrow> bufptr \<Rightarrow> nat \<Rightarrow> server \<Rightarrow> int \<times> server" where
  "sendproc p buff buflen s =
     (let (n, K) = send_loop (fd (cn s p)) (buf_bytes buff buflen (smem s)) (skern s)
      in (n, s\<lparr>smem := (if fd (cn s p) = -1 then smem s else check_buf buff buflen (smem s)), skern := K\<rparr>))"

text \<open>Switching the write notification of a connection on (0) or off (1).\<close>

abbreviation epoll_out :: "int \<Rightarrow> connptr \<Rightarrow> server \<Rightarrow> server" where
  "epoll_out act p s \<equiv> snd (qc_epoll_oper_event (fd (cn s p)) EPOLL_CTL_MOD EPOLLOUT act p s)"

definition qc_write_request_handler :: "connptr \<Rightarrow> server \<Rightarrow> server" where
  "qc_write_request_handler p s0 =
     (let (sendsize, s) = sendproc p (psendbuf (cn s0 p)) (isendlen (cn s0 p)) s0
      in if sendsize > 0 \<and> sendsize \<noteq> int (isendlen (cn s p))
         then upd_cn p (\<lambda>c. c\<lparr>psendbuf := buf_advance (nat sendsize) (psendbuf c),
                              isendlen := isendlen c - nat sendsize\<rparr>) s
         else if sendsize = -1 then s
         else
           let s1 = (if sendsize > 0 \<and> sendsize = int (isendlen (cn s p))
                     then epoll_out 1 p s else s);
               s2 = free_buf (psendMemPointer (cn s1 p)) (sem_post s1)
           in upd_cn p (\<lambda>c. c\<lparr>psendMemPointer := None,
                              iThrowsendCount := iThrowsendCount c - 1\<rparr>) s2)"

text \<open>
  One packet of the send queue: the part of the loop of \<open>ServerSendQueueThread\<close> behind the two
  checks. First what it records in the connection, then the send and its four outcomes.
\<close>

definition start_send :: "addr \<Rightarrow> connptr \<Rightarrow> server \<Rightarrow> server" where
  "start_send a p s =
     upd_cn p (\<lambda>c. c\<lparr>iSendCount := iSendCount c - 1, psendMemPointer := Some a,
                     psendbuf := PkgPtr a 0,
                     isendlen := e_pkgLen (mb_pkg (read_obj a (smem s)))\<rparr>) s"

definition end_send :: "connptr \<Rightarrow> server \<Rightarrow> server" where
  "end_send p s =
     upd_cn p (\<lambda>c. c\<lparr>psendMemPointer := None, iThrowsendCount := 0\<rparr>)
       (free_buf (psendMemPointer (cn s p)) s)"

definition throttle :: "connptr \<Rightarrow> server \<Rightarrow> server" where
  "throttle p s = epoll_out 0 p (upd_cn p (\<lambda>c. c\<lparr>iThrowsendCount := iThrowsendCount c + 1\<rparr>) s)"

definition send_one :: "addr \<Rightarrow> connptr \<Rightarrow> server \<Rightarrow> server" where
  "send_one a p s0 =
     (let s1 = start_send a p s0;
          (sendsize, s) = sendproc p (psendbuf (cn s1 p)) (isendlen (cn s1 p)) s1
      in if sendsize > 0
         then (if sendsize = int (isendlen (cn s p)) then end_send p s
               else throttle p
                      (upd_cn p (\<lambda>c. c\<lparr>psendbuf := buf_advance (nat sendsize) (psendbuf c),
                                       isendlen := isendlen c - nat sendsize\<rparr>) s))
         else if sendsize = 0 then end_send p s
         else if sendsize = -1 then throttle p s
         else end_send p s)"

text \<open>
  The walk over the list: \<open>kept\<close> are the entries before the position, which stay in the queue.
\<close>

fun send_pass :: "addr list \<Rightarrow> addr list \<Rightarrow> server \<Rightarrow> server" where
  "send_pass kept [] s = s"
| "send_pass kept (a # rest) s =
     (let h = hdr (smem s) a; p = pConn h;
          s1 = s\<lparr>m_MsgSendQueue := kept @ rest, m_iSendMsgQueueCount := m_iSendMsgQueueCount s - 1\<rparr>
      in if cseq (cn s p) \<noteq> iCurrsequence h
         then send_pass kept rest (free_buf (Some a) s1)
         else if iThrowsendCount (cn s p) > 0 then send_pass (kept @ [a]) rest s
         else send_pass kept rest (send_one a p s1))"

text \<open>
  One turn of \<open>ServerSendQueueThread\<close>. \<open>sem_wait\<close> blocks on a zero semaphore (\<open>None\<close>) or is
  interrupted by a signal, in which case the turn goes on without taking the semaphore down. The
  flag says whether the thread leaves its loop.
\<close>

definition sem_wait :: "bool \<Rightarrow> server \<Rightarrow> server option" where
  "sem_wait interrupted s =
     (if interrupted then Some s
      else if m_semEventSendQueue s = 0 then None
      else Some (s\<lparr>m_semEventSendQueue := m_semEventSendQueue s - 1\<rparr>))"

definition ServerSendQueueThread :: "int \<Rightarrow> bool \<Rightarrow> server \<Rightarrow> (server \<times> bool) option" where
  "ServerSendQueueThread g_stopEvent interrupted s =
     (case sem_wait interrupted s of
        None \<Rightarrow> None
      | Some s1 \<Rightarrow>
          if g_stopEvent \<noteq> 0 then Some (s1, True)
          else if m_iSendMsgQueueCount s1 > 0
          then Some (send_pass [] (m_MsgSendQueue s1) s1, False)
          else Some (s1, False))"

section \<open>Basic facts\<close>

lemma sys_send_frame:
  "sys_send sock buff K = (r, K') \<Longrightarrow> k_epoll K' = k_epoll K \<and> k_closed K' = k_closed K \<and> k_ctl K' = k_ctl K"
  by (auto simp: sys_send_def Let_def split: if_splits list.splits send_result.splits)

lemma send_loop_step:
  "send_loop sock buff K =
     (case sys_send sock buff K of
        (Inr n, K1) \<Rightarrow> (int n, K1)
      | (Inl e, K1) \<Rightarrow>
          if e = EAGAIN then (-1, K1)
          else if e = EINTR then send_loop sock buff K1
          else (-2, K1))"
  by (rule send_loop.simps)

text \<open>What a call of \<open>sendproc\<close> can return, and what the kernel then has taken.\<close>

definition sent_to :: "kernel \<Rightarrow> int \<Rightarrow> bytes" where
  "sent_to K sock = concat (map snd (filter (\<lambda>e. fst e = sock) (k_sent K)))"

lemma sys_send_sent:
  "sys_send sock buff K = (Inr n, K') \<Longrightarrow> n \<le> length buff \<and> sock \<noteq> -1
     \<and> k_sent K' = k_sent K @ [(sock, take n buff)]"
  "sys_send sock buff K = (Inl e, K') \<Longrightarrow> k_sent K' = k_sent K"
  by (auto simp: sys_send_def Let_def split: if_splits list.splits send_result.splits)

lemma send_loop_result:
  "send_loop sock buff K = (r, K') \<Longrightarrow>
     (r \<in> {-1, -2} \<and> k_sent K' = k_sent K) \<or>
     (0 \<le> r \<and> nat r \<le> length buff \<and> sock \<noteq> -1 \<and> k_sent K' = k_sent K @ [(sock, take (nat r) buff)])"
proof (induction sock buff K rule: send_loop.induct)
  case (1 sock buff K)
  obtain x K1 where sys: "sys_send sock buff K = (x, K1)" by (cases "sys_send sock buff K")
  show ?case
  proof (cases x)
    case (Inr n)
    with "1.prems" sys have "r = int n" "K' = K1" by (auto simp: send_loop_step [of sock buff K])
    with sys_send_sent(1) [of sock buff K n K1] sys Inr show ?thesis by simp
  next
    case (Inl e)
    note sent = sys_send_sent(2) [of sock buff K e K1, unfolded sys Inl, OF refl]
    show ?thesis
    proof (cases "e = EINTR")
      case True
      with "1.prems" sys Inl have "send_loop sock buff K1 = (r, K')"
        by (simp add: send_loop_step [of sock buff K])
      with "1.IH" [OF sys [symmetric] Inl] True sent show ?thesis by simp
    next
      case False
      with "1.prems" sys Inl sent show ?thesis
        by (auto simp: send_loop_step [of sock buff K] split: if_splits)
    qed
  qed
qed

lemma send_loop_frame:
  "send_loop sock buff K = (r, K') \<Longrightarrow> k_epoll K' = k_epoll K \<and> k_closed K' = k_closed K \<and> k_ctl K' = k_ctl K"
proof (induction sock buff K rule: send_loop.induct)
  case (1 sock buff K)
  obtain x K1 where sys: "sys_send sock buff K = (x, K1)" by (cases "sys_send sock buff K")
  show ?case
    using "1.prems" "1.IH" [OF sys [symmetric]] sys_send_frame [OF sys] sys
    by (auto simp: send_loop_step [of sock buff K] split: sum.splits if_splits)
qed

text \<open>With a pointer into a live buffer, \<open>sendproc\<close> only talks to the kernel.\<close>

lemma sendproc_eq:
  assumes "buf_ok b n (smem s)"
  obtains r K where "sendproc p b n s = (r, s\<lparr>skern := K\<rparr>)"
    and "send_loop (fd (cn s p)) (buf_bytes b n (smem s)) (skern s) = (r, K)"
    and "k_epoll K = k_epoll (skern s)"
    and "(r \<in> {-1, -2} \<and> k_sent K = k_sent (skern s)) \<or>
      (0 \<le> r \<and> nat r \<le> n \<and> fd (cn s p) \<noteq> -1
       \<and> k_sent K = k_sent (skern s) @ [(fd (cn s p), take (nat r) (buf_bytes b n (smem s)))])"
proof -
  obtain r K where run: "send_loop (fd (cn s p)) (buf_bytes b n (smem s)) (skern s) = (r, K)"
    by (cases "send_loop (fd (cn s p)) (buf_bytes b n (smem s)) (skern s)")
  have len: "length (buf_bytes b n (smem s)) = n"
    using assms by (auto simp: buf_ok_def buf_bytes_def split: bufptr.splits)
  show thesis
  proof (rule that [OF _ run])
    show "sendproc p b n s = (r, s\<lparr>skern := K\<rparr>)"
      using run assms by (simp add: sendproc_def check_buf_def)
    show "k_epoll K = k_epoll (skern s)" using send_loop_frame [OF run] by simp
  qed (use send_loop_result [OF run] len in auto)
qed

lemma sendproc_closed:
  "fd (cn s p) = -1 \<Longrightarrow> sendproc p b n s = (-2, s\<lparr>skern := (skern s)\<lparr>k_send := tl (k_send (skern s))\<rparr>\<rparr>)"
  by (simp add: sendproc_def send_loop_step [of "-1"] sys_send_def Let_def)

section \<open>The sending state of a connection\<close>

text \<open>
  A connection in use either has nothing pending, or holds the rest of one packet: then it is
  marked, and its pointer and length lie inside the buffer.
\<close>

definition send_ok :: "memory \<Rightarrow> conn \<Rightarrow> bool" where
  "send_ok m c \<longleftrightarrow>
     (case psendMemPointer c of
        None \<Rightarrow> iThrowsendCount c = 0
      | Some a \<Rightarrow> iThrowsendCount c = 1 \<and> 0 < isendlen c
          \<and> (case psendbuf c of
               PkgPtr b off \<Rightarrow> b = a \<and> off + isendlen c \<le> length (mb_pkg (read_obj a m))
             | _ \<Rightarrow> False))"

definition pending :: "memory \<Rightarrow> conn \<Rightarrow> bytes" where
  "pending m c = (case psendMemPointer c of None \<Rightarrow> [] | Some _ \<Rightarrow> buf_bytes (psendbuf c) (isendlen c) m)"

text \<open>A connection without its sending part, and the frame of sending.\<close>

definition send_erase :: "conn \<Rightarrow> conn" where
  "send_erase c = c\<lparr>iThrowsendCount := 0, psendMemPointer := None, psendbuf := NullPtr,
     isendlen := 0, iSendCount := 0, events := 0\<rparr>"

definition send_frame :: "connptr \<Rightarrow> server \<Rightarrow> server \<Rightarrow> bool" where
  "send_frame p s s' \<longleftrightarrow> sconf s' = sconf s \<and> stimer s' = stimer s
     \<and> m_MsgRecvQueue s' = m_MsgRecvQueue s \<and> m_iRecvMsgQueueCount s' = m_iRecvMsgQueueCount s
     \<and> pool_shape (spool s') = pool_shape (spool s)
     \<and> (\<forall>q. q \<noteq> p \<longrightarrow> cn s' q = cn s q) \<and> send_erase (cn s' p) = send_erase (cn s p)
     \<and> mem_step {} (smem s) (smem s')"

lemma send_frame_refl [simp]: "send_frame p s s"
  by (simp add: send_frame_def)

lemma send_frame_trans: "send_frame p s t \<Longrightarrow> send_frame p t u \<Longrightarrow> send_frame p s u"
  unfolding send_frame_def using mem_step_trans_same by fastforce

lemma send_frame_upd:
  "send_erase (f (cn s p)) = send_erase (cn s p) \<Longrightarrow> send_frame p s (upd_cn p f s)"
  by (simp add: send_frame_def)

lemma send_frame_fields [simp]:
  "send_frame p s (s\<lparr>skern := K\<rparr>)" "send_frame p s (free_buf a s)" "send_frame p s (sem_post s)"
  "send_frame p s (s\<lparr>m_MsgSendQueue := q, m_iSendMsgQueueCount := n\<rparr>)"
  by (simp_all add: send_frame_def sem_post_def)

lemma send_frame_oper [simp]: "send_frame p s (snd (qc_epoll_oper_event sock op flag act p s))"
  by (rule oper_event_eq [of sock op flag act p s])
    (simp add: send_frame_def send_erase_def)

lemma send_erase_eqD:
  assumes "send_erase c = send_erase d"
  shows "fd c = fd d" "cseq c = cseq d" "curStat c = curStat d" "dataHeadInfo c = dataHeadInfo d"
    "precvbuf c = precvbuf d" "irecvlen c = irecvlen d" "precvMemPointer c = precvMemPointer d"
    "listening c = listening d" "lastPingTime c = lastPingTime d" "inRecyTime c = inRecyTime d"
    "rhandler c = rhandler d" "whandler c = whandler d"
  using arg_cong [OF assms, of fd] arg_cong [OF assms, of cseq] arg_cong [OF assms, of curStat]
    arg_cong [OF assms, of dataHeadInfo] arg_cong [OF assms, of precvbuf]
    arg_cong [OF assms, of irecvlen] arg_cong [OF assms, of precvMemPointer]
    arg_cong [OF assms, of listening] arg_cong [OF assms, of lastPingTime]
    arg_cong [OF assms, of inRecyTime] arg_cong [OF assms, of rhandler]
    arg_cong [OF assms, of whandler]
  by (simp_all add: send_erase_def)

lemma send_frame_lists:
  assumes "send_frame p s s'"
  shows "m_connectionList (spool s') = m_connectionList (spool s)"
    "m_freeconnectionList (spool s') = m_freeconnectionList (spool s)"
    "m_recyconnectionList (spool s') = m_recyconnectionList (spool s)"
    "in_use (spool s') = in_use (spool s)" "closable s' q = closable s q"
    "m_onlineUserCount (spool s') = m_onlineUserCount (spool s)"
proof -
  from assms have shape: "pool_shape (spool s') = pool_shape (spool s)" by (simp add: send_frame_def)
  show "m_connectionList (spool s') = m_connectionList (spool s)"
    "m_freeconnectionList (spool s') = m_freeconnectionList (spool s)"
    and R: "m_recyconnectionList (spool s') = m_recyconnectionList (spool s)"
    and U: "in_use (spool s') = in_use (spool s)"
    and "m_onlineUserCount (spool s') = m_onlineUserCount (spool s)"
    by (simp_all only: pool_shapeD [OF shape])
  from R U show "closable s' q = closable s q" by (simp only: closable_def)
qed

lemma send_frame_cseq: "send_frame p s s' \<Longrightarrow> cseq (cn s' q) = cseq (cn s q)"
  by (cases "q = p") (auto simp: send_frame_def dest: send_erase_eqD)

lemma send_frame_fd: "send_frame p s s' \<Longrightarrow> fd (cn s' q) = fd (cn s q)"
  by (cases "q = p") (auto simp: send_frame_def dest: send_erase_eqD)

section \<open>The parts of a send\<close>

lemma upd_cn_free_buf: "upd_cn p f (free_buf a s) = free_buf a (upd_cn p f s)"
  by (rule server.equality) (simp_all add: upd_cn_def free_buf_def)

lemma acct_release_send:
  assumes A: "acct E s" and p: "p \<in> set (m_connectionList (spool s))"
    and f: "psendMemPointer (f (cn s p)) = None" "precvMemPointer (f (cn s p)) = precvMemPointer (cn s p)"
  shows "acct E (upd_cn p f (free_buf (psendMemPointer (cn s p)) s))"
proof -
  have "acct (E + mset (opt_list (psendMemPointer (cn s p)))) (upd_cn p f s)"
    by (rule acct_move [OF A p]) (simp add: conn_bufs_def f)
  then have "acct E (free_buf (psendMemPointer (cn s p)) (upd_cn p f s))" by (rule acct_free_buf)
  then show ?thesis by (simp only: upd_cn_free_buf)
qed

lemma end_send_simps [simp]:
  "cn (end_send p s) q = (if q = p then (cn s p)\<lparr>psendMemPointer := None, iThrowsendCount := 0\<rparr> else cn s q)"
  "skern (end_send p s) = skern s" "m_MsgSendQueue (end_send p s) = m_MsgSendQueue s"
  "m_iSendMsgQueueCount (end_send p s) = m_iSendMsgQueueCount s"
  "m_semEventSendQueue (end_send p s) = m_semEventSendQueue s"
  by (simp_all add: end_send_def)

lemma acct_end_send:
  "acct E s \<Longrightarrow> p \<in> set (m_connectionList (spool s)) \<Longrightarrow> acct E (end_send p s)"
  unfolding end_send_def by (rule acct_release_send) simp_all

lemma send_frame_end_send: "send_frame p s (end_send p s)"
  unfolding end_send_def
  by (rule send_frame_trans [OF send_frame_fields(2)], rule send_frame_upd) (simp add: send_erase_def)

lemma oper_event_simps [simp]:
  "smem (snd (qc_epoll_oper_event sock op flag act p s)) = smem s"
  "m_MsgSendQueue (snd (qc_epoll_oper_event sock op flag act p s)) = m_MsgSendQueue s"
  "m_iSendMsgQueueCount (snd (qc_epoll_oper_event sock op flag act p s)) = m_iSendMsgQueueCount s"
  "m_semEventSendQueue (snd (qc_epoll_oper_event sock op flag act p s)) = m_semEventSendQueue s"
  "k_sent (skern (snd (qc_epoll_oper_event sock op flag act p s))) = k_sent (skern s)"
  "k_send (skern (snd (qc_epoll_oper_event sock op flag act p s))) = k_send (skern s)"
  "psendMemPointer (cn (snd (qc_epoll_oper_event sock op flag act p s)) q) = psendMemPointer (cn s q)"
  "psendbuf (cn (snd (qc_epoll_oper_event sock op flag act p s)) q) = psendbuf (cn s q)"
  "isendlen (cn (snd (qc_epoll_oper_event sock op flag act p s)) q) = isendlen (cn s q)"
  "iThrowsendCount (cn (snd (qc_epoll_oper_event sock op flag act p s)) q) = iThrowsendCount (cn s q)"
  "iSendCount (cn (snd (qc_epoll_oper_event sock op flag act p s)) q) = iSendCount (cn s q)"
  "m_connectionList (spool (snd (qc_epoll_oper_event sock op flag act p s))) = m_connectionList (spool s)"
  by (rule oper_event_eq [of sock op flag act p s], simp)+

lemma throttle_simps [simp]:
  "smem (throttle p s) = smem s" "m_MsgSendQueue (throttle p s) = m_MsgSendQueue s"
  "m_iSendMsgQueueCount (throttle p s) = m_iSendMsgQueueCount s"
  "m_semEventSendQueue (throttle p s) = m_semEventSendQueue s"
  "k_sent (skern (throttle p s)) = k_sent (skern s)"
  "k_send (skern (throttle p s)) = k_send (skern s)"
  "psendMemPointer (cn (throttle p s) p) = psendMemPointer (cn s p)"
  "psendbuf (cn (throttle p s) p) = psendbuf (cn s p)"
  "isendlen (cn (throttle p s) p) = isendlen (cn s p)"
  "iSendCount (cn (throttle p s) p) = iSendCount (cn s p)"
  "iThrowsendCount (cn (throttle p s) p) = iThrowsendCount (cn s p) + 1"
  "acct E (throttle p s) = acct E s"
  by (simp_all add: throttle_def acct_upd_cn conn_bufs_def)

lemma send_frame_throttle: "send_frame p s (throttle p s)"
  unfolding throttle_def
  by (rule send_frame_trans [OF send_frame_upd send_frame_oper]) (simp add: send_erase_def)

text \<open>A kernel that neither closes the connection nor reports an error while sending.\<close>

definition healthy :: "kernel \<Rightarrow> bool" where
  "healthy K \<longleftrightarrow> (\<forall>r \<in> set (k_send K). case r of
     SendAccept n \<Rightarrow> 0 < n | SendErr e \<Rightarrow> e = EAGAIN \<or> e = EINTR)"

lemma sys_send_healthy:
  assumes "healthy K" and "sock \<noteq> -1" and "sys_send sock buff K = (x, K')" and "buff \<noteq> []"
  shows "healthy K' \<and> (case x of Inr n \<Rightarrow> 0 < n | Inl e \<Rightarrow> e = EAGAIN \<or> e = EINTR)"
  using assms by (cases "k_send K")
    (auto simp: sys_send_def healthy_def Let_def split: send_result.splits)

lemma send_loop_healthy:
  "healthy K \<Longrightarrow> sock \<noteq> -1 \<Longrightarrow> buff \<noteq> [] \<Longrightarrow> send_loop sock buff K = (r, K') \<Longrightarrow>
   healthy K' \<and> (r = -1 \<or> 0 < r)"
proof (induction sock buff K rule: send_loop.induct)
  case (1 sock buff K)
  obtain x K1 where sys: "sys_send sock buff K = (x, K1)" by (cases "sys_send sock buff K")
  from sys_send_healthy [OF "1.prems"(1,2) sys "1.prems"(3)] "1.prems" "1.IH" [OF sys [symmetric]] sys
  show ?case by (auto simp: send_loop_step [of sock buff K] split: sum.splits if_splits)
qed

lemma sent_to_append:
  "k_sent K' = k_sent K @ [(sock, bs)] \<Longrightarrow>
   sent_to K' sk = sent_to K sk @ (if sk = sock then bs else [])"
  by (simp add: sent_to_def)

lemma sent_to_cong: "k_sent K' = k_sent K \<Longrightarrow> sent_to K' sk = sent_to K sk"
  by (simp add: sent_to_def)

section \<open>One packet\<close>

text \<open>
  What sending does to the stream of a connection: the bytes the kernel took and the bytes still
  pending are together what they were before, and the new bytes behind them.
\<close>

definition stream_adds :: "connptr \<Rightarrow> bytes \<Rightarrow> server \<Rightarrow> server \<Rightarrow> bool" where
  "stream_adds p bs s s' \<longleftrightarrow>
     (healthy (skern s) \<and> fd (cn s p) \<noteq> -1 \<longrightarrow> healthy (skern s')
        \<and> sent_to (skern s') (fd (cn s p)) @ pending (smem s') (cn s' p) =
          sent_to (skern s) (fd (cn s p)) @ pending (smem s) (cn s p) @ bs)
     \<and> (\<forall>sock. sock \<noteq> fd (cn s p) \<longrightarrow> sent_to (skern s') sock = sent_to (skern s) sock)"

lemma send_one_outcome:
  assumes A: "acct (add_mset a E) s" and p: "p \<in> set (m_connectionList (spool s))"
    and ok: "send_ok (smem s) (cn s p)" and idle: "psendMemPointer (cn s p) = None"
    and pkg: "pkg_ok (smem s) a" and s': "s' = send_one a p s"
  shows "acct E s'" and "send_frame p s s'" and "send_ok (smem s') (cn s' p)"
    and "m_MsgSendQueue s' = m_MsgSendQueue s \<and> m_iSendMsgQueueCount s' = m_iSendMsgQueueCount s
      \<and> m_semEventSendQueue s' = m_semEventSendQueue s"
    and "iSendCount (cn s' p) = iSendCount (cn s p) - 1"
    and "stream_adds p (msg_bytes (smem s) a) s s'"
proof -
  let ?n = "e_pkgLen (queued_pkg (smem s) a)"
  let ?s1 = "start_send a p s"
  have c1: "cn ?s1 p = (cn s p)\<lparr>iSendCount := iSendCount (cn s p) - 1, psendMemPointer := Some a,
      psendbuf := PkgPtr a 0, isendlen := ?n\<rparr>"
    by (simp add: start_send_def queued_pkg_def)
  have n: "0 < ?n" "?n \<le> length (queued_pkg (smem s) a)" using pkg by (simp_all add: pkg_ok_def)
  have live: "a \<in> live (smem s)" by (rule acct_live [OF A]) simp
  have A1: "acct E ?s1"
    unfolding start_send_def by (rule acct_move [OF A p]) (simp add: conn_bufs_def idle)
  have F1: "send_frame p s ?s1"
    unfolding start_send_def by (rule send_frame_upd) (simp add: send_erase_def)
  have m1: "smem ?s1 = smem s" "skern ?s1 = skern s" "m_connectionList (spool ?s1) = m_connectionList (spool s)"
    "m_MsgSendQueue ?s1 = m_MsgSendQueue s" "m_iSendMsgQueueCount ?s1 = m_iSendMsgQueueCount s"
    "m_semEventSendQueue ?s1 = m_semEventSendQueue s"
    by (simp_all add: start_send_def)
  have bok: "buf_ok (PkgPtr a 0) ?n (smem ?s1)"
    using live n by (simp add: buf_ok_def m1 queued_pkg_def)
  have bytes: "buf_bytes (PkgPtr a 0) ?n (smem ?s1) = msg_bytes (smem s) a"
    by (simp add: buf_bytes_def msg_bytes_def m1 queued_pkg_def)
  have bytes0: "buf_bytes (PkgPtr a 0) ?n (smem s) = msg_bytes (smem s) a"
    using bytes by (simp add: m1)
  have mlen: "length (msg_bytes (smem s) a) = ?n" using n by (simp add: msg_bytes_def)
  obtain r K where sp: "sendproc p (PkgPtr a 0) ?n ?s1 = (r, ?s1\<lparr>skern := K\<rparr>)"
    and run: "send_loop (fd (cn ?s1 p)) (buf_bytes (PkgPtr a 0) ?n (smem ?s1)) (skern ?s1) = (r, K)"
    and res: "(r \<in> {-1, -2} \<and> k_sent K = k_sent (skern ?s1)) \<or>
      (0 \<le> r \<and> nat r \<le> ?n \<and> fd (cn ?s1 p) \<noteq> -1
       \<and> k_sent K = k_sent (skern ?s1) @ [(fd (cn ?s1 p), take (nat r) (buf_bytes (PkgPtr a 0) ?n (smem ?s1)))])"
    by (rule sendproc_eq [OF bok, of p])
  let ?s2 = "?s1\<lparr>skern := K\<rparr>"
  have A2: "acct E ?s2" using A1 by simp
  have F2: "send_frame p s ?s2" by (rule send_frame_trans [OF F1]) simp
  have bne: "buf_bytes (PkgPtr a 0) ?n (smem ?s1) \<noteq> []" using mlen n unfolding bytes by auto
  have heal: "healthy (skern s) \<Longrightarrow> fd (cn s p) \<noteq> -1 \<Longrightarrow> healthy K \<and> (r = -1 \<or> 0 < r)"
    using send_loop_healthy [OF _ _ bne run] by (simp add: c1 m1(2))
  have others: "\<forall>sock. sock \<noteq> fd (cn s p) \<longrightarrow> sent_to K sock = sent_to (skern s) sock"
    using res by (auto simp: c1 m1 sent_to_def)
  have pend0: "pending (smem s) (cn s p) = []" by (simp add: pending_def idle)
  have thr0: "iThrowsendCount (cn s p) = 0" using ok by (simp add: send_ok_def idle)
  have step: "send_one a p s = (if r > 0 then
        (if r = int ?n then end_send p ?s2
         else throttle p (upd_cn p (\<lambda>c. c\<lparr>psendbuf := buf_advance (nat r) (psendbuf c),
                isendlen := isendlen c - nat r\<rparr>) ?s2))
      else if r = 0 then end_send p ?s2 else if r = -1 then throttle p ?s2 else end_send p ?s2)"
    using sp by (simp add: send_one_def c1)
  have "r = -1 \<or> r = -2 \<or> (0 \<le> r \<and> r \<le> int ?n)" using res by (auto simp: nat_le_iff)
  then consider (all) "r = int ?n" | (part) "0 < r" "r < int ?n" | (full) "r = -1" | (fail) "r = 0 \<or> r = -2"
    by linarith
  then have "acct E s' \<and> send_frame p s s' \<and> send_ok (smem s') (cn s' p)
    \<and> (m_MsgSendQueue s' = m_MsgSendQueue s \<and> m_iSendMsgQueueCount s' = m_iSendMsgQueueCount s
      \<and> m_semEventSendQueue s' = m_semEventSendQueue s)
    \<and> iSendCount (cn s' p) = iSendCount (cn s p) - 1 \<and> stream_adds p (msg_bytes (smem s) a) s s'"
  proof cases
    case all
    then have e: "s' = end_send p ?s2" using s' step n by simp
    have "sent_to K (fd (cn s p)) = sent_to (skern s) (fd (cn s p)) @ msg_bytes (smem s) a"
      using res all mlen n by (auto simp: c1 m1 bytes0 sent_to_def)
    then show ?thesis
      using A2 p heal others pend0
      by (auto simp: e acct_end_send m1 c1 send_ok_def pending_def stream_adds_def
          intro: send_frame_trans [OF F2 send_frame_end_send])
  next
    case part
    let ?f = "\<lambda>c. c\<lparr>psendbuf := buf_advance (nat r) (psendbuf c), isendlen := isendlen c - nat r\<rparr>"
    have e: "s' = throttle p (upd_cn p ?f ?s2)" using s' step part by simp
    have "send_frame p s s'"
      unfolding e by (rule send_frame_trans [OF send_frame_trans [OF F2 send_frame_upd] send_frame_throttle])
        (simp add: send_erase_def)
    moreover have "acct E s'" using A2 by (simp add: e acct_upd_cn conn_bufs_def)
    moreover have "send_ok (smem s') (cn s' p)"
      using part n by (auto simp: e send_ok_def c1 m1 thr0 queued_pkg_def)
    moreover have "pending (smem s') (cn s' p) = drop (nat r) (msg_bytes (smem s) a)"
      by (simp add: e pending_def buf_bytes_def c1 m1 msg_bytes_def queued_pkg_def drop_take)
    then have "sent_to K (fd (cn s p)) @ pending (smem s') (cn s' p) =
        sent_to (skern s) (fd (cn s p)) @ msg_bytes (smem s) a"
      using res part by (auto simp: c1 m1 bytes0 sent_to_append)
    ultimately show ?thesis
      using heal others pend0 by (auto simp: stream_adds_def e m1 c1 sent_to_def healthy_def)
  next
    case full
    have e: "s' = throttle p ?s2" using s' step full by simp
    have "send_frame p s s'"
      unfolding e by (rule send_frame_trans [OF F2 send_frame_throttle])
    moreover have "pending (smem s') (cn s' p) = msg_bytes (smem s) a"
      by (simp add: e pending_def c1 m1 bytes0)
    moreover have "k_sent K = k_sent (skern s)" using res full by (simp add: m1)
    ultimately show ?thesis
      using A2 n heal others pend0
      by (auto simp: e send_ok_def c1 m1 thr0 queued_pkg_def stream_adds_def sent_to_def healthy_def)
  next
    case fail
    then have e: "s' = end_send p ?s2" using s' step n by auto
    then show ?thesis
      using A2 p heal others fail
      by (auto simp: acct_end_send m1 c1 send_ok_def stream_adds_def
          intro: send_frame_trans [OF F2 send_frame_end_send])
  qed
  then show "acct E s'" and "send_frame p s s'" and "send_ok (smem s') (cn s' p)"
    and "m_MsgSendQueue s' = m_MsgSendQueue s \<and> m_iSendMsgQueueCount s' = m_iSendMsgQueueCount s
      \<and> m_semEventSendQueue s' = m_semEventSendQueue s"
    and "iSendCount (cn s' p) = iSendCount (cn s p) - 1"
    and "stream_adds p (msg_bytes (smem s) a) s s'" by blast+
qed

section \<open>The write handler\<close>

lemma send_ok_pending:
  assumes "send_ok m c" and "psendMemPointer c = Some a" and "a \<in> live m"
  obtains off where "psendbuf c = PkgPtr a off" and "off + isendlen c \<le> length (queued_pkg m a)"
    and "0 < isendlen c" and "iThrowsendCount c = 1" and "buf_ok (psendbuf c) (isendlen c) m"
    and "length (pending m c) = isendlen c"
  using assms by (auto simp: send_ok_def queued_pkg_def buf_ok_def pending_def buf_bytes_def
      split: bufptr.splits)

text \<open>
  How a call of the handler for the packet \<open>a\<close> ends. The kernel took a part of the rest or nothing
  for now: the packet stays, and so does the registration. It took the whole rest: the buffer is
  released, the sending thread called, and \<open>EPOLLOUT\<close> taken out of the events of the connection and,
  unless \<open>epoll_ctl\<close> fails, out of its registration. It reported an error (or 0): nothing
  was sent, the buffer is released with the rest of the packet and the sending thread called, but
  the events and the registration stay.
\<close>

definition write_goes_on :: "connptr \<Rightarrow> addr \<Rightarrow> server \<Rightarrow> server \<Rightarrow> bool" where
  "write_goes_on p a s t \<longleftrightarrow> psendMemPointer (cn t p) = Some a
     \<and> sent_to (skern t) (fd (cn s p)) @ pending (smem t) (cn t p) =
         sent_to (skern s) (fd (cn s p)) @ pending (smem s) (cn s p)
     \<and> m_semEventSendQueue t = m_semEventSendQueue s
     \<and> events (cn t p) = events (cn s p) \<and> k_epoll (skern t) = k_epoll (skern s)"

definition write_released :: "connptr \<Rightarrow> addr \<Rightarrow> server \<Rightarrow> server \<Rightarrow> bool" where
  "write_released p a s t \<longleftrightarrow> psendMemPointer (cn t p) = None \<and> live (smem t) = live (smem s) - {a}
     \<and> m_semEventSendQueue t = m_semEventSendQueue s + 1"

definition write_finished :: "connptr \<Rightarrow> addr \<Rightarrow> server \<Rightarrow> server \<Rightarrow> bool" where
  "write_finished p a s t \<longleftrightarrow> write_released p a s t
     \<and> sent_to (skern t) (fd (cn s p)) = sent_to (skern s) (fd (cn s p)) @ pending (smem s) (cn s p)
     \<and> events (cn t p) = events (cn s p) AND NOT EPOLLOUT
     \<and> k_epoll (skern t) =
         (if (k_ctl (skern s) = [] \<or> hd (k_ctl (skern s))) \<and> k_epoll (skern s) (fd (cn s p)) \<noteq> None
          then (k_epoll (skern s))(fd (cn s p) \<mapsto> (events (cn s p) AND NOT EPOLLOUT, p))
          else k_epoll (skern s))"

definition write_failed :: "connptr \<Rightarrow> addr \<Rightarrow> server \<Rightarrow> server \<Rightarrow> bool" where
  "write_failed p a s t \<longleftrightarrow> write_released p a s t
     \<and> sent_to (skern t) (fd (cn s p)) = sent_to (skern s) (fd (cn s p))
     \<and> events (cn t p) = events (cn s p) \<and> k_epoll (skern t) = k_epoll (skern s)"

lemma epoll_out_off:
  "events (cn (epoll_out 1 p s) p) = events (cn s p) AND NOT EPOLLOUT"
  "k_epoll (skern (epoll_out 1 p s)) =
     (if (k_ctl (skern s) = [] \<or> hd (k_ctl (skern s))) \<and> k_epoll (skern s) (fd (cn s p)) \<noteq> None
      then (k_epoll (skern s))(fd (cn s p) \<mapsto> (events (cn s p) AND NOT EPOLLOUT, p))
      else k_epoll (skern s))"
  by (auto simp: qc_epoll_oper_event_def sys_epoll_ctl_def Let_def new_events_def EPOLL_CTL_ADD_def EPOLL_CTL_MOD_def
      split: list.splits)

lemma write_handler_outcome:
  assumes A: "acct E s" and p: "p \<in> set (m_connectionList (spool s))"
    and ok: "send_ok (smem s) (cn s p)" and a: "psendMemPointer (cn s p) = Some a"
    and s': "s' = qc_write_request_handler p s"
  shows "acct E s'" and "send_frame p s s'" and "send_ok (smem s') (cn s' p)"
    and "m_MsgSendQueue s' = m_MsgSendQueue s \<and> m_iSendMsgQueueCount s' = m_iSendMsgQueueCount s"
    and "m_semEventSendQueue s \<le> m_semEventSendQueue s'
      \<and> (psendMemPointer (cn s' p) = None \<longrightarrow> 0 < m_semEventSendQueue s')"
    and "iSendCount (cn s' p) = iSendCount (cn s p)"
    and "stream_adds p [] s s'"
    and "write_goes_on p a s s' \<or> write_finished p a s s' \<or> write_failed p a s s'"
proof -
  have live: "a \<in> live (smem s)"
    using A p a by (intro acct_conn_live [of E s p]) (auto simp: conn_bufs_def)
  obtain off where buf: "psendbuf (cn s p) = PkgPtr a off"
    and off: "off + isendlen (cn s p) \<le> length (queued_pkg (smem s) a)"
    and n: "0 < isendlen (cn s p)" and thr: "iThrowsendCount (cn s p) = 1"
    and bok: "buf_ok (psendbuf (cn s p)) (isendlen (cn s p)) (smem s)"
    and plen: "length (pending (smem s) (cn s p)) = isendlen (cn s p)"
    by (rule send_ok_pending [OF ok a live])
  let ?n = "isendlen (cn s p)"
  have bytes: "buf_bytes (psendbuf (cn s p)) ?n (smem s) = pending (smem s) (cn s p)"
    by (simp add: pending_def a)
  obtain r K where sp: "sendproc p (psendbuf (cn s p)) ?n s = (r, s\<lparr>skern := K\<rparr>)"
    and run: "send_loop (fd (cn s p)) (buf_bytes (psendbuf (cn s p)) ?n (smem s)) (skern s) = (r, K)"
    and res: "(r \<in> {-1, -2} \<and> k_sent K = k_sent (skern s)) \<or>
      (0 \<le> r \<and> nat r \<le> ?n \<and> fd (cn s p) \<noteq> -1
       \<and> k_sent K = k_sent (skern s) @ [(fd (cn s p), take (nat r) (buf_bytes (psendbuf (cn s p)) ?n (smem s)))])"
    by (rule sendproc_eq [OF bok, of p])
  let ?s = "s\<lparr>skern := K\<rparr>"
  let ?done = "\<lambda>t. upd_cn p (\<lambda>c. c\<lparr>psendMemPointer := None, iThrowsendCount := iThrowsendCount c - 1\<rparr>)
    (free_buf (psendMemPointer (cn t p)) (sem_post t))"
  have bne: "buf_bytes (psendbuf (cn s p)) ?n (smem s) \<noteq> []" using plen n unfolding bytes by auto
  have heal: "healthy (skern s) \<Longrightarrow> fd (cn s p) \<noteq> -1 \<Longrightarrow> healthy K \<and> (r = -1 \<or> 0 < r)"
    using send_loop_healthy [OF _ _ bne run] by simp
  have others: "\<forall>sock. sock \<noteq> fd (cn s p) \<longrightarrow> sent_to K sock = sent_to (skern s) sock"
    using res by (auto simp: sent_to_def)
  have step: "s' = (if r > 0 \<and> r \<noteq> int (isendlen (cn ?s p))
      then upd_cn p (\<lambda>c. c\<lparr>psendbuf := buf_advance (nat r) (psendbuf c), isendlen := isendlen c - nat r\<rparr>) ?s
      else if r = -1 then ?s
      else ?done (if r > 0 \<and> r = int (isendlen (cn ?s p)) then epoll_out 1 p ?s else ?s))"
    unfolding s' qc_write_request_handler_def sp Let_def prod.case ..
  have nn: "isendlen (cn ?s p) = ?n" by simp
  have kf: "k_epoll K = k_epoll (skern s)" "k_ctl K = k_ctl (skern s)" using send_loop_frame [OF run] by simp_all
  have don: "acct E (?done t) \<and> send_frame p t (?done t) \<and> send_ok (smem (?done t)) (cn (?done t) p)"
    if "acct E t" "p \<in> set (m_connectionList (spool t))" "iThrowsendCount (cn t p) = 1" for t
  proof -
    have "acct E (upd_cn p (\<lambda>c. c\<lparr>psendMemPointer := None, iThrowsendCount := iThrowsendCount c - 1\<rparr>)
        (free_buf (psendMemPointer (cn (sem_post t) p)) (sem_post t)))"
      by (rule acct_release_send) (use that in simp_all)
    moreover have "send_frame p t (?done t)"
      by (rule send_frame_trans [OF send_frame_trans [OF send_frame_fields(3) send_frame_fields(2)] send_frame_upd])
        (simp add: send_erase_def)
    ultimately show ?thesis using that by (simp add: send_ok_def)
  qed
  have "r = -1 \<or> r = -2 \<or> (0 \<le> r \<and> r \<le> int ?n)" using res by (auto simp: nat_le_iff)
  then consider (all) "r = int ?n" | (part) "0 < r" "r < int ?n" | (full) "r = -1" | (fail) "r = 0 \<or> r = -2"
    by linarith
  then have "(acct E s' \<and> send_frame p s s' \<and> send_ok (smem s') (cn s' p))
    \<and> (m_MsgSendQueue s' = m_MsgSendQueue s \<and> m_iSendMsgQueueCount s' = m_iSendMsgQueueCount s)
    \<and> (m_semEventSendQueue s \<le> m_semEventSendQueue s'
        \<and> (psendMemPointer (cn s' p) = None \<longrightarrow> 0 < m_semEventSendQueue s'))
    \<and> iSendCount (cn s' p) = iSendCount (cn s p) \<and> stream_adds p [] s s'
    \<and> (write_goes_on p a s s' \<or> write_finished p a s s' \<or> write_failed p a s s')"
  proof cases
    case all
    let ?t = "epoll_out 1 p ?s"
    have "(0 < r \<and> r \<noteq> int ?n) = False" "(r = -1) = False" "(0 < r \<and> r = int ?n) = True"
      using n all by auto
    then have e: "s' = ?done ?t" by (simp only: step nn if_True if_False)
    have t: "acct E ?t" "p \<in> set (m_connectionList (spool ?t))" "iThrowsendCount (cn ?t p) = 1"
      using A p thr by simp_all
    have fr: "send_frame p s ?t" by (rule send_frame_trans [OF send_frame_fields(1) send_frame_oper])
    have "sent_to K (fd (cn s p)) = sent_to (skern s) (fd (cn s p)) @ pending (smem s) (cn s p)"
      using res all plen n unfolding bytes by (auto simp: sent_to_append)
    moreover from this have "stream_adds p [] s s'"
      using heal others by (simp add: e stream_adds_def pending_def sent_to_def healthy_def)
    moreover have "acct E s' \<and> send_frame p s s' \<and> send_ok (smem s') (cn s' p)"
      unfolding e using don [OF t] send_frame_trans [OF fr] by blast
    moreover have "write_finished p a s s'"
      using calculation(1) epoll_out_off [of ?s p]
      by (simp add: e write_finished_def write_released_def a kf sem_post_def sent_to_def)
    ultimately show ?thesis by (simp add: e)
  next
    case part
    let ?f = "\<lambda>c. c\<lparr>psendbuf := buf_advance (nat r) (psendbuf c), isendlen := isendlen c - nat r\<rparr>"
    have "(0 < r \<and> r \<noteq> int ?n) = True" using part by auto
    then have e: "s' = upd_cn p ?f ?s" by (simp only: step nn if_True)
    have "send_frame p s s'"
      unfolding e by (rule send_frame_trans [OF send_frame_fields(1) send_frame_upd]) (simp add: send_erase_def)
    moreover have "acct E s'" using A by (simp add: e acct_upd_cn conn_bufs_def)
    moreover have "send_ok (smem s') (cn s' p)"
      using part n off a thr by (simp add: e send_ok_def buf queued_pkg_def)
    moreover have "pending (smem s') (cn s' p) = drop (nat r) (pending (smem s) (cn s p))"
      by (simp add: e pending_def buf_bytes_def a buf drop_take add.commute)
    then have st: "sent_to K (fd (cn s p)) @ pending (smem s') (cn s' p) =
        sent_to (skern s) (fd (cn s p)) @ pending (smem s) (cn s p)"
      using res part unfolding bytes by (auto simp: sent_to_append)
    then have "stream_adds p [] s s'"
      using heal others by (simp add: e stream_adds_def)
    moreover have "write_goes_on p a s s'" using st a kf by (simp add: e write_goes_on_def)
    ultimately show ?thesis using a by (simp add: e)
  next
    case full
    then have "(0 < r \<and> r \<noteq> int ?n) = False" "(r = -1) = True" by auto
    then have e: "s' = ?s" by (simp only: step nn if_True if_False)
    have "k_sent K = k_sent (skern s)" using res full by simp
    then show ?thesis
      using A ok heal a kf by (simp add: e stream_adds_def sent_to_def write_goes_on_def)
  next
    case fail
    then have "(0 < r \<and> r \<noteq> int ?n) = False" "(r = -1) = False" "(0 < r \<and> r = int ?n) = False"
      using n by auto
    then have e: "s' = ?done ?s" by (simp only: step nn if_False)
    have t: "acct E ?s" "p \<in> set (m_connectionList (spool ?s))" "iThrowsendCount (cn ?s p) = 1"
      using A p thr by simp_all
    have "stream_adds p [] s s'" using fail heal others by (auto simp: e stream_adds_def)
    moreover have "acct E s' \<and> send_frame p s s' \<and> send_ok (smem s') (cn s' p)"
      unfolding e using don [OF t] send_frame_trans [OF send_frame_fields(1)] by blast
    moreover have "sent_to K (fd (cn s p)) = sent_to (skern s) (fd (cn s p))" using res fail by (auto simp: sent_to_def)
    then have "write_failed p a s s'"
      by (simp add: e write_failed_def write_released_def a kf sem_post_def)
    ultimately show ?thesis by (simp add: e)
  qed
  then show "acct E s'" and "send_frame p s s'" and "send_ok (smem s') (cn s' p)"
    and "m_MsgSendQueue s' = m_MsgSendQueue s \<and> m_iSendMsgQueueCount s' = m_iSendMsgQueueCount s"
    and "m_semEventSendQueue s \<le> m_semEventSendQueue s'
      \<and> (psendMemPointer (cn s' p) = None \<longrightarrow> 0 < m_semEventSendQueue s')"
    and "iSendCount (cn s' p) = iSendCount (cn s p)"
    and "stream_adds p [] s s'"
    and "write_goes_on p a s s' \<or> write_finished p a s s' \<or> write_failed p a s s'" by blast+
qed

end
