(* ===== verification/QcSendQueue.thy ===== *)
theory QcSendQueue
  imports QcSend
begin

text \<open>
  The round of the sending thread over the whole send queue: what every branch of the walk keeps,
  and the stream of a connection as the abstract content of its sending side.
\<close>

section \<open>The walk over the send queue\<close>

text \<open>Messages the sending thread may handle: current only for connections in use.\<close>

definition msgs_ok :: "server \<Rightarrow> addr list \<Rightarrow> bool" where
  "msgs_ok s as \<longleftrightarrow> (\<forall>a \<in> set as. pkg_ok (smem s) a \<and> (current s a \<longrightarrow> conn_of s a \<in> in_use (spool s)))"

definition conns_send_ok :: "server \<Rightarrow> bool" where
  "conns_send_ok s \<longleftrightarrow> (\<forall>p \<in> in_use (spool s). send_ok (smem s) (cn s p))"

text \<open>No two connections in use share a descriptor, and each has one.\<close>

definition fds_ok :: "server \<Rightarrow> bool" where
  "fds_ok s \<longleftrightarrow> inj_on (\<lambda>p. fd (cn s p)) (in_use (spool s)) \<and> (\<forall>p \<in> in_use (spool s). fd (cn s p) \<noteq> -1)
     \<and> (\<forall>p \<in> set (m_connectionList (spool s)) - in_use (spool s). fd (cn s p) = -1)"

definition send_frame_all :: "server \<Rightarrow> server \<Rightarrow> bool" where
  "send_frame_all s s' \<longleftrightarrow> sconf s' = sconf s \<and> stimer s' = stimer s
     \<and> m_MsgRecvQueue s' = m_MsgRecvQueue s \<and> m_iRecvMsgQueueCount s' = m_iRecvMsgQueueCount s
     \<and> pool_shape (spool s') = pool_shape (spool s)
     \<and> (\<forall>q. send_erase (cn s' q) = send_erase (cn s q)) \<and> mem_step {} (smem s) (smem s')
     \<and> (\<forall>q. q \<notin> in_use (spool s) \<longrightarrow> cn s' q = cn s q)"

lemma send_frame_all_refl [simp]: "send_frame_all s s"
  by (simp add: send_frame_all_def)

lemma send_frame_all_trans:
  assumes "send_frame_all s t" and "send_frame_all t u"
  shows "send_frame_all s u"
proof -
  have "in_use (spool t) = in_use (spool s)"
    using assms(1) by (intro pool_shapeD(6)) (simp add: send_frame_all_def)
  with assms show ?thesis unfolding send_frame_all_def by (auto intro: mem_step_trans_same)
qed

lemma send_frame_allI: "send_frame p s t \<Longrightarrow> p \<in> in_use (spool s) \<or> cn t p = cn s p \<Longrightarrow> send_frame_all s t"
  unfolding send_frame_def send_frame_all_def by metis

lemma send_frame_all_cn:
  assumes "send_frame_all s t"
  shows "cseq (cn t q) = cseq (cn s q)" "fd (cn t q) = fd (cn s q)"
    "precvMemPointer (cn t q) = precvMemPointer (cn s q)"
    "in_use (spool t) = in_use (spool s)"
    "m_connectionList (spool t) = m_connectionList (spool s)"
    "m_onlineUserCount (spool t) = m_onlineUserCount (spool s)"
    "listening (cn t q) = listening (cn s q)"
proof -
  have e: "send_erase (cn t q) = send_erase (cn s q)" and "pool_shape (spool t) = pool_shape (spool s)"
    using assms by (simp_all add: send_frame_all_def)
  note D = pool_shapeD [OF this(2)]
  show "cseq (cn t q) = cseq (cn s q)" "fd (cn t q) = fd (cn s q)"
    "precvMemPointer (cn t q) = precvMemPointer (cn s q)" "listening (cn t q) = listening (cn s q)"
    by (simp_all only: send_erase_eqD [OF e])
  show "in_use (spool t) = in_use (spool s)"
    "m_connectionList (spool t) = m_connectionList (spool s)"
    "m_onlineUserCount (spool t) = m_onlineUserCount (spool s)"
    by (simp_all only: D)
qed

text \<open>Buffers that both states account for have the same contents.\<close>

lemma acct_read_same:
  assumes "acct E s" and "acct F t" and "mem_step {} (smem s) (smem t)"
    and "a \<in># owned s + E" and "a \<in># owned t + F"
  shows "read_obj a (smem t) = read_obj a (smem s)"
  by (rule mem_step_read [OF assms(3)])
    (use assms acct_live in \<open>auto simp: acct_def\<close>)

lemma sendq_owned: "a \<in> set (m_MsgSendQueue s) \<Longrightarrow> a \<in># owned s + E"
  by (simp add: owned_def)

lemma conn_buf_owned:
  "p \<in> set (m_connectionList (spool s)) \<Longrightarrow> psendMemPointer (cn s p) = Some a \<Longrightarrow> a \<in># owned s + E"
  using pool_bufs_in [of p "spool s" a] by (simp add: owned_def conn_bufs_def)

lemma in_use_listed: "p \<in> in_use P \<Longrightarrow> p \<in> set (m_connectionList P)"
  by (simp add: in_use_def)

lemma conn_read_same:
  assumes "acct E s" and "acct F t" and fr: "send_frame_all s t" and p: "p \<in> in_use (spool s)"
    and "psendMemPointer (cn s p) = Some b" and "psendMemPointer (cn t p) = Some b"
  shows "read_obj b (smem t) = read_obj b (smem s)"
proof (rule acct_read_same [OF assms(1,2)])
  show "mem_step {} (smem s) (smem t)" using fr by (simp add: send_frame_all_def)
  show "b \<in># owned s + E" by (rule conn_buf_owned [OF in_use_listed [OF p] assms(5)])
  show "b \<in># owned t + F"
    by (rule conn_buf_owned [OF in_use_listed assms(6)]) (simp add: p send_frame_all_cn [OF fr])
qed

lemma send_ok_cong:
  assumes "send_ok m c" and "\<And>a. psendMemPointer c = Some a \<Longrightarrow> read_obj a m' = read_obj a m"
  shows "send_ok m' c" and "pending m' c = pending m c"
  using assms by (auto simp: send_ok_def pending_def buf_bytes_def split: option.splits bufptr.splits)

definition pass_inv :: "addr multiset \<Rightarrow> addr list \<Rightarrow> addr list \<Rightarrow> server \<Rightarrow> bool" where
  "pass_inv E kept rest s \<longleftrightarrow> acct E s \<and> m_MsgSendQueue s = kept @ rest
     \<and> m_iSendMsgQueueCount s = int (length (kept @ rest))
     \<and> msgs_ok s (kept @ rest) \<and> conns_send_ok s
     \<and> (\<forall>a \<in> set kept. current s a \<and> 0 < iThrowsendCount (cn s (conn_of s a)))"

text \<open>Messages keep their meaning when the frame holds and they stay in the queue.\<close>

lemma msgs_kept:
  assumes "acct E s" and "acct F t" and "send_frame_all s t"
    and "a \<in> set (m_MsgSendQueue s)" and "a \<in> set (m_MsgSendQueue t)"
  shows "queued_pkg (smem t) a = queued_pkg (smem s) a" and "hdr (smem t) a = hdr (smem s) a"
    and "current t a = current s a" and "conn_of t a = conn_of s a"
    and "msg_bytes (smem t) a = msg_bytes (smem s) a"
proof -
  have "mem_step {} (smem s) (smem t)" using assms(3) by (simp add: send_frame_all_def)
  then have r: "read_obj a (smem t) = read_obj a (smem s)"
    using assms(4,5) sendq_owned by (intro acct_read_same [OF assms(1,2)]) blast+
  then show "queued_pkg (smem t) a = queued_pkg (smem s) a" "hdr (smem t) a = hdr (smem s) a"
    and "conn_of t a = conn_of s a" "msg_bytes (smem t) a = msg_bytes (smem s) a"
    by (simp_all add: queued_pkg_def hdr_def conn_of_def msg_bytes_def)
  then show "current t a = current s a"
    by (simp add: current_def send_frame_all_cn [OF assms(3)])
qed

lemma msgs_ok_kept:
  assumes "acct E s" and "acct F t" and "send_frame_all s t" and "msgs_ok s as"
    and "set as \<subseteq> set (m_MsgSendQueue s)" and "set as \<subseteq> set (m_MsgSendQueue t)"
  shows "msgs_ok t as"
  using assms(4-6) msgs_kept [OF assms(1-3)]
  by (auto simp: msgs_ok_def pkg_ok_def send_frame_all_cn [OF assms(3)] subset_iff)

section \<open>The stream of a connection\<close>

text \<open>
  The abstract content of the sending side: what the kernel took for the descriptor, the rest of
  the packet in progress, and the queued packets of the connection in queue order.
\<close>

definition mine :: "connptr \<Rightarrow> server \<Rightarrow> addr \<Rightarrow> bool" where
  "mine p s a \<longleftrightarrow> conn_of s a = p \<and> current s a"

definition queued_bytes :: "connptr \<Rightarrow> server \<Rightarrow> addr list \<Rightarrow> bytes" where
  "queued_bytes p s as = concat (map (msg_bytes (smem s)) (filter (mine p s) as))"

definition out_stream :: "connptr \<Rightarrow> server \<Rightarrow> bytes" where
  "out_stream p s = sent_to (skern s) (fd (cn s p)) @ pending (smem s) (cn s p)
     @ queued_bytes p s (m_MsgSendQueue s)"

lemma queued_bytes_simps [simp]:
  "queued_bytes p s [] = []"
  "queued_bytes p s (as @ bs) = queued_bytes p s as @ queued_bytes p s bs"
  "queued_bytes p s (a # as) = (if mine p s a then msg_bytes (smem s) a else []) @ queued_bytes p s as"
  by (simp_all add: queued_bytes_def)

lemma queued_bytes_none: "(\<forall>a \<in> set as. \<not> mine p s a) \<Longrightarrow> queued_bytes p s as = []"
  by (simp add: queued_bytes_def filter_empty_conv)

lemma queued_bytes_kept:
  assumes "acct E s" and "acct F t" and "send_frame_all s t"
    and "set as \<subseteq> set (m_MsgSendQueue s)" and "set as \<subseteq> set (m_MsgSendQueue t)"
  shows "queued_bytes p t as = queued_bytes p s as"
proof -
  have "mine p t a = mine p s a \<and> msg_bytes (smem t) a = msg_bytes (smem s) a" if "a \<in> set as" for a
  proof -
    have "a \<in> set (m_MsgSendQueue s)" and "a \<in> set (m_MsgSendQueue t)" using that assms(4,5) by auto
    from msgs_kept [OF assms(1-3) this] show ?thesis by (simp add: mine_def)
  qed
  then have "filter (mine p t) as = filter (mine p s) as"
    and "map (msg_bytes (smem t)) (filter (mine p s) as) = map (msg_bytes (smem s)) (filter (mine p s) as)"
    by (auto intro: filter_cong)
  then show ?thesis by (simp add: queued_bytes_def del: map_eq_conv)
qed

definition streams_kept :: "server \<Rightarrow> server \<Rightarrow> bool" where
  "streams_kept s t \<longleftrightarrow> (healthy (skern s) \<and> fds_ok s \<longrightarrow>
     healthy (skern t) \<and> (\<forall>p \<in> in_use (spool s). out_stream p t = out_stream p s))"

lemma fds_ok_frame: "send_frame_all s t \<Longrightarrow> fds_ok t = fds_ok s"
  by (simp add: fds_ok_def send_frame_all_cn)

lemma streams_kept_trans:
  "streams_kept s t \<Longrightarrow> send_frame_all s t \<Longrightarrow> streams_kept t u \<Longrightarrow> streams_kept s u"
  by (simp add: streams_kept_def fds_ok_frame send_frame_all_cn)

section \<open>The three branches of the walk\<close>

lemma cn_sendq_upd [simp]:
  "current (s\<lparr>m_MsgSendQueue := q, m_iSendMsgQueueCount := n\<rparr>) a = current s a"
  "conn_of (s\<lparr>m_MsgSendQueue := q, m_iSendMsgQueueCount := n\<rparr>) a = conn_of s a"
  by (simp_all add: current_def conn_of_def)

lemma pass_drop:
  assumes I: "pass_inv E kept (a # rest) s" and stale: "\<not> current s a"
    and t: "t = free_buf (Some a) (s\<lparr>m_MsgSendQueue := kept @ rest,
      m_iSendMsgQueueCount := m_iSendMsgQueueCount s - 1\<rparr>)"
  shows "pass_inv E kept rest t \<and> send_frame_all s t \<and> streams_kept s t
    \<and> m_semEventSendQueue t = m_semEventSendQueue s"
proof -
  let ?s1 = "s\<lparr>m_MsgSendQueue := kept @ rest, m_iSendMsgQueueCount := m_iSendMsgQueueCount s - 1\<rparr>"
  have A: "acct E s" and q: "m_MsgSendQueue s = kept @ a # rest" using I by (simp_all add: pass_inv_def)
  have A1: "acct (add_mset a E) ?s1" by (rule acct_dequeue_send [OF A q])
  have At: "acct E t" unfolding t by (rule acct_free_buf) (use A1 in simp)
  have fr: "send_frame_all s t"
    unfolding t by (rule send_frame_allI [OF send_frame_trans [OF send_frame_fields(4) send_frame_fields(2)]]) simp
  have cnt: "cn t p = cn s p" "spool t = spool s" for p by (simp_all add: t)
  have tq: "m_MsgSendQueue t = kept @ rest" by (simp add: t)
  have sub: "set (kept @ rest) \<subseteq> set (m_MsgSendQueue s)" "set (kept @ rest) \<subseteq> set (m_MsgSendQueue t)"
    "set kept \<subseteq> set (m_MsgSendQueue s)" "set kept \<subseteq> set (m_MsgSendQueue t)"
    by (auto simp: q tq)
  have buf: "read_obj b (smem t) = read_obj b (smem s)"
    if "p \<in> in_use (spool s)" "psendMemPointer (cn s p) = Some b" for p b
    by (rule conn_read_same [OF A At fr that]) (simp add: cnt that)
  have so: "send_ok (smem t) (cn t p)" "pending (smem t) (cn t p) = pending (smem s) (cn s p)"
    if "p \<in> in_use (spool s)" for p
    using send_ok_cong [of "smem s" "cn s p" "smem t"] I that buf [OF that]
    by (auto simp: pass_inv_def conns_send_ok_def cnt)
  have "msgs_ok t (kept @ rest)"
    using I by (intro msgs_ok_kept [OF A At fr _ sub(1,2)]) (simp add: pass_inv_def msgs_ok_def)
  moreover have "\<forall>b \<in> set kept. current t b \<and> 0 < iThrowsendCount (cn t (conn_of t b))"
    using I sub msgs_kept [OF A At fr] by (auto simp: pass_inv_def cnt)
  ultimately have "pass_inv E kept rest t"
    using At so I by (simp add: pass_inv_def tq conns_send_ok_def cnt) (simp add: t)
  moreover have "streams_kept s t"
    using so queued_bytes_kept [OF A At fr sub(1,2)] stale
    by (simp add: streams_kept_def out_stream_def q tq cnt mine_def) (simp add: t)
  ultimately show ?thesis using fr by (simp add: t)
qed

lemma pass_keep:
  assumes I: "pass_inv E kept (a # rest) s" and "current s a" and "0 < iThrowsendCount (cn s (conn_of s a))"
  shows "pass_inv E (kept @ [a]) rest s"
  using assms by (simp add: pass_inv_def)

lemma pass_send:
  assumes I: "pass_inv E kept (a # rest) s" and cur: "current s a"
    and thr: "\<not> 0 < iThrowsendCount (cn s (conn_of s a))"
    and t: "t = send_one a (conn_of s a) (s\<lparr>m_MsgSendQueue := kept @ rest,
      m_iSendMsgQueueCount := m_iSendMsgQueueCount s - 1\<rparr>)"
  shows "pass_inv E kept rest t \<and> send_frame_all s t \<and> streams_kept s t
    \<and> m_semEventSendQueue t = m_semEventSendQueue s"
proof -
  let ?p = "conn_of s a"
  let ?s1 = "s\<lparr>m_MsgSendQueue := kept @ rest, m_iSendMsgQueueCount := m_iSendMsgQueueCount s - 1\<rparr>"
  have A: "acct E s" and q: "m_MsgSendQueue s = kept @ a # rest" and mo: "msgs_ok s (kept @ a # rest)"
    and co: "conns_send_ok s" and kp: "\<forall>b \<in> set kept. current s b \<and> 0 < iThrowsendCount (cn s (conn_of s b))"
    using I by (simp_all add: pass_inv_def)
  have p: "?p \<in> in_use (spool s)" and pkg: "pkg_ok (smem s) a"
    using mo cur by (auto simp: msgs_ok_def)
  have ok: "send_ok (smem s) (cn s ?p)" using co p by (simp add: conns_send_ok_def)
  have idle: "psendMemPointer (cn s ?p) = None"
    using ok thr by (auto simp: send_ok_def split: option.splits)
  have A1: "acct (add_mset a E) ?s1" by (rule acct_dequeue_send [OF A q])
  have out: "acct E t" "send_frame ?p ?s1 t" "send_ok (smem t) (cn t ?p)"
    "m_MsgSendQueue t = m_MsgSendQueue ?s1 \<and> m_iSendMsgQueueCount t = m_iSendMsgQueueCount ?s1
      \<and> m_semEventSendQueue t = m_semEventSendQueue ?s1"
    "stream_adds ?p (msg_bytes (smem ?s1) a) ?s1 t"
    using send_one_outcome [OF A1 _ _ _ _ t] p ok idle pkg in_use_listed [OF p] by simp_all
  have frp: "send_frame ?p s t" by (rule send_frame_trans [OF send_frame_fields(4) out(2)])
  have fr: "send_frame_all s t" by (rule send_frame_allI [OF frp disjI1 [OF p]])
  have cnq: "cn t r = cn s r" if "r \<noteq> ?p" for r using frp that by (simp add: send_frame_def)
  have iu: "in_use (spool t) = in_use (spool s)" "m_connectionList (spool t) = m_connectionList (spool s)"
    using send_frame_all_cn [OF fr] by simp_all
  have tq: "m_MsgSendQueue t = kept @ rest" using out(4) by simp
  have sub: "set (kept @ rest) \<subseteq> set (m_MsgSendQueue s)" "set (kept @ rest) \<subseteq> set (m_MsgSendQueue t)"
    by (auto simp: q tq)
  have buf: "read_obj b (smem t) = read_obj b (smem s)"
    if "r \<in> in_use (spool s)" "r \<noteq> ?p" "psendMemPointer (cn s r) = Some b" for r b
    by (rule conn_read_same [OF A out(1) fr that(1,3)]) (simp add: cnq that)
  have so: "send_ok (smem t) (cn t r)" "pending (smem t) (cn t r) = pending (smem s) (cn s r)"
    if "r \<in> in_use (spool s)" "r \<noteq> ?p" for r
    using send_ok_cong [of "smem s" "cn s r" "smem t"] co that buf [OF that]
    by (auto simp: conns_send_ok_def cnq)
  have co': "conns_send_ok t" using so out(3) by (metis conns_send_ok_def iu(1))
  have mo': "msgs_ok t (kept @ rest)"
    using mo by (intro msgs_ok_kept [OF A out(1) fr _ sub]) (simp add: msgs_ok_def)
  have notp: "conn_of s b \<noteq> ?p" if "b \<in> set kept" for b
    using kp that thr by auto
  have kp': "\<forall>b \<in> set kept. current t b \<and> 0 < iThrowsendCount (cn t (conn_of t b))"
  proof
    fix b
    assume b: "b \<in> set kept"
    then have "b \<in> set (m_MsgSendQueue s)" and "b \<in> set (m_MsgSendQueue t)" by (simp_all add: q tq)
    from msgs_kept [OF A out(1) fr this] kp b notp [OF b]
    show "current t b \<and> 0 < iThrowsendCount (cn t (conn_of t b))" by (simp add: cnq)
  qed
  have "pass_inv E kept rest t"
    using out(1,4) co' mo' kp' I by (simp add: pass_inv_def tq)
  moreover have "streams_kept s t"
    unfolding streams_kept_def
  proof (intro impI conjI ballI)
    assume hf: "healthy (skern s) \<and> fds_ok s"
    then have sock: "fd (cn s ?p) \<noteq> -1" using p by (simp add: fds_ok_def)
    have st: "sent_to (skern t) (fd (cn s ?p)) @ pending (smem t) (cn t ?p) =
        sent_to (skern s) (fd (cn s ?p)) @ pending (smem s) (cn s ?p) @ msg_bytes (smem s) a"
      and "healthy (skern t)"
      and oth: "\<And>k. k \<noteq> fd (cn s ?p) \<Longrightarrow> sent_to (skern t) k = sent_to (skern s) k"
      using out(5) hf sock by (simp_all add: stream_adds_def)
    then show "healthy (skern t)" by simp
    fix r
    assume r: "r \<in> in_use (spool s)"
    have qk: "queued_bytes r t (kept @ rest) = queued_bytes r s (kept @ rest)"
      by (rule queued_bytes_kept [OF A out(1) fr sub])
    have fdt: "fd (cn t k) = fd (cn s k)" for k using send_frame_all_cn [OF fr] by simp
    show "out_stream r t = out_stream r s"
    proof (cases "r = ?p")
      case True
      then have "queued_bytes r s kept = []"
        using notp by (intro queued_bytes_none) (auto simp: mine_def)
      then show ?thesis
        using st cur True qk by (simp add: out_stream_def q tq fdt mine_def flip: append_assoc)
    next
      case False
      then have "fd (cn s r) \<noteq> fd (cn s ?p)" using hf p r by (auto simp: fds_ok_def inj_on_def)
      then show ?thesis
        using oth so(2) [OF r False] qk False
        by (simp add: out_stream_def q tq fdt mine_def)
    qed
  qed
  ultimately show ?thesis using fr out(4) by simp
qed

section \<open>The round\<close>

lemma send_pass_inv:
  "pass_inv E kept rest s \<Longrightarrow> t = send_pass kept rest s \<Longrightarrow>
   (\<exists>left. pass_inv E left [] t) \<and> send_frame_all s t \<and> streams_kept s t
   \<and> m_semEventSendQueue t = m_semEventSendQueue s"
proof (induction kept rest s rule: send_pass.induct)
  case (1 kept s)
  then show ?case by (auto simp: streams_kept_def)
next
  case (2 kept a rest s)
  let ?s1 = "s\<lparr>m_MsgSendQueue := kept @ rest, m_iSendMsgQueueCount := m_iSendMsgQueueCount s - 1\<rparr>"
  consider "\<not> current s a" | "current s a" "0 < iThrowsendCount (cn s (conn_of s a))"
    | "current s a" "\<not> 0 < iThrowsendCount (cn s (conn_of s a))" by blast
  then show ?case
  proof cases
    case 1
    let ?u = "free_buf (Some a) ?s1"
    have step: "send_pass kept (a # rest) s = send_pass kept rest ?u"
      using 1 by (simp add: current_def conn_of_def Let_def)
    note drop = pass_drop [OF "2.prems"(1) 1 refl]
    have "(\<exists>left. pass_inv E left [] t) \<and> send_frame_all ?u t \<and> streams_kept ?u t
        \<and> m_semEventSendQueue t = m_semEventSendQueue ?u"
      using "2.IH"(1) [OF refl refl refl] 1 drop step "2.prems"(2)
      by (simp add: current_def conn_of_def)
    with drop show ?thesis
      by (metis send_frame_all_trans streams_kept_trans)
  next
    case 2
    then have "send_pass kept (a # rest) s = send_pass (kept @ [a]) rest s"
      by (simp add: current_def conn_of_def Let_def)
    with "2.IH"(2) [OF refl refl refl] 2 "2.prems" pass_keep [OF "2.prems"(1) 2]
    show ?thesis by (simp add: current_def conn_of_def)
  next
    case 3
    let ?u = "send_one a (conn_of s a) ?s1"
    have step: "send_pass kept (a # rest) s = send_pass kept rest ?u"
      using 3 by (simp add: current_def conn_of_def Let_def)
    note snd = pass_send [OF "2.prems"(1) 3 refl]
    have "(\<exists>left. pass_inv E left [] t) \<and> send_frame_all ?u t \<and> streams_kept ?u t
        \<and> m_semEventSendQueue t = m_semEventSendQueue ?u"
      using "2.IH"(3) [OF refl refl refl] 3 snd step "2.prems"(2)
      by (simp add: current_def conn_of_def)
    with snd show ?thesis
      by (metis send_frame_all_trans streams_kept_trans)
  qed
qed

lemma send_pass_start:
  assumes "acct E s" and "m_iSendMsgQueueCount s = int (length (m_MsgSendQueue s))"
    and "msgs_ok s (m_MsgSendQueue s)" and "conns_send_ok s"
  shows "pass_inv E [] (m_MsgSendQueue s) s"
  using assms by (simp add: pass_inv_def)

text \<open>One turn of the thread, with or without a semaphore to take.\<close>

lemma pass_inv_sem [simp]:
  "pass_inv E kept rest (s\<lparr>m_semEventSendQueue := n\<rparr>) = pass_inv E kept rest s"
  by (simp add: pass_inv_def msgs_ok_def conns_send_ok_def current_def conn_of_def)

lemma streams_kept_sem [simp]: "streams_kept (s\<lparr>m_semEventSendQueue := n\<rparr>) t = streams_kept s t"
proof -
  have "out_stream p (s\<lparr>m_semEventSendQueue := n\<rparr>) = out_stream p s" for p
    by (simp add: out_stream_def queued_bytes_def mine_def [abs_def] current_def conn_of_def)
  then show ?thesis by (simp add: streams_kept_def fds_ok_def)
qed

lemma send_frame_all_sem [simp]: "send_frame_all (s\<lparr>m_semEventSendQueue := n\<rparr>) t = send_frame_all s t"
  by (simp add: send_frame_all_def)

lemma send_thread_inv:
  assumes "acct E s" and "m_iSendMsgQueueCount s = int (length (m_MsgSendQueue s))"
    and "msgs_ok s (m_MsgSendQueue s)" and "conns_send_ok s"
    and run: "ServerSendQueueThread 0 intr s = Some (t, stop)"
  shows "(\<exists>left. pass_inv E left [] t) \<and> send_frame_all s t \<and> streams_kept s t"
proof -
  note start = send_pass_start [OF assms(1-4)]
  obtain s1 where s1: "sem_wait intr s = Some s1" using run
    by (cases "sem_wait intr s") (auto simp: ServerSendQueueThread_def)
  then obtain n where n: "s1 = s\<lparr>m_semEventSendQueue := n\<rparr>"
    by (cases intr) (auto simp: sem_wait_def split: if_splits intro: that [of "m_semEventSendQueue s"])
  show ?thesis
  proof (cases "m_iSendMsgQueueCount s1 > 0")
    case True
    then have "t = send_pass [] (m_MsgSendQueue s1) s1"
      using run s1 by (simp add: ServerSendQueueThread_def)
    moreover have "pass_inv E [] (m_MsgSendQueue s1) s1" using start n by simp
    ultimately show ?thesis using send_pass_inv [of E "[]" "m_MsgSendQueue s1" s1 t] n by simp
  next
    case False
    then have "t = s1" using run s1 by (simp add: ServerSendQueueThread_def)
    moreover have "m_MsgSendQueue s = []" using False assms(2) n by simp
    then have "pass_inv E [] [] s1" using start n by simp
    ultimately show ?thesis using n
      by (metis send_frame_all_refl send_frame_all_sem streams_kept_def streams_kept_sem)
  qed
qed

section \<open>The properties\<close>

text \<open>
  C25. A turn of the sending thread leaves no packet behind that could be sent: whatever stays in
  the queue is for a connection that is open and waits for the kernel to have room again. No
  buffer is lost, freed twice or read out of bounds, and the queue counter stays right.
\<close>

theorem send_round_leaves_only_throttled:
  assumes "acct E s" and "m_iSendMsgQueueCount s = int (length (m_MsgSendQueue s))"
    and "msgs_ok s (m_MsgSendQueue s)" and "conns_send_ok s"
    and "ServerSendQueueThread 0 intr s = Some (t, stop)"
  shows "acct E t \<and> conns_send_ok t \<and> m_iSendMsgQueueCount t = int (length (m_MsgSendQueue t))
    \<and> (\<forall>a \<in> set (m_MsgSendQueue t). current t a \<and> 0 < iThrowsendCount (cn t (conn_of t a)))"
  using send_thread_inv [OF assms] by (auto simp: pass_inv_def)

text \<open>
  C5. While the kernel reports no error, a turn of the sending thread preserves the outgoing byte
  stream of every connection in use: the bytes handed to the kernel, the rest of the packet in
  progress and the queued packets together are the same bytes in the same order as before,
  however the kernel cuts its writes.
\<close>

theorem send_round_preserves_streams:
  assumes "acct E s" and "m_iSendMsgQueueCount s = int (length (m_MsgSendQueue s))"
    and "msgs_ok s (m_MsgSendQueue s)" and "conns_send_ok s"
    and "ServerSendQueueThread 0 intr s = Some (t, stop)"
    and "healthy (skern s)" and "fds_ok s" and "p \<in> in_use (spool s)"
  shows "out_stream p t = out_stream p s"
  using send_thread_inv [OF assms(1-5)] assms(6-8) by (simp add: streams_kept_def)

text \<open>
  C24. The write handler goes on with a packet the kernel did not take at once. On the open
  connection of a packet \<open>a\<close> it keeps every buffer accounted for and ends in one of three ways: the
  packet is not complete, and then sent and pending bytes are together what they were and the
  registration for \<open>EPOLLOUT\<close> stays; or it is complete, and then the buffer is released, the sending
  thread woken and \<open>EPOLLOUT\<close> removed (from the registration too, unless \<open>epoll_ctl\<close> fails);
  or the kernel reports an error, and then the rest of the packet is dropped with its buffer, the
  sending thread woken and \<open>EPOLLOUT\<close> left registered. While the kernel reports no error
  (\<open>healthy\<close>) the stream of the connection, sent, pending and queued bytes, is preserved.
\<close>

theorem write_handler_correct:
  assumes "acct E s" and "p \<in> in_use (spool s)" and "conns_send_ok s" and "fds_ok s"
    and "psendMemPointer (cn s p) = Some a" and "t = qc_write_request_handler p s"
  shows "acct E t \<and> send_ok (smem t) (cn t p) \<and> m_MsgSendQueue t = m_MsgSendQueue s
    \<and> (write_goes_on p a s t \<or> write_finished p a s t \<or> write_failed p a s t)
    \<and> (healthy (skern s) \<longrightarrow> out_stream p t = out_stream p s \<and> \<not> write_failed p a s t)"
proof -
  have p: "p \<in> set (m_connectionList (spool s))" and ok: "send_ok (smem s) (cn s p)"
    using assms(2,3) by (auto simp: conns_send_ok_def in_use_def)
  have sock: "fd (cn s p) \<noteq> -1" using assms(2,4) p by (auto simp: fds_ok_def)
  note out = write_handler_outcome [OF assms(1) p ok assms(5,6)]
  have fr: "send_frame_all s t" by (rule send_frame_allI [OF out(2) disjI1 [OF assms(2)]])
  have q: "m_MsgSendQueue t = m_MsgSendQueue s" using out(4) by simp
  have qb: "queued_bytes p t (m_MsgSendQueue s) = queued_bytes p s (m_MsgSendQueue s)"
    by (rule queued_bytes_kept [OF assms(1) out(1) fr]) (simp_all add: q)
  have "healthy (skern s) \<longrightarrow> out_stream p t = out_stream p s"
    using out(7) qb sock by (simp add: out_stream_def stream_adds_def q send_frame_all_cn [OF fr]
        flip: append_assoc)
  moreover have "healthy (skern s) \<longrightarrow> \<not> write_failed p a s t"
  proof -
    have "a \<in> live (smem s)"
      using assms(1,5) p by (intro acct_conn_live [of E s p]) (auto simp: conn_bufs_def)
    then have "pending (smem s) (cn s p) \<noteq> []"
      using send_ok_pending [OF ok assms(5)] by (metis length_greater_0_conv)
    then show ?thesis
      using out(7) sock by (auto simp: stream_adds_def write_failed_def write_released_def pending_def [of "smem t"])
  qed
  ultimately show ?thesis using out q by simp
qed

text \<open>The handler on a connection whose buffer has been released.\<close>

lemma write_handler_dangling:
  assumes "psendbuf (cn s p) = PkgPtr a off" and "a \<notin> live (smem s)" and "fd (cn s p) \<noteq> -1"
    and "psendMemPointer (cn s p) = None"
  shows "BadAccess a \<in> set (mem_faults (smem (qc_write_request_handler p s)))"
proof -
  have c: "check_buf (PkgPtr a off) n (smem s) = add_fault (BadAccess a) (smem s)" for n
    using assms(2) by (simp add: check_buf_def buf_ok_def)
  obtain r K where "sendproc p (psendbuf (cn s p)) (isendlen (cn s p)) s =
      (r, s\<lparr>smem := add_fault (BadAccess a) (smem s), skern := K\<rparr>)"
    using assms(1,3) c by (cases "send_loop (fd (cn s p)) (buf_bytes (PkgPtr a off) (isendlen (cn s p)) (smem s)) (skern s)")
      (simp add: sendproc_def)
  then show ?thesis using assms(4) by (simp add: qc_write_request_handler_def Let_def add_fault_def)
qed

text \<open>
  C37. After a failed send the write handler reads released memory. When \<open>send\<close> reports an error (any but
  \<open>EAGAIN\<close> and \<open>EINTR\<close>) for the packet \<open>a\<close> of an open connection, the handler releases the buffer but
  leaves \<open>EPOLLOUT\<close> registered and \<open>psendbuf\<close> as it is. The next \<open>EPOLLOUT\<close> calls the handler
  again, and it hands the released bytes to \<open>send\<close>.
\<close>

theorem failed_send_then_reads_released:
  assumes "acct E s" and "p \<in> in_use (spool s)" and "conns_send_ok s" and "fds_ok s"
    and "psendMemPointer (cn s p) = Some a" and "k_send (skern s) = SendErr e # rest"
    and "e \<noteq> EAGAIN" and "e \<noteq> EINTR" and "t = qc_write_request_handler p s"
  shows "a \<notin> live (smem t) \<and> mem_faults (smem t) = [] \<and> psendMemPointer (cn t p) = None
    \<and> p \<in> in_use (spool t) \<and> k_epoll (skern t) = k_epoll (skern s)
    \<and> BadAccess a \<in> set (mem_faults (smem (qc_write_request_handler p t)))"
proof -
  have p: "p \<in> set (m_connectionList (spool s))" and ok: "send_ok (smem s) (cn s p)"
    using assms(2,3) by (auto simp: conns_send_ok_def in_use_def)
  have sock: "fd (cn s p) \<noteq> -1" using assms(2,4) p by (auto simp: fds_ok_def)
  have live: "a \<in> live (smem s)" using assms(1,5) p by (intro acct_conn_live [of E s p]) (auto simp: conn_bufs_def)
  obtain off where b: "psendbuf (cn s p) = PkgPtr a off" and n: "0 < isendlen (cn s p)"
    and bok: "buf_ok (psendbuf (cn s p)) (isendlen (cn s p)) (smem s)"
    by (rule send_ok_pending [OF ok assms(5) live])
  have A: "acct E t" and fr: "send_frame p s t" using write_handler_outcome(1,2) [OF assms(1) p ok assms(5,9)] .
  let ?s = "s\<lparr>skern := (skern s)\<lparr>k_send := rest\<rparr>\<rparr>"
  have "sendproc p (psendbuf (cn s p)) (isendlen (cn s p)) s = (-2, ?s)"
    using bok sock assms(6-8) by (simp add: sendproc_def check_buf_def send_loop_step sys_send_def)
  then have t: "t = upd_cn p (\<lambda>c. c\<lparr>psendMemPointer := None, iThrowsendCount := iThrowsendCount c - 1\<rparr>)
      (free_buf (Some a) (sem_post ?s))"
    using assms(5,9) by (simp add: qc_write_request_handler_def)
  have dead: "a \<notin> live (smem t)" by (simp add: t)
  have "BadAccess a \<in> set (mem_faults (smem (qc_write_request_handler p t)))"
    by (rule write_handler_dangling [of t p a off]) (use dead sock b in \<open>simp_all add: t\<close>)
  moreover have "mem_faults (smem t) = []" using A by (simp add: acct_def)
  moreover have "p \<in> in_use (spool t)" using send_frame_lists(4) [OF fr] assms(2) by simp
  ultimately show ?thesis using dead by (simp add: t sem_post_def)
qed

text \<open>A packet of eight bytes is queued for the connection of \<open>one_conn\<close>; the kernel takes three
  bytes, then none until it is asked again, then the rest.\<close>

definition demo_send :: server where
  "demo_send = one_conn
     \<lparr>smem := one_msg demo_msg, skern := quiet_kernel\<lparr>k_send := [SendAccept 3]\<rparr>, m_MsgSendQueue := [0],
      m_iSendMsgQueueCount := 1, m_semEventSendQueue := 1\<rparr>"

lemma demo_send_simps [simp]:
  "spool demo_send = spool one_conn" "m_MsgSendQueue demo_send = [0]" "m_iSendMsgQueueCount demo_send = 1"
  "skern demo_send = quiet_kernel\<lparr>k_send := [SendAccept 3]\<rparr>" "m_semEventSendQueue demo_send = 1"
  "read_obj 0 (smem demo_send) = demo_msg"
  by (simp_all add: demo_send_def)

lemma acct_demo_send: "acct {#} demo_send"
  using acct_enqueue_send [OF acct_one_msg, of 1] by (simp add: demo_send_def acct_def owned_def)

lemma demo_send_ok:
  "msgs_ok demo_send (m_MsgSendQueue demo_send)" "conns_send_ok demo_send" "fds_ok demo_send \<longleftrightarrow> fds_ok one_conn"
  by (simp_all add: msgs_ok_def pkg_ok_def queued_pkg_def demo_msg_def e_pkgLen_def load_u16_def ntohs_def
      conn_of_def hdr_def conns_send_ok_def send_ok_def GetOneToUse_def fds_ok_def)

lemma demo_round:
  "\<exists>t. ServerSendQueueThread 0 False demo_send = Some (t, False)"
  by (simp add: ServerSendQueueThread_def sem_wait_def)

theorem send_round_leaves_only_throttled_witness:
  "\<exists>t. ServerSendQueueThread 0 False demo_send = Some (t, False) \<and> acct {#} t \<and> conns_send_ok t"
  using demo_round send_round_leaves_only_throttled [OF acct_demo_send _ demo_send_ok(1,2)] by fastforce

lemma fds_ok_one_conn: "fds_ok one_conn"
  by (simp add: fds_ok_def)

theorem send_round_preserves_streams_witness:
  "\<exists>t. ServerSendQueueThread 0 False demo_send = Some (t, False)
    \<and> out_stream 0 t = out_stream 0 demo_send"
proof -
  have "healthy (skern demo_send)" by (simp add: healthy_def quiet_kernel_def)
  then show ?thesis
    using demo_round send_round_preserves_streams [OF acct_demo_send _ demo_send_ok(1,2)]
      demo_send_ok(3) fds_ok_one_conn by fastforce
qed

text \<open>The connection of \<open>demo_send\<close> after the first write: five bytes of the packet are left.\<close>

definition demo_pending :: server where
  "demo_pending = send_one 0 0 (demo_send\<lparr>m_MsgSendQueue := [], m_iSendMsgQueueCount := 0\<rparr>)"

lemma demo_pending_facts:
  "acct {#} demo_pending" "conns_send_ok demo_pending" "in_use (spool demo_pending) = {0}"
  "fds_ok demo_pending"
proof -
  let ?s = "demo_send\<lparr>m_MsgSendQueue := [], m_iSendMsgQueueCount := 0\<rparr>"
  have "acct {#0#} ?s"
    using acct_dequeue_send [OF acct_demo_send, of "[]" 0 "[]" 0] by simp
  moreover have "send_ok (smem ?s) (cn ?s 0)" "psendMemPointer (cn ?s 0) = None"
    by (simp_all add: send_ok_def GetOneToUse_def)
  moreover have "pkg_ok (smem ?s) 0"
    using demo_send_ok(1) by (simp add: msgs_ok_def)
  ultimately have out: "acct {#} demo_pending" "send_frame 0 ?s demo_pending"
    "send_ok (smem demo_pending) (cn demo_pending 0)"
    using send_one_outcome [of 0 "{#}" ?s 0 demo_pending] by (simp_all add: demo_pending_def)
  then show "acct {#} demo_pending" "in_use (spool demo_pending) = {0}"
    using send_frame_lists(4) [OF out(2)] by simp_all
  show "fds_ok demo_pending"
    using send_frame_lists(1,4) [OF out(2)] send_frame_fd [OF out(2)] demo_send_ok(3) fds_ok_one_conn
    by (simp add: fds_ok_def)
  from \<open>in_use (spool demo_pending) = {0}\<close> out(3) show "conns_send_ok demo_pending" by (simp add: conns_send_ok_def)
qed

lemma demo_pending_buf: "psendMemPointer (cn demo_pending 0) = Some 0"
proof -
  have "e_pkgLen (mb_pkg demo_msg) = 8"
    by (simp add: demo_msg_def e_pkgLen_def load_u16_def ntohs_def)
  then show ?thesis
    by (simp add: demo_pending_def send_one_def start_send_def sendproc_def buf_bytes_def
        send_loop_step sys_send_def GetOneToUse_def Let_def demo_msg_def)
qed

theorem write_handler_correct_witness:
  "\<exists>t. t = qc_write_request_handler 0 demo_pending \<and> acct {#} t \<and> send_ok (smem t) (cn t 0)"
  using write_handler_correct [OF demo_pending_facts(1) _ demo_pending_facts(2,4) demo_pending_buf refl]
    demo_pending_facts(3) by simp

text \<open>The peer of \<open>demo_pending\<close> has gone: the kernel answers the next \<open>send\<close> with an error.\<close>

definition demo_broken :: server where
  "demo_broken = demo_pending\<lparr>skern := quiet_kernel\<lparr>k_send := [SendErr EBADF]\<rparr>\<rparr>"

theorem failed_send_then_reads_released_witness:
  "\<exists>t. t = qc_write_request_handler 0 demo_broken \<and> mem_faults (smem t) = []
    \<and> BadAccess 0 \<in> set (mem_faults (smem (qc_write_request_handler 0 t)))"
proof -
  have d: "smem demo_broken = smem demo_pending" "spool demo_broken = spool demo_pending"
    "k_send (skern demo_broken) = [SendErr EBADF]"
    by (simp_all add: demo_broken_def)
  then have "acct {#} demo_broken" "conns_send_ok demo_broken" "fds_ok demo_broken"
    "psendMemPointer (cn demo_broken 0) = Some 0" "0 \<in> in_use (spool demo_broken)"
    using demo_pending_facts demo_pending_buf
    by (simp_all add: demo_broken_def acct_def owned_def conns_send_ok_def fds_ok_def)
  from failed_send_then_reads_released [OF this(1,5,2,3,4) d(3) _ _ refl] show ?thesis by simp
qed

end
