(* ===== verification/QcCrc32.thy ===== *)
theory QcCrc32
  imports QcPrelude
begin

text \<open>
  The checksum component \<open>CCRC32\<close> (misc/qc\_crc32.cc): the bit reflection, the construction of
  the lookup table and the table-driven checksum, and their correctness against the bitwise
  CRC-32 of the reflected polynomial.
\<close>

section \<open>The code\<close>

text \<open>
  \<open>Reflect\<close> swaps bit 0 with bit \<open>ch - 1\<close>, bit 1 with bit \<open>ch - 2\<close>, and so on. The loop
  variable \<open>i\<close> runs from 1 to \<open>ch\<close>; the recursion counts \<open>ch - i + 1\<close> down to 0, so the
  shift \<open>ch - i\<close> is the predecessor of the counter.
\<close>

fun Reflect_loop :: "nat \<Rightarrow> u32 \<Rightarrow> u32 \<Rightarrow> u32" where
  "Reflect_loop 0 ref value = value"
| "Reflect_loop (Suc k) ref value =
     Reflect_loop k (drop_bit 1 ref)
       (if ref AND 1 \<noteq> 0 then value OR push_bit k 1 else value)"

definition Reflect :: "u32 \<Rightarrow> nat \<Rightarrow> u32" where
  "Reflect ref ch = Reflect_loop ch ref 0"

definition ulPolynomial :: u32 where
  "ulPolynomial = 0x04c11db7"

fun Init_inner_loop :: "nat \<Rightarrow> u32 \<Rightarrow> u32" where
  "Init_inner_loop 0 x = x"
| "Init_inner_loop (Suc j) x =
     Init_inner_loop j
       (push_bit 1 x XOR (if x AND push_bit 31 1 \<noteq> 0 then ulPolynomial else 0))"

definition Init_entry :: "nat \<Rightarrow> u32" where
  "Init_entry i = Reflect (Init_inner_loop 8 (push_bit 24 (Reflect (of_nat i) 8))) 32"

definition Init_CRC32_Table :: "u32 list" where
  "Init_CRC32_Table = map Init_entry [0..<256]"

text \<open>
  \<open>Get_CRC\<close> reads \<open>dwSize\<close> bytes at \<open>buffer\<close>; the list is exactly these bytes.
\<close>

fun Get_CRC_loop :: "u32 list \<Rightarrow> u32 \<Rightarrow> bytes \<Rightarrow> u32" where
  "Get_CRC_loop tbl crc [] = crc"
| "Get_CRC_loop tbl crc (b # bs) =
     Get_CRC_loop tbl (drop_bit 8 crc XOR tbl ! unat ((crc AND 0xFF) XOR ucast b)) bs"

definition Get_CRC :: "bytes \<Rightarrow> u32" where
  "Get_CRC buffer = Get_CRC_loop Init_CRC32_Table 0xffffffff buffer XOR 0xffffffff"


section \<open>The bitwise reference\<close>

text \<open>
  One step of the reflected CRC-32 register (least significant bit first), and the checksum that
  feeds every byte through eight of them, with no table.
\<close>

definition crc_poly_reflected :: u32 where
  "crc_poly_reflected = 0xEDB88320"

definition crc_bit :: "u32 \<Rightarrow> u32" where
  "crc_bit c = drop_bit 1 c XOR (if bit c 0 then crc_poly_reflected else 0)"

definition crc_byte :: "u32 \<Rightarrow> u8 \<Rightarrow> u32" where
  "crc_byte c b = (crc_bit ^^ 8) (c XOR ucast b)"

definition crc32_bitwise :: "bytes \<Rightarrow> u32" where
  "crc32_bitwise bs = foldl crc_byte 0xffffffff bs XOR 0xffffffff"

section \<open>Reflection\<close>

lemma bit_Reflect_loop:
  assumes "k \<le> 32" and "n < 32"
  shows "bit (Reflect_loop k r v) n \<longleftrightarrow> bit v n \<or> (n < k \<and> bit r (k - 1 - n))"
  using assms
proof (induction k arbitrary: r v)
  case 0
  then show ?case by simp
next
  case (Suc k)
  have lsb: "r AND 1 \<noteq> 0 \<longleftrightarrow> bit r 0"
    by (simp add: and_one_eq bit_0 odd_iff_mod_2_eq_one)
  have "bit (Reflect_loop (Suc k) r v) n \<longleftrightarrow>
      bit (if r AND 1 \<noteq> 0 then v OR push_bit k 1 else v) n
      \<or> (n < k \<and> bit (drop_bit 1 r) (k - 1 - n))"
    using Suc.prems by (simp only: Reflect_loop.simps Suc.IH)
  also have "bit (if r AND 1 \<noteq> 0 then v OR push_bit k 1 else v) n \<longleftrightarrow>
      bit v n \<or> (n = k \<and> bit r 0)"
    using Suc.prems unfolding lsb
    by (cases "n = k") (simp_all add: bit_or_iff bit_exp_iff)
  also have "(n < k \<and> bit (drop_bit 1 r) (k - 1 - n)) \<longleftrightarrow> (n < k \<and> bit r (k - n))"
    by (cases "n < k") (simp_all add: bit_drop_bit_eq Suc_diff_Suc)
  finally show ?case
    by (cases "n = k") auto
qed

lemma bit_Reflect:
  "k \<le> 32 \<Longrightarrow> n < 32 \<Longrightarrow> bit (Reflect ref k) n \<longleftrightarrow> n < k \<and> bit ref (k - 1 - n)"
  by (simp add: Reflect_def bit_Reflect_loop)

lemma Reflect_involution: "Reflect (Reflect x 32) 32 = x"
  by (rule word_eqI_lt) (auto simp: bit_Reflect)

lemma Reflect_xor: "Reflect (x XOR y) 32 = Reflect x 32 XOR Reflect y 32"
  by (rule word_eqI_lt) (simp add: bit_Reflect bit_xor_iff)

lemma Reflect_poly: "Reflect ulPolynomial 32 = crc_poly_reflected"
  by code_simp

lemma Reflect_zero: "Reflect 0 32 = 0"
  by (rule word_eqI_lt) (simp add: bit_Reflect)

lemma Reflect_shift: "Reflect (push_bit 1 x) 32 = drop_bit 1 (Reflect x 32)"
proof (rule word_eqI_lt)
  fix n :: nat
  assume n: "n < LENGTH(32)"
  show "bit (Reflect (push_bit 1 x) 32) n = bit (drop_bit 1 (Reflect x 32)) n"
  proof (cases "n = 31")
    case True
    then show ?thesis
      by (simp only: bit_Reflect bit_drop_bit_eq)
        (auto simp: bit_push_bit_iff bit_0 dest: bit_imp_le_length)
  next
    case False
    with n have "n + 1 < 32" by simp
    with n show ?thesis
      by (simp only: bit_Reflect bit_drop_bit_eq comp_def add.commute [of 1 n])
        (auto simp only: bit_push_bit_iff, auto)
  qed
qed

lemma msb_test: "(x AND push_bit 31 1 \<noteq> 0) \<longleftrightarrow> bit (x::u32) 31"
  by (simp add: bit_iff_and_push_bit_not_eq_0)

text \<open>Reflection turns one step of the table construction into one step of the reference.\<close>

lemma Reflect_Init_inner_loop:
  "Reflect (Init_inner_loop j x) 32 = (crc_bit ^^ j) (Reflect x 32)"
proof (induction j arbitrary: x)
  case 0
  then show ?case by simp
next
  case (Suc j)
  have "Reflect (push_bit 1 x XOR (if x AND push_bit 31 1 \<noteq> 0 then ulPolynomial else 0)) 32
      = crc_bit (Reflect x 32)"
    by (simp only: msb_test Reflect_xor Reflect_shift if_distrib [of "\<lambda>w. Reflect w 32"]
        Reflect_poly Reflect_zero crc_bit_def) (simp add: bit_Reflect)
  then show ?case
    by (simp add: Suc.IH funpow_swap1)
qed

lemma Reflect_byte: "Reflect (push_bit 24 (Reflect (ucast (b::u8)) 8)) 32 = ucast b"
proof (rule word_eqI_lt)
  fix n :: nat
  assume n: "n < LENGTH(32)"
  have "bit b n \<Longrightarrow> n < 8"
    by (simp add: bit_imp_le_length [where 'a = 8, simplified])
  with n show "bit (Reflect (push_bit 24 (Reflect (ucast b) 8)) 32) n = bit (ucast b :: u32) n"
    by (cases "n < 8") (auto simp: bit_Reflect bit_push_bit_iff bit_ucast_iff)
qed

lemma of_nat_byte: "i < 256 \<Longrightarrow> (of_nat i :: u32) = ucast (of_nat i :: u8)"
  by (simp add: unsigned_of_nat take_bit_nat_eq_self)

lemma Init_entry_reference: "i < 256 \<Longrightarrow> Init_entry i = (crc_bit ^^ 8) (of_nat i)"
  unfolding Init_entry_def Reflect_Init_inner_loop of_nat_byte Reflect_byte by (rule refl)


section \<open>The table-driven checksum is the bitwise one\<close>

text \<open>
  The reference step is linear, and eight steps of it on a register whose low byte is zero only
  shift: this is what makes a 256-entry table enough.
\<close>

lemma crc_bit_xor: "crc_bit (x XOR y) = crc_bit x XOR crc_bit y"
  by (rule word_eqI_lt) (auto simp: crc_bit_def bit_xor_iff bit_drop_bit_eq)

lemma crc_bits_xor: "(crc_bit ^^ k) (x XOR y) = (crc_bit ^^ k) x XOR (crc_bit ^^ k) y"
  by (induction k) (simp_all add: crc_bit_xor)

lemma crc_bit_even: "\<not> bit x 0 \<Longrightarrow> crc_bit x = drop_bit 1 x"
  by (simp add: crc_bit_def)

lemma crc_bits_shift: "(\<And>i. i < k \<Longrightarrow> \<not> bit x i) \<Longrightarrow> (crc_bit ^^ k) x = drop_bit k x"
proof (induction k)
  case 0
  then show ?case by simp
next
  case (Suc k)
  then have "(crc_bit ^^ k) x = drop_bit k x" and "\<not> bit x k" by simp_all
  then show ?case
    by (simp add: crc_bit_even bit_drop_bit_eq)
qed

lemma unat_take_bit_8: "unat (take_bit 8 (w::u32)) < 256"
proof -
  have "unat (take_bit 8 w) < 2 ^ 8"
    by (simp only: unsigned_take_bit_eq take_bit_nat_less_exp)
  then show ?thesis by simp
qed

lemma low_byte_index:
  "unat ((crc AND 0xFF) XOR (ucast (b::u8) :: u32)) < 256
   \<and> (of_nat (unat ((crc AND 0xFF) XOR (ucast b :: u32))) :: u32)
       = take_bit 8 (crc XOR ucast b)"
proof -
  have eq: "(crc AND 0xFF) XOR (ucast b :: u32) = take_bit 8 (crc XOR ucast b)"
  proof (rule word_eqI_lt)
    fix n :: nat
    have m: "(0xFF :: u32) = mask 8" by (simp add: mask_numeral)
    have "bit b n \<Longrightarrow> n < 8" by (simp add: bit_imp_le_length [where 'a = 8, simplified])
    then show "bit ((crc AND 0xFF) XOR (ucast b :: u32)) n = bit (take_bit 8 (crc XOR ucast b)) n"
      by (auto simp: m bit_xor_iff bit_and_iff bit_mask_iff bit_take_bit_iff bit_ucast_iff)
  qed
  show ?thesis
    by (simp only: eq unat_take_bit_8 of_nat_unat ucast_id simp_thms)
qed

lemma table_step:
  "drop_bit 8 crc XOR Init_CRC32_Table ! unat ((crc AND 0xFF) XOR ucast b) = crc_byte crc b"
proof -
  let ?i = "unat ((crc AND 0xFF) XOR (ucast b :: u32))"
  let ?x = "crc XOR ucast b :: u32"
  have hi: "(crc_bit ^^ 8) (?x XOR take_bit 8 ?x) = drop_bit 8 (?x XOR take_bit 8 ?x)"
    by (rule crc_bits_shift) (simp add: bit_xor_iff bit_take_bit_iff)
  have "drop_bit 8 (?x XOR take_bit 8 ?x) = drop_bit 8 crc"
  proof (rule word_eqI_lt)
    fix n :: nat
    have "\<not> bit b (8 + n)" by (auto dest: bit_imp_le_length)
    then show "bit (drop_bit 8 (?x XOR take_bit 8 ?x)) n = bit (drop_bit 8 crc) n"
      by (auto simp: bit_drop_bit_eq bit_xor_iff bit_take_bit_iff bit_ucast_iff)
  qed
  moreover have "Init_CRC32_Table ! ?i = (crc_bit ^^ 8) (take_bit 8 ?x)"
  proof -
    have i: "?i < 256" and j: "(of_nat ?i :: u32) = take_bit 8 ?x"
      by (rule low_byte_index [THEN conjunct1], rule low_byte_index [THEN conjunct2])
    from i have "Init_CRC32_Table ! ?i = Init_entry ?i"
      by (simp add: Init_CRC32_Table_def del: of_nat_unat)
    with i j show ?thesis by (simp only: Init_entry_reference)
  qed
  moreover have "crc_byte crc b = (crc_bit ^^ 8) (?x XOR take_bit 8 ?x) XOR (crc_bit ^^ 8) (take_bit 8 ?x)"
    by (simp only: crc_byte_def crc_bits_xor [symmetric]) (simp add: xor.assoc)
  ultimately show ?thesis by (simp only: hi)
qed

lemma Get_CRC_loop_reference: "Get_CRC_loop Init_CRC32_Table crc bs = foldl crc_byte crc bs"
  by (induction bs arbitrary: crc) (simp_all add: table_step)

lemma Get_CRC_reference: "Get_CRC bs = crc32_bitwise bs"
  by (simp add: Get_CRC_def crc32_bitwise_def Get_CRC_loop_reference)

section \<open>What the checksum detects\<close>

text \<open>A step never merges two registers: the polynomial's top bit records the bit shifted out.\<close>

lemma crc_bit_zeroD: "crc_bit x = 0 \<Longrightarrow> x = 0"
proof -
  assume z: "crc_bit x = 0"
  then have "\<not> bit (crc_bit x) 31" by simp
  then have lsb: "\<not> bit x 0"
    by (auto simp: crc_bit_def crc_poly_reflected_def bit_xor_iff bit_drop_bit_eq
        split: if_splits dest: bit_imp_le_length)
  with z have s: "drop_bit 1 x = 0" by (simp add: crc_bit_def)
  show "x = 0"
  proof (rule word_eqI_lt)
    fix n :: nat
    have "bit (drop_bit 1 x) (n - 1) = False" by (simp only: s) simp
    with lsb show "bit x n = bit 0 n"
      by (cases n) (auto simp: bit_drop_bit_eq)
  qed
qed

lemma crc_bits_inj: "(crc_bit ^^ k) x = (crc_bit ^^ k) y \<longleftrightarrow> x = y"
proof
  assume "(crc_bit ^^ k) x = (crc_bit ^^ k) y"
  then have "(crc_bit ^^ k) (x XOR y) = 0" by (simp add: crc_bits_xor)
  then have "x XOR y = 0"
    by (induction k) (auto dest: crc_bit_zeroD)
  then show "x = y" by (metis xor.right_neutral xor.assoc xor_self_eq)
qed simp

lemma xor_cancel_right: "x XOR z = y XOR z \<longleftrightarrow> x = (y::'a::len word)"
  by (metis xor.assoc xor.right_neutral xor_self_eq)

lemma xor_cancel_left: "z XOR x = z XOR y \<longleftrightarrow> x = (y::'a::len word)"
  by (metis xor.commute xor_cancel_right)

lemma crc_byte_inj_state: "crc_byte c b = crc_byte c' b \<longleftrightarrow> c = c'"
  by (simp add: crc_byte_def crc_bits_inj xor_cancel_right)

lemma foldl_crc_byte_inj: "foldl crc_byte c bs = foldl crc_byte c' bs \<longleftrightarrow> c = c'"
  by (induction bs arbitrary: c c') (simp_all add: crc_byte_inj_state)


text \<open>Up to four consecutive bytes enter the register as one little-endian word.\<close>

fun crc_pack :: "bytes \<Rightarrow> u32" where
  "crc_pack [] = 0"
| "crc_pack (b # bs) = ucast b XOR push_bit 8 (crc_pack bs)"

lemma crc_pack_bound: "length bs \<le> 4 \<Longrightarrow> bit (crc_pack bs) n \<Longrightarrow> n < 8 * length bs"
proof (induction bs arbitrary: n)
  case Nil
  then show ?case by simp
next
  case (Cons b bs)
  show ?case
  proof (cases "n < 8")
    case True
    then show ?thesis by simp
  next
    case False
    with Cons.prems have "bit (crc_pack bs) (n - 8)"
      by (auto simp: bit_xor_iff bit_ucast_iff bit_push_bit_iff dest: bit_imp_le_length)
    with Cons show ?thesis by fastforce
  qed
qed

lemma crc_pack_shift: "length bs \<le> 3 \<Longrightarrow> drop_bit 8 (push_bit 8 (crc_pack bs)) = crc_pack bs"
proof (rule word_eqI_lt)
  fix n :: nat
  assume "length bs \<le> 3"
  then have "bit (crc_pack bs) n \<Longrightarrow> n < 24"
    using crc_pack_bound [of bs n] by fastforce
  then show "bit (drop_bit 8 (push_bit 8 (crc_pack bs))) n = bit (crc_pack bs) n"
    by (auto simp: bit_drop_bit_eq bit_push_bit_iff)
qed

lemma foldl_crc_byte_pack:
  "length bs \<le> 4 \<Longrightarrow> foldl crc_byte c bs = (crc_bit ^^ (8 * length bs)) (c XOR crc_pack bs)"
proof (induction bs arbitrary: c)
  case Nil
  then show ?case by simp
next
  case (Cons b bs)
  let ?d = "(crc_bit ^^ 8) (c XOR ucast b)"
  have sh: "(crc_bit ^^ 8) (push_bit 8 (crc_pack bs)) = crc_pack bs"
    using Cons.prems crc_pack_shift [of bs]
    by (subst crc_bits_shift) (simp_all add: bit_push_bit_iff)
  have "foldl crc_byte c (b # bs) = (crc_bit ^^ (8 * length bs)) (?d XOR crc_pack bs)"
    using Cons.prems Cons.IH [of ?d] by (simp add: crc_byte_def [of c b])
  also have "?d XOR crc_pack bs = (crc_bit ^^ 8) ((c XOR ucast b) XOR push_bit 8 (crc_pack bs))"
    by (simp only: crc_bits_xor sh)
  also have "(crc_bit ^^ (8 * length bs)) \<dots> = (crc_bit ^^ (8 * length bs + 8))
      ((c XOR ucast b) XOR push_bit 8 (crc_pack bs))"
    by (simp only: funpow_add comp_def)
  finally show ?case by (simp add: xor.assoc add.commute)
qed

lemma crc_pack_low_byte:
  "n < 8 \<Longrightarrow> bit (ucast (b::u8) XOR push_bit 8 w :: u32) n = bit b n"
  by (simp add: bit_xor_iff bit_ucast_iff bit_push_bit_iff)

lemma crc_pack_inj:
  "length xs = length ys \<Longrightarrow> length xs \<le> 4 \<Longrightarrow> crc_pack xs = crc_pack ys \<Longrightarrow> xs = ys"
proof (induction xs ys rule: list_induct2)
  case Nil
  then show ?case by simp
next
  case (Cons x xs y ys)
  have "x = y"
  proof (rule word_eqI_lt)
    fix n :: nat
    assume n: "n < LENGTH(8)"
    from Cons.prems have "bit (ucast x XOR push_bit 8 (crc_pack xs) :: u32) n =
        bit (ucast y XOR push_bit 8 (crc_pack ys) :: u32) n" by simp
    with n show "bit x n = bit y n" by (simp add: crc_pack_low_byte)
  qed
  have "push_bit 8 (crc_pack xs) = push_bit 8 (crc_pack ys)"
    using Cons.prems \<open>x = y\<close> by (simp only: crc_pack.simps xor_cancel_left)
  then have "drop_bit 8 (push_bit 8 (crc_pack xs)) = drop_bit 8 (push_bit 8 (crc_pack ys))"
    by (rule arg_cong)
  moreover have "length xs \<le> 3" and "length ys \<le> 3"
    using Cons.prems(1) Cons.hyps by simp_all
  ultimately have "crc_pack xs = crc_pack ys"
    by (simp only: crc_pack_shift)
  with Cons.IH Cons.prems(1) \<open>x = y\<close> show ?case by simp
qed

lemma foldl_crc_byte_burst:
  "length ys = length zs \<Longrightarrow> length ys \<le> 4 \<Longrightarrow>
   foldl crc_byte c ys = foldl crc_byte c zs \<Longrightarrow> ys = zs"
  by (rule crc_pack_inj) (simp_all add: foldl_crc_byte_pack crc_bits_inj xor_cancel_left)

lemma Get_CRC_burst:
  "length ys = length zs \<Longrightarrow> length ys \<le> 4 \<Longrightarrow>
   Get_CRC (xs @ ys @ rest) = Get_CRC (xs @ zs @ rest) \<Longrightarrow> ys = zs"
  by (rule foldl_crc_byte_burst)
    (simp_all add: Get_CRC_reference crc32_bitwise_def xor_cancel_right foldl_crc_byte_inj)

section \<open>The contract of a checksum\<close>

text \<open>
  What the packet check relies on: a change within four consecutive bytes changes the checksum.
\<close>

locale body_check =
  fixes digest :: "bytes \<Rightarrow> u32"
  assumes digest_burst: "length ys = length zs \<Longrightarrow> length ys \<le> 4 \<Longrightarrow>
    digest (xs @ ys @ rest) = digest (xs @ zs @ rest) \<Longrightarrow> ys = zs"
begin

lemma same_digest_window:
  assumes "length b = length c" and "take i b = take i c" and "drop (i + 4) b = drop (i + 4) c"
    and "digest b = digest c"
  shows "b = c"
proof -
  have split: "x = take i x @ take 4 (drop i x) @ drop (i + 4) x" for x :: bytes
    by (metis append_take_drop_id drop_drop add.commute)
  have "take 4 (drop i b) = take 4 (drop i c)"
  proof (rule digest_burst)
    show "length (take 4 (drop i b)) = length (take 4 (drop i c))" using assms(1) by simp
    show "length (take 4 (drop i b)) \<le> 4" by simp
    show "digest (take i b @ take 4 (drop i b) @ drop (i + 4) b) =
        digest (take i b @ take 4 (drop i c) @ drop (i + 4) b)"
      using assms(2-4) split [of b] split [of c] by metis
  qed
  then show ?thesis using assms(2,3) split [of b] split [of c] by metis
qed

lemma tampered_body:
  "length b = length c \<Longrightarrow> take i b = take i c \<Longrightarrow> drop (i + 4) b = drop (i + 4) c \<Longrightarrow> b \<noteq> c \<Longrightarrow>
   digest b \<noteq> digest c"
  using same_digest_window by blast

end

interpretation crc: body_check Get_CRC
  by unfold_locales (rule Get_CRC_burst)

section \<open>Properties\<close>

text \<open>
  C14. The table-driven checksum of \<open>CCRC32::Get_CRC\<close>, over the table that
  \<open>Init_CRC32_Table\<close> builds, is the bitwise CRC-32 with the reflected Ethernet polynomial, on
  every buffer.
\<close>

theorem Get_CRC_is_crc32: "Get_CRC buffer = crc32_bitwise buffer"
  by (rule Get_CRC_reference)

text \<open>
  The checksum detects every corruption confined to four consecutive bytes: two buffers that
  differ only there have different values of \<open>Get_CRC\<close>.
\<close>

theorem Get_CRC_detects_burst:
  assumes "length ys = length zs" and "length ys \<le> 4" and "ys \<noteq> zs"
  shows "Get_CRC (xs @ ys @ rest) \<noteq> Get_CRC (xs @ zs @ rest)"
  using assms Get_CRC_burst by blast

theorem Get_CRC_detects_burst_witness:
  "Get_CRC ([49] @ [50, 51] @ [52]) \<noteq> Get_CRC ([49] @ [51, 50] @ [52])"
  by (rule Get_CRC_detects_burst) simp_all

end
