(* ===== verification/QcLogic.thy ===== *)
theory QcLogic
  imports QcAccount QcCrc32
begin

text \<open>
  The business logic (service/qc\_slogic.cc, include/qc\_logiccomm.h): checking and dispatching a
  received packet, the three command handlers with the packets they send back, and what happens
  when the timer of a connection expires.
\<close>

section \<open>The code\<close>

text \<open>The command codes and the sizes of the two packed structures.\<close>

definition CMD_PING :: u16 where [simp]: "CMD_PING = 0"
definition CMD_REGISTER :: u16 where [simp]: "CMD_REGISTER = 5"
definition CMD_LOGIN :: u16 where [simp]: "CMD_LOGIN = 6"

definition STRUCT_REGISTER_size :: nat where [simp]: "STRUCT_REGISTER_size = 4 + 56 + 40"
definition STRUCT_LOGIN_size :: nat where [simp]: "STRUCT_LOGIN_size = 56 + 40"

datatype command = HandlePing | HandleRegister | HandleLogIn

definition statusHandler :: "command option list" where
  "statusHandler = [Some HandlePing, None, None, None, None, Some HandleRegister, Some HandleLogIn]"

definition AUTH_TOTAL_COMMANDS :: nat where
  "AUTH_TOTAL_COMMANDS = length statusHandler"

text \<open>The body of a packet, by the length its header announces.\<close>

definition pkg_body :: "bytes \<Rightarrow> bytes" where
  "pkg_body pkg = take (e_pkgLen pkg - m_iLenPkgHeader) (drop m_iLenPkgHeader pkg)"

text \<open>Changing the packet of a buffer in place.\<close>

definition upd_pkg :: "addr \<Rightarrow> (bytes \<Rightarrow> bytes) \<Rightarrow> server \<Rightarrow> server" where
  "upd_pkg a f s = (let b = read_obj a (smem s)
     in s\<lparr>smem := write_obj a (b\<lparr>mb_pkg := f (mb_pkg b)\<rparr>) (smem s)\<rparr>)"

text \<open>A packet to send: a buffer with the header of the received message and a packet header.\<close>

definition new_reply :: "addr \<Rightarrow> nat \<Rightarrow> u16 \<Rightarrow> server \<Rightarrow> addr \<times> server" where
  "new_reply a iSendLen code s =
     (let (r, m) = AllocMemory (m_iLenMsgHeader + m_iLenPkgHeader + iSendLen) False (smem s);
          b = read_obj r m;
          s1 = s\<lparr>smem := write_obj r (b\<lparr>mb_hdr := mb_hdr (read_obj a m)\<rparr>) m\<rparr>
      in (r, upd_pkg r
            (write_at 0 (store_u16 (htons (of_nat (m_iLenPkgHeader + iSendLen))) @ store_u16 (htons code))) s1))"

definition set_crc :: "addr \<Rightarrow> u32 \<Rightarrow> server \<Rightarrow> server" where
  "set_crc r c = upd_pkg r (write_at 4 (store_u32 c))"

definition SendNoBodyPkgToClient :: "addr \<Rightarrow> u16 \<Rightarrow> int \<Rightarrow> server \<Rightarrow> server" where
  "SendNoBodyPkgToClient a iMsgCode now s =
     (let (r, s1) = new_reply a 0 iMsgCode s in msgSend r now (set_crc r 0 s1))"

text \<open>The reply of the two account commands; its body is left as the allocator gave it.\<close>

definition send_body_reply :: "addr \<Rightarrow> nat \<Rightarrow> u16 \<Rightarrow> int \<Rightarrow> server \<Rightarrow> server" where
  "send_body_reply a iSendLen code now s =
     (let (r, s1) = new_reply a iSendLen code s;
          p_sendInfo = take iSendLen (drop m_iLenPkgHeader (mb_pkg (read_obj r (smem s1))))
      in msgSend r now (set_crc r (htonl (Get_CRC p_sendInfo)) s1))"

text \<open>
  \<open>_HandleRegister\<close>: \<open>iType\<close> is converted in place and both strings are terminated. The offsets
  are those of the packed structure behind the packet header.
\<close>

definition fix_register :: "bytes \<Rightarrow> bytes" where
  "fix_register pkg =
     (write_at m_iLenPkgHeader (store_u32 (ntohl (load_u32 (drop m_iLenPkgHeader pkg)))) pkg)
       [m_iLenPkgHeader + 4 + 55 := 0, m_iLenPkgHeader + 60 + 39 := 0]"

definition fix_login :: "bytes \<Rightarrow> bytes" where
  "fix_login pkg = pkg[m_iLenPkgHeader + 55 := 0, m_iLenPkgHeader + 56 + 39 := 0]"

definition handle_Register :: "addr \<Rightarrow> bool \<Rightarrow> nat \<Rightarrow> int \<Rightarrow> server \<Rightarrow> bool \<times> server" where
  "handle_Register a has_body iBodyLength now s =
     (if \<not> has_body then (False, s)
      else if STRUCT_REGISTER_size \<noteq> iBodyLength then (False, s)
      else (True, send_body_reply a STRUCT_REGISTER_size CMD_REGISTER now (upd_pkg a fix_register s)))"

definition handle_LogIn :: "addr \<Rightarrow> bool \<Rightarrow> nat \<Rightarrow> int \<Rightarrow> server \<Rightarrow> bool \<times> server" where
  "handle_LogIn a has_body iBodyLength now s =
     (if \<not> has_body then (False, s)
      else if STRUCT_LOGIN_size \<noteq> iBodyLength then (False, s)
      else (True, send_body_reply a STRUCT_LOGIN_size CMD_LOGIN now (upd_pkg a fix_login s)))"

definition handle_Ping :: "connptr \<Rightarrow> addr \<Rightarrow> nat \<Rightarrow> int \<Rightarrow> server \<Rightarrow> bool \<times> server" where
  "handle_Ping p a iBodyLength now s =
     (if iBodyLength \<noteq> 0 then (False, s)
      else (True, SendNoBodyPkgToClient a CMD_PING now (upd_cn p (\<lambda>c. c\<lparr>lastPingTime := now\<rparr>) s)))"

definition call_handler ::
  "command \<Rightarrow> connptr \<Rightarrow> addr \<Rightarrow> bool \<Rightarrow> nat \<Rightarrow> int \<Rightarrow> server \<Rightarrow> bool \<times> server" where
  "call_handler c p a has_body len now s =
     (case c of
        HandlePing \<Rightarrow> handle_Ping p a len now s
      | HandleRegister \<Rightarrow> handle_Register a has_body len now s
      | HandleLogIn \<Rightarrow> handle_LogIn a has_body len now s)"

text \<open>
  \<open>threadRecvProcFunc\<close>. The first part checks the checksum; with a body the field \<open>crc32\<close> is
  converted in place. \<open>None\<close> is the early return.
\<close>

definition check_crc :: "addr \<Rightarrow> server \<Rightarrow> bool option \<times> server" where
  "check_crc a s =
     (let pkg = mb_pkg (read_obj a (smem s)); h = load_header pkg
      in if m_iLenPkgHeader = e_pkgLen pkg
         then (if crc32 h \<noteq> 0 then (None, s) else (Some False, s))
         else
           let s1 = set_crc a (ntohl (crc32 h)) s;
               calccrc = Get_CRC (pkg_body pkg)
           in if calccrc \<noteq> ntohl (crc32 h) then (None, s1) else (Some True, s1))"

definition threadRecvProcFunc :: "addr \<Rightarrow> int \<Rightarrow> server \<Rightarrow> server" where
  "threadRecvProcFunc a now s =
     (case check_crc a s of
        (None, s1) \<Rightarrow> s1
      | (Some has_body, s1) \<Rightarrow>
          (let pkg = mb_pkg (read_obj a (smem s1));
               imsgCode = unat (ntohs (msgCode (load_header pkg)));
               h = hdr (smem s1) a;
               p = pConn h
           in if cseq (cn s1 p) \<noteq> iCurrsequence h then s1
              else if imsgCode \<ge> AUTH_TOTAL_COMMANDS then s1
              else (case statusHandler ! imsgCode of
                      None \<Rightarrow> s1
                    | Some c \<Rightarrow>
                        snd (call_handler c p a has_body (e_pkgLen pkg - m_iLenPkgHeader) now s1))))"

text \<open>The job of a pool thread: take the first packet, process it, release it.\<close>

definition worker_job :: "int \<Rightarrow> server \<Rightarrow> server" where
  "worker_job now s =
     (case m_MsgRecvQueue s of
        [] \<Rightarrow> s
      | a # as \<Rightarrow>
          free_buf (Some a)
            (threadRecvProcFunc a now
               (s\<lparr>m_MsgRecvQueue := as, m_iRecvMsgQueueCount := m_iRecvMsgQueueCount s - 1\<rparr>)))"

text \<open>The expiry of a timer (\<open>procPingTimeOutChecking\<close> of \<open>CLogicSocket\<close>).\<close>

definition procPingTimeOutChecking :: "addr \<Rightarrow> int \<Rightarrow> server \<Rightarrow> server" where
  "procPingTimeOutChecking a cur_time s =
     (let h = hdr (smem s) a; p = pConn h; cf = m_timerconf (sconf s)
      in if iCurrsequence h = cseq (cn s p)
         then free_buf (Some a)
                (if m_ifTimeOutKick cf = 1 then zdClosesocketProc p cur_time s
                 else if cur_time - lastPingTime (cn s p) > m_iWaitTime cf * 3 + 10
                      then zdClosesocketProc p cur_time s
                 else s)
         else free_buf (Some a) s)"

text \<open>
  One round of \<open>ServerTimerQueueMonitorThread\<close>: the expired headers are collected under the
  mutex, then checked one by one. \<open>None\<close>: the collecting loop does not end.
\<close>

definition ServerTimerQueueMonitorThread :: "int \<Rightarrow> server \<Rightarrow> server option" where
  "ServerTimerQueueMonitorThread cur_time s =
     (case monitor_collect (m_timerconf (sconf s)) cur_time (stimer s, smem s) of
        None \<Rightarrow> None
      | Some (idle, T, m) \<Rightarrow>
          Some (fold (\<lambda>a. procPingTimeOutChecking a cur_time) idle (s\<lparr>stimer := T, smem := m\<rparr>)))"

section \<open>Replies\<close>

lemma reply_layout:
  "m_iLenPkgHeader \<le> length b \<Longrightarrow>
   write_at 4 (store_u32 c) (write_at 0 (store_u16 l @ store_u16 k) b) =
     store_header \<lparr>pkgLen = l, msgCode = k, crc32 = c\<rparr> @ drop m_iLenPkgHeader b"
  by (simp add: write_at_def store_header_def)

lemma upd_pkg_simps [simp]:
  "sconf (upd_pkg a f s) = sconf s" "spool (upd_pkg a f s) = spool s" "stimer (upd_pkg a f s) = stimer s"
  "skern (upd_pkg a f s) = skern s" "m_MsgSendQueue (upd_pkg a f s) = m_MsgSendQueue s"
  "m_iSendMsgQueueCount (upd_pkg a f s) = m_iSendMsgQueueCount s"
  "m_MsgRecvQueue (upd_pkg a f s) = m_MsgRecvQueue s"
  "m_iRecvMsgQueueCount (upd_pkg a f s) = m_iRecvMsgQueueCount s"
  "m_semEventSendQueue (upd_pkg a f s) = m_semEventSendQueue s"
  "m_iDiscardSendPkgCount (upd_pkg a f s) = m_iDiscardSendPkgCount s"
  "live (smem (upd_pkg a f s)) = live (smem s)" "closable (upd_pkg a f s) p = closable s p"
  by (simp_all add: upd_pkg_def Let_def closable_def)

lemma upd_pkg_fill: "mem_fill (smem (upd_pkg a f s)) = mem_fill (smem s)"
  by (simp add: upd_pkg_def Let_def write_obj_def add_fault_def)

lemma upd_pkg_read:
  "a \<in> live (smem s) \<Longrightarrow> hdr (smem (upd_pkg a f s)) b = hdr (smem s) b"
  "a \<in> live (smem s) \<Longrightarrow> queued_pkg (smem (upd_pkg a f s)) a = f (queued_pkg (smem s) a)"
  "b \<noteq> a \<Longrightarrow> read_obj b (smem (upd_pkg a f s)) = read_obj b (smem s)"
  by (cases "b = a") (simp_all add: upd_pkg_def Let_def hdr_def queued_pkg_def)

lemma acct_upd_pkg: "a \<in> live (smem s) \<Longrightarrow> acct E (upd_pkg a f s) = acct E s"
  by (simp add: upd_pkg_def Let_def acct_write)

lemma mem_step_upd_pkg [simp]: "mem_step {a} (smem s) (smem (upd_pkg a f s))"
  by (simp add: upd_pkg_def Let_def mem_step_write)

lemma new_reply_spec:
  assumes A: "acct E s" and a: "a \<in> live (smem s)" and nr: "new_reply a n code s = (r, s1)"
  shows "acct (add_mset r E) s1" and "r = mem_next (smem s)" and "r \<in> live (smem s1)"
    and "s1 = s\<lparr>smem := smem s1\<rparr>" and "mem_step {} (smem s) (smem s1)"
    and "hdr (smem s1) r = hdr (smem s) a"
    and "\<exists>b. length b = m_iLenPkgHeader + n
      \<and> drop m_iLenPkgHeader b = map (mem_fill (smem s) r) [m_iLenPkgHeader..<m_iLenPkgHeader + n]
      \<and> queued_pkg (smem s1) r =
          write_at 0 (store_u16 (htons (of_nat (m_iLenPkgHeader + n))) @ store_u16 (htons code)) b"
proof -
  obtain m where m: "m = snd (AllocMemory (m_iLenMsgHeader + m_iLenPkgHeader + n) False (smem s))"
    by simp
  let ?m = m
  let ?r = "mem_next (smem s)"
  let ?b = "read_obj ?r ?m"
  let ?t = "s\<lparr>smem := write_obj ?r (?b\<lparr>mb_hdr := mb_hdr (read_obj a ?m)\<rparr>) ?m\<rparr>"
  have al: "AllocMemory (m_iLenMsgHeader + m_iLenPkgHeader + n) False (smem s) = (?r, ?m)"
    by (metis m fst_AllocMemory prod.collapse)
  have "(?r, upd_pkg ?r
      (write_at 0 (store_u16 (htons (of_nat (m_iLenPkgHeader + n))) @ store_u16 (htons code))) ?t) = (r, s1)"
    using nr by (simp only: new_reply_def al Let_def prod.case)
  then have r: "r = ?r" and s1: "s1 = upd_pkg ?r
      (write_at 0 (store_u16 (htons (of_nat (m_iLenPkgHeader + n))) @ store_u16 (htons code))) ?t"
    by (auto simp only: prod.inject)
  have "?r \<notin> live (smem s)" using A mem_next_fresh by (auto simp: acct_def)
  then have ne: "a \<noteq> ?r" using a by auto
  have live: "?r \<in> live (smem ?t)" by (simp add: m)
  have lm: "?r \<in> live m" by (simp add: m)
  have ra: "read_obj a m = read_obj a (smem s)"
    using mem_step_read [of "{}" "smem s" m a] A a by (simp add: acct_def m)
  have b: "length (mb_pkg ?b) = m_iLenPkgHeader + n"
    "drop m_iLenPkgHeader (mb_pkg ?b) = map (mem_fill (smem s) ?r) [m_iLenPkgHeader..<m_iLenPkgHeader + n]"
    by (simp_all add: m AllocMemory_def Let_def read_obj_def drop_map)
  show "r = mem_next (smem s)" by (rule r)
  show "r \<in> live (smem s1)" by (simp add: r s1 m)
  show "s1 = s\<lparr>smem := smem s1\<rparr>" by (simp add: s1 upd_pkg_def Let_def)
  show "acct (add_mset r E) s1"
    using acct_alloc [OF A al] acct_write [of ?r "s\<lparr>smem := ?m\<rparr>"]
    unfolding r s1 acct_upd_pkg [OF live] by (simp add: m)
  have "mem_step {?r} (smem s) (smem ?t)"
    using mem_step_trans_same [OF mem_step_Alloc mem_step_write] by (simp add: m)
  from mem_step_trans_same [OF this mem_step_upd_pkg] show "mem_step {} (smem s) (smem s1)"
    unfolding s1 by (rule mem_step_fresh) simp
  show "hdr (smem s1) r = hdr (smem s) a"
    unfolding r s1 upd_pkg_read(1) [OF live] using ra lm by (simp add: hdr_def)
  show "\<exists>b. length b = m_iLenPkgHeader + n
      \<and> drop m_iLenPkgHeader b = map (mem_fill (smem s) r) [m_iLenPkgHeader..<m_iLenPkgHeader + n]
      \<and> queued_pkg (smem s1) r =
          write_at 0 (store_u16 (htons (of_nat (m_iLenPkgHeader + n))) @ store_u16 (htons code)) b"
    unfolding r s1 upd_pkg_read(2) [OF live] using b
    by (intro exI [of _ "mb_pkg ?b"]) (simp add: queued_pkg_def lm)
qed

text \<open>
  What a client may expect of a packet: the announced length is the real one, the code is the
  command, and the checksum is that of the body (0 without one).
\<close>

definition good_packet :: "u16 \<Rightarrow> bytes \<Rightarrow> bytes \<Rightarrow> bool" where
  "good_packet code body pkg \<longleftrightarrow> length pkg = m_iLenPkgHeader + length body
     \<and> e_pkgLen pkg = length pkg \<and> ntohs (msgCode (load_header pkg)) = code
     \<and> drop m_iLenPkgHeader pkg = body
     \<and> ntohl (crc32 (load_header pkg)) = (if body = [] then 0 else Get_CRC body)"

lemma good_packetI:
  assumes "m_iLenPkgHeader + length body < 65536"
    and "pkg = store_header \<lparr>pkgLen = htons (of_nat (m_iLenPkgHeader + length body)), msgCode = htons code,
      crc32 = htonl (if body = [] then 0 else Get_CRC body)\<rparr> @ body"
  shows "good_packet code body pkg"
proof -
  have "unat (of_nat (m_iLenPkgHeader + length body) :: u16) = m_iLenPkgHeader + length body"
    using assms(1) by (subst unat_of_nat) simp
  then have "e_pkgLen pkg = m_iLenPkgHeader + length body"
    unfolding assms(2) e_pkgLen_store_header .
  then show ?thesis using assms(2) by (simp add: good_packet_def)
qed

text \<open>What the two kinds of reply hand to \<open>msgSend\<close>.\<close>

lemma reply_spec:
  assumes A: "acct E s" and a: "a \<in> live (smem s)" and n: "m_iLenPkgHeader + n < 65536"
    and nr: "new_reply a n code s = (r, s1)"
    and c: "c = htonl (if n = 0 then 0 else
      Get_CRC (take n (drop m_iLenPkgHeader (mb_pkg (read_obj r (smem s1))))))"
  shows "acct (add_mset r E) (set_crc r c s1)" and "hdr (smem (set_crc r c s1)) r = hdr (smem s) a"
    and "good_packet code (map (mem_fill (smem s) r) [m_iLenPkgHeader..<m_iLenPkgHeader + n])
      (queued_pkg (smem (set_crc r c s1)) r)"
    and "mem_step {} (smem s) (smem (set_crc r c s1))"
    and "set_crc r c s1 = s\<lparr>smem := smem (set_crc r c s1)\<rparr>" and "r \<notin> live (smem s)"
proof -
  note nr' = new_reply_spec [OF A a nr]
  obtain b where b: "length b = m_iLenPkgHeader + n"
    "drop m_iLenPkgHeader b = map (mem_fill (smem s) r) [m_iLenPkgHeader..<m_iLenPkgHeader + n]"
    "queued_pkg (smem s1) r =
        write_at 0 (store_u16 (htons (of_nat (m_iLenPkgHeader + n))) @ store_u16 (htons code)) b"
    using nr'(7) by blast
  show "acct (add_mset r E) (set_crc r c s1)"
    using nr'(1,3) by (simp add: set_crc_def acct_upd_pkg)
  show "hdr (smem (set_crc r c s1)) r = hdr (smem s) a"
    unfolding set_crc_def upd_pkg_read(1) [OF nr'(3)] by (rule nr'(6))
  have "mem_step {r} (smem s) (smem (set_crc r c s1))"
    unfolding set_crc_def
    using mem_step_trans [OF nr'(5) mem_step_upd_pkg] by simp
  then show "mem_step {} (smem s) (smem (set_crc r c s1))"
    by (rule mem_step_fresh) (simp add: nr'(2))
  show "set_crc r c s1 = s\<lparr>smem := smem (set_crc r c s1)\<rparr>"
    by (subst nr'(4)) (simp add: set_crc_def upd_pkg_def Let_def)
  show "r \<notin> live (smem s)" using A mem_next_fresh nr'(2) by (auto simp: acct_def)
  have body: "drop m_iLenPkgHeader (queued_pkg (smem s1) r) = drop m_iLenPkgHeader b"
    using b(1) by (simp add: b(3) write_at_def)
  have pkg: "queued_pkg (smem (set_crc r c s1)) r =
      store_header \<lparr>pkgLen = htons (of_nat (m_iLenPkgHeader + n)), msgCode = htons code, crc32 = c\<rparr>
        @ drop m_iLenPkgHeader b"
    unfolding set_crc_def upd_pkg_read(2) [OF nr'(3)] b(3) by (rule reply_layout) (simp add: b(1))
  have "take n (drop m_iLenPkgHeader (mb_pkg (read_obj r (smem s1)))) = drop m_iLenPkgHeader b"
    using body b(1) by (simp add: queued_pkg_def)
  then have "c = htonl (if drop m_iLenPkgHeader b = [] then 0 else Get_CRC (drop m_iLenPkgHeader b))"
    using c b(1) by simp
  then show "good_packet code (map (mem_fill (smem s) r) [m_iLenPkgHeader..<m_iLenPkgHeader + n])
      (queued_pkg (smem (set_crc r c s1)) r)"
    unfolding pkg b(2) [symmetric] using n b(1) by (intro good_packetI) simp_all
qed

text \<open>A reply in hand: a new buffer with a good packet for the connection of the request.\<close>

definition reply_ready :: "addr multiset \<Rightarrow> u16 \<Rightarrow> bytes \<Rightarrow> addr \<Rightarrow> server \<Rightarrow> addr \<Rightarrow> server \<Rightarrow> bool" where
  "reply_ready E code body a s r s1 \<longleftrightarrow> acct (add_mset r E) s1 \<and> hdr (smem s1) r = hdr (smem s) a
     \<and> good_packet code body (queued_pkg (smem s1) r) \<and> mem_step {} (smem s) (smem s1)
     \<and> s1 = s\<lparr>smem := smem s1\<rparr> \<and> r \<notin> live (smem s)"

text \<open>The bytes the allocator left in the body of a reply.\<close>

abbreviation stale_body :: "server \<Rightarrow> addr \<Rightarrow> nat \<Rightarrow> bytes" where
  "stale_body s r n \<equiv> map (mem_fill (smem s) r) [m_iLenPkgHeader..<m_iLenPkgHeader + n]"

lemma SendNoBody_reply:
  assumes "acct E s" and "a \<in> live (smem s)"
  shows "\<exists>r s1. reply_ready E code [] a s r s1 \<and> SendNoBodyPkgToClient a code now s = msgSend r now s1"
proof -
  obtain r s1 where nr: "new_reply a 0 code s = (r, s1)" by fastforce
  have "ntohl 0 = 0" by (simp add: ntohl_def)
  then have "reply_ready E code [] a s r (set_crc r 0 s1)"
    using reply_spec [OF assms _ nr, of 0] unfolding reply_ready_def by simp
  then show ?thesis by (auto simp: SendNoBodyPkgToClient_def nr)
qed

lemma send_body_reply_ready:
  assumes "acct E s" and "a \<in> live (smem s)" and "0 < n" and "m_iLenPkgHeader + n < 65536"
  shows "\<exists>r s1. reply_ready E code (stale_body s r n) a s r s1
    \<and> send_body_reply a n code now s = msgSend r now s1"
proof -
  obtain r s1 where nr: "new_reply a n code s = (r, s1)" by fastforce
  let ?c = "htonl (Get_CRC (take n (drop m_iLenPkgHeader (mb_pkg (read_obj r (smem s1))))))"
  have "reply_ready E code (stale_body s r n) a s r (set_crc r ?c s1)"
    using reply_spec [OF assms(1,2,4) nr, of ?c] assms(3) unfolding reply_ready_def by simp
  then show ?thesis by (auto simp: send_body_reply_def nr)
qed

text \<open>
  The three handlers in one form: the code and the body size of a command, and what its handler
  does before it replies.
\<close>

fun cmd_code :: "command \<Rightarrow> u16" where
  "cmd_code HandlePing = CMD_PING"
| "cmd_code HandleRegister = CMD_REGISTER"
| "cmd_code HandleLogIn = CMD_LOGIN"

fun cmd_size :: "command \<Rightarrow> nat" where
  "cmd_size HandlePing = 0"
| "cmd_size HandleRegister = STRUCT_REGISTER_size"
| "cmd_size HandleLogIn = STRUCT_LOGIN_size"

fun cmd_pre :: "command \<Rightarrow> connptr \<Rightarrow> addr \<Rightarrow> int \<Rightarrow> server \<Rightarrow> server" where
  "cmd_pre HandlePing p a now s = upd_cn p (\<lambda>c. c\<lparr>lastPingTime := now\<rparr>) s"
| "cmd_pre HandleRegister p a now s = upd_pkg a fix_register s"
| "cmd_pre HandleLogIn p a now s = upd_pkg a fix_login s"

lemma statusHandler_cmd_code: "statusHandler ! unat (cmd_code c) = Some c" "unat (cmd_code c) < AUTH_TOTAL_COMMANDS"
  by (cases c; simp add: statusHandler_def AUTH_TOTAL_COMMANDS_def)+

lemma statusHandler_SomeD: "statusHandler ! n = Some c \<Longrightarrow> n < AUTH_TOTAL_COMMANDS \<Longrightarrow> n = unat (cmd_code c)"
  by (cases c; auto simp: statusHandler_def AUTH_TOTAL_COMMANDS_def nth_Cons' split: if_splits)

lemma call_handler_wrong_size:
  "n \<noteq> cmd_size c \<Longrightarrow> call_handler c p a has_body n now s = (False, s)"
  by (cases c) (simp_all add: call_handler_def handle_Ping_def handle_Register_def handle_LogIn_def)

lemma acct_cmd_pre: "a \<in> live (smem s) \<Longrightarrow> acct E (cmd_pre c p a now s) = acct E s"
  by (cases c) (simp_all add: acct_upd_pkg acct_upd_cn conn_bufs_def)

lemma cmd_pre_simps [simp]:
  "live (smem (cmd_pre c p a now s)) = live (smem s)" "closable (cmd_pre c p a now s) q = closable s q"
  "m_MsgSendQueue (cmd_pre c p a now s) = m_MsgSendQueue s"
  "m_MsgRecvQueue (cmd_pre c p a now s) = m_MsgRecvQueue s"
  "m_iSendMsgQueueCount (cmd_pre c p a now s) = m_iSendMsgQueueCount s"
  "m_iRecvMsgQueueCount (cmd_pre c p a now s) = m_iRecvMsgQueueCount s"
  "iSendCount (cn (cmd_pre c p a now s) q) = iSendCount (cn s q)"
  "mem_fill (smem (cmd_pre c p a now s)) = mem_fill (smem s)"
  by (cases c; simp add: upd_pkg_fill)+

lemma cmd_pre_hdr: "a \<in> live (smem s) \<Longrightarrow> hdr (smem (cmd_pre c p a now s)) b = hdr (smem s) b"
  by (cases c) (simp_all add: upd_pkg_read)

lemma call_handler_reply:
  assumes A: "acct E s" and a: "a \<in> live (smem s)" and hb: "has_body \<longleftrightarrow> cmd_size c \<noteq> 0"
  shows "\<exists>r s1. reply_ready E (cmd_code c) (stale_body s r (cmd_size c)) a (cmd_pre c p a now s) r s1
    \<and> call_handler c p a has_body (cmd_size c) now s = (True, msgSend r now s1)"
proof -
  let ?t = "cmd_pre c p a now s"
  have t: "acct E ?t" "a \<in> live (smem ?t)" using A a by (simp_all add: acct_cmd_pre)
  have body: "\<exists>r s1. reply_ready E k (stale_body s r n) a ?t r s1
      \<and> send_body_reply a n k now ?t = msgSend r now s1" if "0 < n" and "n \<le> 1000" for n k
    using send_body_reply_ready [OF t, of n k now] that by simp
  show ?thesis
  proof (cases c)
    case HandlePing
    with SendNoBody_reply [OF t, of CMD_PING now] show ?thesis
      by (simp add: call_handler_def handle_Ping_def)
  next
    case HandleRegister
    with body [of STRUCT_REGISTER_size CMD_REGISTER] hb show ?thesis
      by (simp add: call_handler_def handle_Register_def)
  next
    case HandleLogIn
    with body [of STRUCT_LOGIN_size CMD_LOGIN] hb show ?thesis
      by (simp add: call_handler_def handle_LogIn_def)
  qed
qed

section \<open>Checking a packet\<close>

text \<open>Storing the checksum keeps the rest of the header.\<close>

lemma set_crc_header:
  assumes "m_iLenPkgHeader \<le> length pkg"
  shows "e_pkgLen (write_at 4 (store_u32 c) pkg) = e_pkgLen pkg"
    and "msgCode (load_header (write_at 4 (store_u32 c) pkg)) = msgCode (load_header pkg)"
proof -
  have w: "write_at 4 (store_u32 c) pkg = take 4 pkg @ store_u32 c @ drop 8 pkg"
    by (simp add: write_at_def)
  have "e_pkgLen (take 4 pkg @ store_u32 c @ drop 8 pkg) = e_pkgLen (take 4 pkg)"
    using assms by (intro e_pkgLen_append) simp
  then show "e_pkgLen (write_at 4 (store_u32 c) pkg) = e_pkgLen pkg" by (simp add: w)
  have "load_u16 (drop 2 (take 4 pkg) @ store_u32 c @ drop 8 pkg) = load_u16 (drop 2 (take 4 pkg))"
    using assms by (intro load_u16_append) simp
  moreover have "load_u16 (drop 2 (take 4 pkg)) = load_u16 (drop 2 pkg)"
    by (metis drop_take load_u16_take order_refl diff_add_inverse2 numeral_Bit0)
  ultimately show "msgCode (load_header (write_at 4 (store_u32 c) pkg)) = msgCode (load_header pkg)"
    using assms by (simp add: w load_header_def)
qed

lemma check_crc_state:
  assumes "a \<in> live (smem s)" and "m_iLenPkgHeader \<le> length (queued_pkg (smem s) a)"
    and "s1 = snd (check_crc a s)"
  shows "s1 = s\<lparr>smem := smem s1\<rparr>" and "acct E s1 = acct E s" and "hdr (smem s1) b = hdr (smem s) b"
    and "live (smem s1) = live (smem s)" and "mem_fill (smem s1) = mem_fill (smem s)"
    and "mem_step {a} (smem s) (smem s1)"
    and "e_pkgLen (queued_pkg (smem s1) a) = e_pkgLen (queued_pkg (smem s) a)"
    and "msgCode (load_header (queued_pkg (smem s1) a)) = msgCode (load_header (queued_pkg (smem s) a))"
proof -
  consider "s1 = s" | c where "s1 = set_crc a c s"
    using assms(3) by (auto simp: check_crc_def Let_def split: if_splits)
  then have "s1 = s\<lparr>smem := smem s1\<rparr> \<and> acct E s1 = acct E s \<and> hdr (smem s1) b = hdr (smem s) b
    \<and> live (smem s1) = live (smem s) \<and> mem_fill (smem s1) = mem_fill (smem s)
    \<and> mem_step {a} (smem s) (smem s1)
    \<and> e_pkgLen (queued_pkg (smem s1) a) = e_pkgLen (queued_pkg (smem s) a)
    \<and> msgCode (load_header (queued_pkg (smem s1) a)) = msgCode (load_header (queued_pkg (smem s) a))"
  proof cases
    case 1 then show ?thesis by simp
  next
    case 2
    have "set_crc a c s = s\<lparr>smem := smem (set_crc a c s)\<rparr>"
      by (simp add: set_crc_def upd_pkg_def Let_def)
    with 2 assms(1,2) show ?thesis
      by (simp add: set_crc_def acct_upd_pkg upd_pkg_read(1,2) upd_pkg_fill set_crc_header)
  qed
  then show "s1 = s\<lparr>smem := smem s1\<rparr>" and "acct E s1 = acct E s" and "hdr (smem s1) b = hdr (smem s) b"
    and "live (smem s1) = live (smem s)" and "mem_fill (smem s1) = mem_fill (smem s)"
    and "mem_step {a} (smem s) (smem s1)"
    and "e_pkgLen (queued_pkg (smem s1) a) = e_pkgLen (queued_pkg (smem s) a)"
    and "msgCode (load_header (queued_pkg (smem s1) a)) = msgCode (load_header (queued_pkg (smem s) a))"
    by blast+
qed

text \<open>The check accepts exactly the good packets.\<close>

lemma check_crc_iff:
  assumes "pkg = queued_pkg (smem s) a" and "e_pkgLen pkg = length pkg" and "m_iLenPkgHeader \<le> length pkg"
  shows "fst (check_crc a s) =
    (if good_packet (ntohs (msgCode (load_header pkg))) (drop m_iLenPkgHeader pkg) pkg
     then Some (drop m_iLenPkgHeader pkg \<noteq> []) else None)"
proof -
  have body: "pkg_body pkg = drop m_iLenPkgHeader pkg" using assms(2) by (simp add: pkg_body_def)
  have z: "ntohl w = 0 \<longleftrightarrow> w = 0" for w
    by (metis ntohl_ntohl bit_0_eq bot_apply bit_word_eqI ntohl_def and_zero_eq take_bit_of_0 drop_bit_of_0 push_bit_of_0 or.right_neutral)
  show ?thesis
    using assms body by (auto simp: check_crc_def Let_def good_packet_def queued_pkg_def [symmetric] z)
qed

section \<open>A received packet\<close>

text \<open>What a pool thread takes from the receive queue: a complete packet of some connection.\<close>

definition complete_pkg :: "memory \<Rightarrow> addr \<Rightarrow> bool" where
  "complete_pkg m a \<longleftrightarrow> m_iLenPkgHeader \<le> length (queued_pkg m a)
     \<and> e_pkgLen (queued_pkg m a) = length (queued_pkg m a)"

text \<open>The requests the server answers: a good packet of a known command with a body of its size.\<close>

definition request :: "command \<Rightarrow> bytes \<Rightarrow> bool" where
  "request c pkg \<longleftrightarrow> (\<exists>body. good_packet (cmd_code c) body pkg \<and> length body = cmd_size c)"

lemma request_complete: "request c (queued_pkg m a) \<Longrightarrow> complete_pkg m a"
  by (auto simp: request_def good_packet_def complete_pkg_def)

lemma threadRecv_request:
  assumes A: "acct E s" and a: "a \<in> live (smem s)" and req: "request c (queued_pkg (smem s) a)"
    and cur: "current s a"
  shows "\<exists>r s1 s2. s1 = s\<lparr>smem := smem s1\<rparr> \<and> mem_fill (smem s1) = mem_fill (smem s)
    \<and> live (smem s1) = live (smem s) \<and> acct E s1 \<and> mem_step {a} (smem s) (smem s1)
    \<and> hdr (smem s1) a = hdr (smem s) a
    \<and> reply_ready E (cmd_code c) (stale_body s r (cmd_size c)) a (cmd_pre c (conn_of s a) a now s1) r s2
    \<and> threadRecvProcFunc a now s = msgSend r now s2"
proof -
  let ?pkg = "queued_pkg (smem s) a"
  obtain body where g: "good_packet (cmd_code c) body ?pkg" and len: "length body = cmd_size c"
    using req by (auto simp: request_def)
  have ok: "m_iLenPkgHeader \<le> length ?pkg" "e_pkgLen ?pkg = length ?pkg"
    using request_complete [OF req] by (simp_all add: complete_pkg_def)
  obtain v s1 where cc: "check_crc a s = (v, s1)" by fastforce
  have body: "drop m_iLenPkgHeader ?pkg = body" "ntohs (msgCode (load_header ?pkg)) = cmd_code c"
    using g by (simp_all add: good_packet_def)
  have "v = Some (cmd_size c \<noteq> 0)"
    using check_crc_iff [OF refl ok(2,1)] g len unfolding body cc by (auto simp flip: length_greater_0_conv)
  with cc have cc: "check_crc a s = (Some (cmd_size c \<noteq> 0), s1)" by simp
  note st = check_crc_state [OF a ok(1), of s1, unfolded cc, simplified]
  have sp: "cn s1 = cn s" by (subst st(1)) simp
  have A1: "acct E s1" "a \<in> live (smem s1)" using A a by (simp_all add: st(2-8))
  obtain r s2 where r: "reply_ready E (cmd_code c) (stale_body s1 r (cmd_size c)) a
      (cmd_pre c (conn_of s a) a now s1) r s2"
    "call_handler c (conn_of s a) a (cmd_size c \<noteq> 0) (cmd_size c) now s1 = (True, msgSend r now s2)"
    using call_handler_reply [OF A1, of "cmd_size c \<noteq> 0" c "conn_of s a" now] by blast
  have "e_pkgLen ?pkg - m_iLenPkgHeader = cmd_size c" using g len by (simp add: good_packet_def)
  then have "threadRecvProcFunc a now s = msgSend r now s2"
    using cur statusHandler_cmd_code [of c] r(2) body(2)
    by (simp add: threadRecvProcFunc_def cc Let_def st(2-8) sp current_def conn_of_def queued_pkg_def [symmetric])
  moreover have "stale_body s1 r n = stale_body s r n" for n by (simp add: st(5))
  ultimately show ?thesis using r(1) st A1 by metis
qed

lemma threadRecv_no_request:
  assumes a: "a \<in> live (smem s)" and ok: "complete_pkg (smem s) a"
    and no: "\<not> current s a \<or> (\<forall>c. \<not> request c (queued_pkg (smem s) a))"
  shows "threadRecvProcFunc a now s = snd (check_crc a s)"
proof -
  let ?pkg = "queued_pkg (smem s) a"
  have ok': "m_iLenPkgHeader \<le> length ?pkg" "e_pkgLen ?pkg = length ?pkg"
    using ok by (simp_all add: complete_pkg_def)
  obtain v s1 where cc: "check_crc a s = (v, s1)" by fastforce
  note st = check_crc_state [OF a ok'(1), of s1, unfolded cc, simplified]
  have sp: "cn s1 = cn s" by (subst st(1)) simp
  let ?code = "ntohs (msgCode (load_header ?pkg))"
  show ?thesis
  proof (cases v)
    case None then show ?thesis by (simp add: threadRecvProcFunc_def cc)
  next
    case (Some hb)
    then have g: "good_packet ?code (drop m_iLenPkgHeader ?pkg) ?pkg"
      using check_crc_iff [OF refl ok'(2,1)] by (auto simp: cc split: if_splits)
    show ?thesis
    proof (cases "current s a \<and> unat ?code < AUTH_TOTAL_COMMANDS \<and> statusHandler ! unat ?code \<noteq> None")
      case False
      with Some show ?thesis
        by (auto simp: threadRecvProcFunc_def cc Let_def st(2-8) sp current_def conn_of_def
            queued_pkg_def [symmetric] split: option.split)
    next
      case True
      then obtain c where c: "statusHandler ! unat ?code = Some c" by auto
      with True have "unat ?code = unat (cmd_code c)" using statusHandler_SomeD by blast
      then have "?code = cmd_code c" by (rule word_unat_eq_iff [THEN iffD2])
      with g have "good_packet (cmd_code c) (drop m_iLenPkgHeader ?pkg) ?pkg" by simp
      with no True have "length (drop m_iLenPkgHeader ?pkg) \<noteq> cmd_size c"
        unfolding request_def by blast
      with Some True c show ?thesis
        using call_handler_wrong_size [of "length ?pkg - m_iLenPkgHeader" c]
        by (simp add: threadRecvProcFunc_def cc Let_def st(2-8) sp current_def conn_of_def
            queued_pkg_def [symmetric] ok'(2))
    qed
  qed
qed

section \<open>The job of a pool thread\<close>

lemma msgSend_accepts:
  "m_iSendMsgQueueCount s \<le> 50000 \<Longrightarrow> iSendCount (cn s (conn_of s r)) \<le> 400 \<Longrightarrow>
   msgSend r now s = sem_post ((upd_cn (conn_of s r) (\<lambda>c. c\<lparr>iSendCount := iSendCount c + 1\<rparr>) s)
     \<lparr>m_MsgSendQueue := m_MsgSendQueue s @ [r], m_iSendMsgQueueCount := m_iSendMsgQueueCount s + 1\<rparr>)"
  by (simp add: msgSend_def conn_of_def Let_def)

lemma acct_msgSend_accepts:
  assumes "acct (add_mset r E) s" and "m_iSendMsgQueueCount s \<le> 50000"
    and "iSendCount (cn s (conn_of s r)) \<le> 400"
  shows "acct E (msgSend r now s)"
  unfolding msgSend_accepts [OF assms(2,3)]
  using acct_enqueue_send [of r E "upd_cn (conn_of s r) (\<lambda>c. c\<lparr>iSendCount := iSendCount c + 1\<rparr>) s"] assms(1)
  by (simp add: acct_upd_cn conn_bufs_def)

lemma conn_of_frames [simp]:
  "conn_of (s\<lparr>m_MsgRecvQueue := q, m_iRecvMsgQueueCount := n\<rparr>) a = conn_of s a"
  "current (s\<lparr>m_MsgRecvQueue := q, m_iRecvMsgQueueCount := n\<rparr>) a = current s a"
  by (simp_all add: conn_of_def current_def)

lemma job_answer:
  assumes A: "acct {#} s" and q: "m_MsgRecvQueue s = a # as"
    and req: "request c (queued_pkg (smem s) a)" and cur: "current s a"
    and lim: "m_iSendMsgQueueCount s \<le> 50000" "iSendCount (cn s (conn_of s a)) \<le> 400"
    and t: "t = worker_job now s"
  shows "acct {#} t" and "\<exists>r. r \<notin> live (smem s) \<and> m_MsgSendQueue t = m_MsgSendQueue s @ [r]
     \<and> hdr (smem t) r = hdr (smem s) a
     \<and> good_packet (cmd_code c) (stale_body s r (cmd_size c)) (queued_pkg (smem t) r)
     \<and> m_semEventSendQueue t = m_semEventSendQueue s + 1
     \<and> (c = HandlePing \<longrightarrow> lastPingTime (cn t (conn_of s a)) = now)"
proof -
  let ?s = "s\<lparr>m_MsgRecvQueue := as, m_iRecvMsgQueueCount := m_iRecvMsgQueueCount s - 1\<rparr>"
  have A1: "acct {#a#} ?s" using acct_dequeue_recv [OF A q] by simp
  have a: "a \<in> live (smem ?s)" by (rule acct_live [OF A1]) simp
  have "request c (queued_pkg (smem ?s) a)" "current ?s a" using req cur by simp_all
  from threadRecv_request [OF A1 a this, of now] obtain r s1 s2 where
    s1: "s1 = ?s\<lparr>smem := smem s1\<rparr>" "mem_fill (smem s1) = mem_fill (smem s)"
      "live (smem s1) = live (smem s)" "hdr (smem s1) a = hdr (smem s) a"
    and rr: "reply_ready {#a#} (cmd_code c) (stale_body s r (cmd_size c)) a (cmd_pre c (conn_of s a) a now s1) r s2"
    and run: "threadRecvProcFunc a now ?s = msgSend r now s2" by auto
  let ?p = "conn_of s a"
  let ?t1 = "cmd_pre c ?p a now s1"
  have cn1: "cn s1 = cn s" "m_MsgSendQueue s1 = m_MsgSendQueue s" "m_iSendMsgQueueCount s1 = m_iSendMsgQueueCount s"
    "m_semEventSendQueue s1 = m_semEventSendQueue s"
    by (subst s1(1), simp)+
  have s2: "s2 = ?t1\<lparr>smem := smem s2\<rparr>" "r \<notin> live (smem s)" "acct (add_mset r {#a#}) s2"
    "hdr (smem s2) r = hdr (smem ?t1) a"
    "good_packet (cmd_code c) (stale_body s r (cmd_size c)) (queued_pkg (smem s2) r)"
    using rr s1(3) by (simp_all add: reply_ready_def)
  have "a \<in> live (smem s1)" using a s1(3) by simp
  then have h2: "hdr (smem s2) r = hdr (smem s) a" using s2(4) s1(4) by (simp add: cmd_pre_hdr)
  have p: "conn_of s2 r = ?p" by (simp add: conn_of_def h2)
  have cn2: "cn s2 = cn ?t1" "m_MsgSendQueue s2 = m_MsgSendQueue s"
    "m_iSendMsgQueueCount s2 = m_iSendMsgQueueCount s" "m_semEventSendQueue s2 = m_semEventSendQueue ?t1"
    by (subst s2(1), simp add: cn1)+
  have sem: "m_semEventSendQueue s2 = m_semEventSendQueue s"
    unfolding cn2(4) using cn1(4) by (cases c) simp_all
  have lim2: "m_iSendMsgQueueCount s2 \<le> 50000" "iSendCount (cn s2 (conn_of s2 r)) \<le> 400"
    using lim by (simp_all add: cn2(1,3) cn1 p)
  have t2: "t = free_buf (Some a) (msgSend r now s2)"
    by (simp add: t worker_job_def q run)
  show "acct {#} t"
    unfolding t2 using acct_msgSend_accepts [of r "{#a#}" s2 now] s2(3) lim2
    by (intro acct_free_buf) simp
  have ra: "r \<noteq> a" using s2(2) a by auto
  note rd = read_obj_Free_other [of "Some a" r]
  have "hdr (smem t) r = hdr (smem s) a"
    "good_packet (cmd_code c) (stale_body s r (cmd_size c)) (queued_pkg (smem t) r)"
    using s2(5) h2 ra by (simp_all add: t2 msgSend_accepts [OF lim2] hdr_def queued_pkg_def rd)
  moreover have "c = HandlePing \<longrightarrow> lastPingTime (cn t ?p) = now"
    by (simp add: t2 msgSend_accepts [OF lim2] p cn2(1))
  ultimately show "\<exists>r. r \<notin> live (smem s) \<and> m_MsgSendQueue t = m_MsgSendQueue s @ [r]
     \<and> hdr (smem t) r = hdr (smem s) a
     \<and> good_packet (cmd_code c) (stale_body s r (cmd_size c)) (queued_pkg (smem t) r)
     \<and> m_semEventSendQueue t = m_semEventSendQueue s + 1
     \<and> (c = HandlePing \<longrightarrow> lastPingTime (cn t ?p) = now)"
    using s2(2) by (intro exI [of _ r]) (simp add: t2 msgSend_accepts [OF lim2] cn2(2) sem)
qed

lemma job_drop:
  assumes A: "acct {#} s" and q: "m_MsgRecvQueue s = a # as" and ok: "complete_pkg (smem s) a"
    and no: "\<not> current s a \<or> (\<forall>c. \<not> request c (queued_pkg (smem s) a))"
    and t: "t = worker_job now s"
  shows "t = s\<lparr>m_MsgRecvQueue := as, m_iRecvMsgQueueCount := m_iRecvMsgQueueCount s - 1, smem := smem t\<rparr>"
    and "live (smem t) = live (smem s) - {a}" and "acct {#} t" and "mem_step {a} (smem s) (smem t)"
    and "\<forall>b \<in> live (smem t). read_obj b (smem t) = read_obj b (smem s)"
proof -
  let ?s = "s\<lparr>m_MsgRecvQueue := as, m_iRecvMsgQueueCount := m_iRecvMsgQueueCount s - 1\<rparr>"
  have A1: "acct {#a#} ?s" using acct_dequeue_recv [OF A q] by simp
  have a: "a \<in> live (smem ?s)" by (rule acct_live [OF A1]) simp
  have ok': "m_iLenPkgHeader \<le> length (queued_pkg (smem ?s) a)" using ok by (simp add: complete_pkg_def)
  note st = check_crc_state [OF a ok' refl]
  have run: "threadRecvProcFunc a now ?s = snd (check_crc a ?s)"
    using no ok by (intro threadRecv_no_request [OF a]) simp_all
  have t2: "t = free_buf (Some a) (snd (check_crc a ?s))" by (simp add: t worker_job_def q run)
  show "t = s\<lparr>m_MsgRecvQueue := as, m_iRecvMsgQueueCount := m_iRecvMsgQueueCount s - 1, smem := smem t\<rparr>"
    unfolding t2 by (subst st(1)) (simp add: free_buf_def)
  show L: "live (smem t) = live (smem s) - {a}" unfolding t2 by (simp add: st(4))
  show "acct {#} t" unfolding t2 using A1 by (intro acct_free_buf) (simp add: st(2))
  show M: "mem_step {a} (smem s) (smem t)"
    unfolding t2 using mem_step_trans_same [OF st(6) mem_step_Free] by simp
  show "\<forall>b \<in> live (smem t). read_obj b (smem t) = read_obj b (smem s)"
    using mem_step_read [OF M] A L by (auto simp: acct_def)
qed

section \<open>The monitor of the timers\<close>

definition ping_overdue :: "int \<Rightarrow> server \<Rightarrow> addr \<Rightarrow> bool" where
  "ping_overdue cur s a \<longleftrightarrow> m_ifTimeOutKick (m_timerconf (sconf s)) = 1
     \<or> cur - lastPingTime (cn s (conn_of s a)) > m_iWaitTime (m_timerconf (sconf s)) * 3 + 10"

lemma procPing_eq:
  "procPingTimeOutChecking a cur s = free_buf (Some a)
     (if current s a \<and> ping_overdue cur s a then zdClosesocketProc (conn_of s a) cur s else s)"
  by (simp add: procPingTimeOutChecking_def Let_def current_def conn_of_def ping_overdue_def)

lemma acct_procPing:
  assumes "acct (add_mset a E) s" and "current s a \<Longrightarrow> closable s (conn_of s a)"
  shows "acct E (procPingTimeOutChecking a cur s)"
  unfolding procPing_eq using assms by (intro acct_free_buf) (simp add: acct_zdClose)

text \<open>The connections that a list of expired headers gets closed.\<close>

definition kicked :: "int \<Rightarrow> server \<Rightarrow> addr list \<Rightarrow> connptr set" where
  "kicked cur s as = conn_of s ` {a \<in> set as. current s a \<and> ping_overdue cur s a}"

definition hands_ok :: "server \<Rightarrow> addr list \<Rightarrow> bool" where
  "hands_ok s as \<longleftrightarrow> (\<forall>a \<in> set as. current s a \<longrightarrow> closable s (conn_of s a))"

lemma kicked_single: "kicked cur s [a] = (if current s a \<and> ping_overdue cur s a then {conn_of s a} else {})"
  by (auto simp: kicked_def)

lemma procPing_frame:
  shows "mem_step {} (smem s) (smem (procPingTimeOutChecking a cur s))"
    and "sconf (procPingTimeOutChecking a cur s) = sconf s"
    and "q \<notin> kicked cur s [a] \<Longrightarrow> cn (procPingTimeOutChecking a cur s) q = cn s q"
    and "in_use (spool (procPingTimeOutChecking a cur s)) = in_use (spool s) - kicked cur s [a]"
    and "closable (procPingTimeOutChecking a cur s) q \<longleftrightarrow> closable s q \<or> q \<in> kicked cur s [a]"
    and "m_MsgSendQueue (procPingTimeOutChecking a cur s) = m_MsgSendQueue s"
    and "m_MsgRecvQueue (procPingTimeOutChecking a cur s) = m_MsgRecvQueue s"
  using mem_step_trans_same [OF mem_step_zdClose mem_step_Free]
  by (auto simp: procPing_eq kicked_single)

lemma procPing_others:
  fixes cur :: int
  assumes A: "acct (mset (a # as) + E) s" and cl: "hands_ok s (a # as)"
  defines "t \<equiv> procPingTimeOutChecking a cur s"
  shows "acct (mset as + E) t" and "hands_ok t as"
    and "kicked cur s (a # as) = kicked cur s [a] \<union> kicked cur t as"
proof -
  show A': "acct (mset as + E) t"
    unfolding t_def using A cl by (intro acct_procPing) (simp_all add: hands_ok_def)
  have rd: "read_obj b (smem t) = read_obj b (smem s)" if "b \<in> set as" for b
  proof (rule mem_step_read [of "{}"])
    show "mem_step {} (smem s) (smem t)" unfolding t_def by (rule procPing_frame)
    show "mem_wf (smem s)" using A by (simp add: acct_def)
    show "b \<in> live (smem s)" by (rule acct_live [OF A]) (use that in simp)
    show "b \<in> live (smem t)" by (rule acct_live [OF A']) (use that in simp)
  qed simp
  have cn: "cn t q = cn s q" if "q \<notin> kicked cur s [a]" for q
    unfolding t_def using that by (rule procPing_frame)
  have cf: "sconf t = sconf s" unfolding t_def by (rule procPing_frame)
  have hd: "conn_of t b = conn_of s b" "hdr (smem t) b = hdr (smem s) b" if "b \<in> set as" for b
    using rd [OF that] by (simp_all add: conn_of_def hdr_def)
  have same: "current t b = current s b" "ping_overdue cur t b = ping_overdue cur s b"
    if "b \<in> set as" "conn_of s b \<notin> kicked cur s [a]" for b
    using hd [OF that(1)] cn [OF that(2)] cf by (simp_all add: current_def ping_overdue_def)
  have clos: "closable t q \<longleftrightarrow> closable s q \<or> q \<in> kicked cur s [a]" for q
    unfolding t_def by (rule procPing_frame)
  show "hands_ok t as"
    unfolding hands_ok_def clos using cl hd same by (metis hands_ok_def list.set_intros(2))
  have split: "kicked cur s (a # as) = kicked cur s [a] \<union> kicked cur s as"
    by (auto simp: kicked_def)
  have "x \<in> kicked cur s as \<longleftrightarrow> x \<in> kicked cur t as" if "x \<notin> kicked cur s [a]" for x
    using that hd same by (force simp: kicked_def)
  then show "kicked cur s (a # as) = kicked cur s [a] \<union> kicked cur t as"
    unfolding split by blast
qed

lemma seq_step_procPing:
  assumes "acct E s" and "current s a \<Longrightarrow> closable s (conn_of s a)"
  shows "seq_step 1 s (procPingTimeOutChecking a cur s)"
proof -
  have "seq_step 0 t (free_buf b t)" for b t by (rule seq_step_frame) simp_all
  then show ?thesis
    unfolding procPing_eq using seq_step_zdClose [OF assms(1), of "conn_of s a" cur] assms(2)
      seq_step_trans [of 1 s _ 0] seq_step_mono [of 0 s _ 1] by auto
qed

lemma procPing_fold:
  assumes "acct (mset as + E) s" and "hands_ok s as"
    and "t = fold (\<lambda>a. procPingTimeOutChecking a cur) as s"
  shows "acct E t \<and> in_use (spool t) = in_use (spool s) - kicked cur s as
    \<and> (\<forall>q. q \<notin> kicked cur s as \<longrightarrow> cn t q = cn s q) \<and> m_MsgSendQueue t = m_MsgSendQueue s
    \<and> m_MsgRecvQueue t = m_MsgRecvQueue s \<and> mem_step {} (smem s) (smem t)
    \<and> seq_step (length as) s t"
  using assms
proof (induction as arbitrary: s)
  case Nil then show ?case by (simp add: kicked_def)
next
  case (Cons a as)
  let ?t = "procPingTimeOutChecking a cur s"
  note o = procPing_others [OF Cons.prems(1,2), of cur]
  have "acct E t \<and> in_use (spool t) = in_use (spool ?t) - kicked cur ?t as
    \<and> (\<forall>q. q \<notin> kicked cur ?t as \<longrightarrow> cn t q = cn ?t q) \<and> m_MsgSendQueue t = m_MsgSendQueue ?t
    \<and> m_MsgRecvQueue t = m_MsgRecvQueue ?t \<and> mem_step {} (smem ?t) (smem t)
    \<and> seq_step (length as) ?t t"
    using Cons.prems(3) by (intro Cons.IH [OF o(1,2)]) simp
  moreover note procPing_frame(1,3,4,6,7) [where s = s and a = a and cur = cur]
  moreover have "seq_step 1 s ?t"
    using Cons.prems(1,2) by (intro seq_step_procPing) (auto simp: hands_ok_def)
  ultimately show ?case unfolding o(3)
    using mem_step_trans_same [of "{}" "smem s" "smem ?t" "smem t"] seq_step_trans [of 1 s ?t "length as" t]
    by auto
qed

text \<open>The headers a round takes from the timer queue.\<close>

definition due_headers :: "int \<Rightarrow> server \<Rightarrow> addr list" where
  "due_headers cur s = (if m_cur_size (stimer s) > 0 \<and> m_timer_value (stimer s) < cur
     then map snd (expired cur (stimer s)) else [])"

lemma due_headers_sub: "set (due_headers cur s) \<subseteq> set (timer_addrs (stimer s))"
  by (auto simp: due_headers_def expired_def timer_addrs_def)

lemma monitor_collect_spec:
  assumes A: "acct E s" and w: "0 < m_iWaitTime (m_timerconf (sconf s))"
  shows "\<exists>T m. monitor_collect (m_timerconf (sconf s)) cur (stimer s, smem s) = Some (due_headers cur s, T, m)
    \<and> acct (mset (due_headers cur s) + E) (s\<lparr>stimer := T, smem := m\<rparr>)
    \<and> (\<forall>b \<in> live (smem s). read_obj b m = read_obj b (smem s)) \<and> mem_step {} (smem s) m
    \<and> (\<forall>a \<in> set (timer_addrs T). \<exists>b \<in> set (timer_addrs (stimer s)). hdr m a = hdr (smem s) b)"
proof (cases "m_cur_size (stimer s) > 0 \<and> m_timer_value (stimer s) < cur")
  case False
  have "s\<lparr>stimer := stimer s, smem := smem s\<rparr> = s" by simp
  with False A show ?thesis
    by (intro exI [of _ "stimer s"] exI [of _ "smem s"]) (auto simp: monitor_collect_def due_headers_def)
next
  case True
  have wf: "timer_wf (stimer s)" using A by (simp add: acct_def)
  obtain T m where c: "collect_expired (m_timerconf (sconf s)) cur [] (stimer s, smem s) =
      Some (map snd (expired cur (stimer s)), T, m)"
    and T: "timer_wf T" "timer_live T m" "mem_faults m = mem_faults (smem s)"
    and L: "live_mset m + mset (timer_addrs (stimer s)) =
        live_mset (smem s) + mset (timer_addrs T) + mset (map snd (expired cur (stimer s)))"
    and rd: "mem_step {} (smem s) m" "\<forall>b \<in> live (smem s). read_obj b m = read_obj b (smem s)"
    and ent: "entries m (m_timerQueuemap T) = entries (smem s) (not_expired cur (stimer s))
        + put_back (m_timerconf (sconf s)) cur (smem s) (expired cur (stimer s))"
    using collect_expired_spec [OF wf acct_timer_live [OF A] w, of cur "[]"] by auto
  have "live_mset m + mset (timer_addrs (stimer s)) =
      (owned (s\<lparr>stimer := T, smem := m\<rparr>) + (mset (map snd (expired cur (stimer s))) + E))
        + mset (timer_addrs (stimer s))"
    using A unfolding L by (simp add: acct_def owned_def)
  then have "live_mset m = owned (s\<lparr>stimer := T, smem := m\<rparr>) + (mset (map snd (expired cur (stimer s))) + E)"
    by (simp only: add_right_cancel)
  then have "acct (mset (map snd (expired cur (stimer s))) + E) (s\<lparr>stimer := T, smem := m\<rparr>)"
    using A T by (simp add: acct_def timer_live_def)
  moreover have "\<exists>b \<in> set (timer_addrs (stimer s)). hdr m a = hdr (smem s) b" if "a \<in> set (timer_addrs T)" for a
  proof -
    from that obtain e where "(e, a) \<in> set (m_timerQueuemap T)" by (auto simp: timer_addrs_def)
    then have "(e, hdr m a) \<in># entries m (m_timerQueuemap T)" by (force simp: entries_def)
    then show ?thesis unfolding ent
      by (auto simp: entries_def put_back_def not_expired_def expired_def timer_addrs_def split: if_splits)
        (force+)?
  qed
  ultimately show ?thesis using True c rd by (auto simp: monitor_collect_def due_headers_def)
qed

lemma monitor_round:
  assumes A: "acct E s" and w: "0 < m_iWaitTime (m_timerconf (sconf s))"
    and H: "hands_ok s (timer_addrs (stimer s))"
  shows "\<exists>t. ServerTimerQueueMonitorThread cur s = Some t \<and> acct E t
    \<and> in_use (spool t) = in_use (spool s) - kicked cur s (due_headers cur s)
    \<and> (\<forall>q. q \<notin> kicked cur s (due_headers cur s) \<longrightarrow> cn t q = cn s q)
    \<and> m_MsgSendQueue t = m_MsgSendQueue s \<and> m_MsgRecvQueue t = m_MsgRecvQueue s"
proof -
  obtain T m where c: "monitor_collect (m_timerconf (sconf s)) cur (stimer s, smem s) = Some (due_headers cur s, T, m)"
    and A1: "acct (mset (due_headers cur s) + E) (s\<lparr>stimer := T, smem := m\<rparr>)"
    and rd: "\<forall>b \<in> live (smem s). read_obj b m = read_obj b (smem s)"
    using monitor_collect_spec [OF A w] by blast
  let ?s = "s\<lparr>stimer := T, smem := m\<rparr>"
  have live: "b \<in> live (smem s)" if "b \<in> set (due_headers cur s)" for b
    using that due_headers_sub acct_timer_live [OF A] by (force simp: timer_live_def)
  have same: "conn_of ?s b = conn_of s b" "current ?s b = current s b"
    "ping_overdue cur ?s b = ping_overdue cur s b" if "b \<in> set (due_headers cur s)" for b
    using live [OF that] rd by (simp_all add: conn_of_def current_def ping_overdue_def hdr_def)
  have "hands_ok ?s (due_headers cur s)"
    using H due_headers_sub same unfolding hands_ok_def closable_def by auto
  moreover have "kicked cur ?s (due_headers cur s) = kicked cur s (due_headers cur s)"
    using same by (force simp: kicked_def)
  ultimately show ?thesis
    using procPing_fold [OF A1 _ refl, of cur] by (auto simp: ServerTimerQueueMonitorThread_def c)
qed

section \<open>Properties\<close>

text \<open>
  C6. A well-formed request (right length, checksum and body size of a known command) of a
  connection that is still open is answered: the job of the pool thread frees the request and
  queues one packet for the same connection, with the code of the command, the right length and
  checksum, and wakes the sending thread. The body of the reply is whatever the allocator left in
  the new buffer. A ping also renews \<open>lastPingTime\<close>. The limits are those of \<open>msgSend\<close>.
\<close>

theorem request_answered:
  assumes "acct {#} s" and "m_MsgRecvQueue s = a # as"
    and "request c (queued_pkg (smem s) a)" and "current s a"
    and "m_iSendMsgQueueCount s \<le> 50000" and "iSendCount (cn s (conn_of s a)) \<le> 400"
    and "t = worker_job now s"
  shows "acct {#} t \<and> (\<exists>r. r \<notin> live (smem s) \<and> m_MsgSendQueue t = m_MsgSendQueue s @ [r]
     \<and> hdr (smem t) r = hdr (smem s) a
     \<and> good_packet (cmd_code c) (stale_body s r (cmd_size c)) (queued_pkg (smem t) r)
     \<and> m_semEventSendQueue t = m_semEventSendQueue s + 1
     \<and> (c = HandlePing \<longrightarrow> lastPingTime (cn t (conn_of s a)) = now))"
  using job_answer [OF assms] by blast

lemma demo_ping_request: "request HandlePing (mb_pkg demo_msg)"
  by (simp add: request_def good_packet_def demo_msg_def e_pkgLen_def load_header_def load_u16_def
      load_u32_def ntohs_def ntohl_def)

lemma demo_job_current: "conn_of (demo_job b) 0 = pConn (mb_hdr b)"
  "current (demo_job b) 0 \<longleftrightarrow> cseq (cn one_conn (pConn (mb_hdr b))) = iCurrsequence (mb_hdr b)"
  by (simp_all add: current_def conn_of_def hdr_def)

theorem request_answered_witness:
  "\<exists>r. m_MsgSendQueue (worker_job 9 (demo_job demo_msg)) = [r]
     \<and> good_packet CMD_PING [] (queued_pkg (smem (worker_job 9 (demo_job demo_msg))) r)"
proof -
  have "current (demo_job demo_msg) 0" "iSendCount (cn (demo_job demo_msg) (conn_of (demo_job demo_msg) 0)) \<le> 400"
    by (simp_all add: demo_job_current demo_msg_def GetOneToUse_def qc_connection_init_def)
  then show ?thesis
    using request_answered [OF acct_demo_job, of demo_msg 0 "[]" HandlePing _ 9] demo_ping_request
    by (auto simp: queued_pkg_def)
qed

text \<open>
  C28. Everything else is dropped without a trace: a packet of a closed connection, or one that is
  not a well-formed request, changes nothing but its own buffer, which is freed; every other buffer
  keeps its contents.
\<close>

theorem bad_packet_dropped:
  assumes "acct {#} s" and "m_MsgRecvQueue s = a # as" and "complete_pkg (smem s) a"
    and "\<not> current s a \<or> (\<forall>c. \<not> request c (queued_pkg (smem s) a))"
    and "t = worker_job now s"
  shows "t = s\<lparr>m_MsgRecvQueue := as, m_iRecvMsgQueueCount := m_iRecvMsgQueueCount s - 1, smem := smem t\<rparr>
    \<and> live (smem t) = live (smem s) - {a} \<and> (\<forall>b \<in> live (smem t). read_obj b (smem t) = read_obj b (smem s))
    \<and> acct {#} t"
  using job_drop [OF assms] by blast

text \<open>The ping of a connection that was closed after it arrived.\<close>

definition stale_msg :: msgbuf where
  "stale_msg = demo_msg\<lparr>mb_hdr := \<lparr>pConn = 0, iCurrsequence = 0\<rparr>\<rparr>"

theorem bad_packet_dropped_witness:
  "live (smem (worker_job 9 (demo_job stale_msg))) = live (one_msg stale_msg) - {0}
   \<and> m_MsgSendQueue (worker_job 9 (demo_job stale_msg)) = []"
proof -
  have "\<not> current (demo_job stale_msg) 0"
    by (simp add: demo_job_current stale_msg_def GetOneToUse_def qc_connection_init_def)
  moreover have "complete_pkg (smem (demo_job stale_msg)) 0"
    by (rule request_complete [of HandlePing]) (use demo_ping_request in \<open>simp add: queued_pkg_def stale_msg_def\<close>)
  ultimately have t: "let t = worker_job 9 (demo_job stale_msg) in
      t = (demo_job stale_msg)\<lparr>m_MsgRecvQueue := [],
        m_iRecvMsgQueueCount := m_iRecvMsgQueueCount (demo_job stale_msg) - 1, smem := smem t\<rparr>
      \<and> live (smem t) = live (smem (demo_job stale_msg)) - {0}"
    using bad_packet_dropped [OF acct_demo_job, of stale_msg 0 "[]" _ 9] by simp
  then have "m_MsgSendQueue (worker_job 9 (demo_job stale_msg)) = m_MsgSendQueue (demo_job stale_msg)"
    unfolding Let_def by (metis (no_types, lifting) server.select_convs(6) server.surjective
        server.update_convs(2,10,11))
  with t show ?thesis by (simp add: Let_def)
qed

text \<open>
  C23. The checksum protects the body: a good packet whose body was corrupted within four
  consecutive bytes, the header intact, is dropped without a trace.
\<close>

theorem corrupted_packet_dropped:
  assumes "acct {#} s" and "m_MsgRecvQueue s = a # as"
    and "good_packet code body pkg" and "queued_pkg (smem s) a = take m_iLenPkgHeader pkg @ body'"
    and "length body' = length body" and "take i body' = take i body"
    and "drop (i + 4) body' = drop (i + 4) body" and "body' \<noteq> body"
    and "t = worker_job now s"
  shows "t = s\<lparr>m_MsgRecvQueue := as, m_iRecvMsgQueueCount := m_iRecvMsgQueueCount s - 1, smem := smem t\<rparr>
    \<and> live (smem t) = live (smem s) - {a} \<and> (\<forall>b \<in> live (smem t). read_obj b (smem t) = read_obj b (smem s))
    \<and> acct {#} t"
proof -
  let ?h = "take m_iLenPkgHeader pkg"
  have len: "length pkg = m_iLenPkgHeader + length body" "e_pkgLen pkg = length pkg"
    using assms(3) by (simp_all add: good_packet_def)
  have "e_pkgLen (?h @ body') = e_pkgLen ?h" using len by (intro e_pkgLen_append) simp
  then have complete: "complete_pkg (smem s) a"
    using len assms(4,5) by (simp add: complete_pkg_def)
  have "length (drop 4 ?h) = 4" using len by simp
  then have crc: "crc32 (load_header (?h @ x)) = load_u32 (drop 4 ?h)" for x
    using len by (auto simp: load_header_def load_u32_def nth_append)
  have "pkg = ?h @ drop m_iLenPkgHeader pkg" by simp
  then have crc0: "crc32 (load_header pkg) = load_u32 (drop 4 ?h)" using crc by metis
  have ne: "body \<noteq> []" "body' \<noteq> []" using assms(5,8) by auto
  have c: "ntohl (load_u32 (drop 4 ?h)) = Get_CRC body"
    using assms(3) ne(1) crc0 by (simp add: good_packet_def)
  have "\<not> request c (queued_pkg (smem s) a)" for c
  proof
    assume "request c (queued_pkg (smem s) a)"
    then have "drop m_iLenPkgHeader (?h @ body') \<noteq> [] \<Longrightarrow>
        ntohl (crc32 (load_header (?h @ body'))) = Get_CRC (drop m_iLenPkgHeader (?h @ body'))"
      unfolding assms(4) request_def good_packet_def by metis
    then have "Get_CRC body' = Get_CRC body" using len ne(2) crc c by simp
    then show False using crc.tampered_body [OF assms(5-8)] by simp
  qed
  then show ?thesis using job_drop [OF assms(1,2) complete _ assms(9)] by blast
qed

text \<open>A packet with a body of one byte, which was changed on the way.\<close>

definition tampered_msg :: msgbuf where
  "tampered_msg = \<lparr>mb_hdr = \<lparr>pConn = 0, iCurrsequence = 1\<rparr>,
     mb_pkg = store_header \<lparr>pkgLen = htons (of_nat (m_iLenPkgHeader + length [7 :: u8])), msgCode = htons 6,
       crc32 = htonl (Get_CRC [7])\<rparr> @ [8]\<rparr>"

theorem corrupted_packet_dropped_witness:
  "live (smem (worker_job 9 (demo_job tampered_msg))) = live (one_msg tampered_msg) - {0}"
proof -
  let ?pkg = "store_header \<lparr>pkgLen = htons (of_nat (m_iLenPkgHeader + length [7 :: u8])), msgCode = htons 6,
    crc32 = htonl (if [7 :: u8] = [] then 0 else Get_CRC [7])\<rparr> @ [7]"
  have g: "good_packet 6 [7] ?pkg" by (rule good_packetI [OF _ refl]) simp
  show ?thesis
    using corrupted_packet_dropped [OF acct_demo_job _ g, of tampered_msg 0 "[]" "[8]" 0 _ 9]
    by (simp add: queued_pkg_def tampered_msg_def)
qed

text \<open>
  C10. One round of the timer monitor ends, keeps the account, and closes exactly the connections
  of expired, still current headers that are due: every one of them when \<open>m_ifTimeOutKick\<close> is
  set, otherwise those silent for longer than three waiting times and ten seconds. Every other
  connection is left as it was.
\<close>

theorem monitor_closes_exactly:
  assumes "acct {#} s" and "0 < m_iWaitTime (m_timerconf (sconf s))"
    and "hands_ok s (timer_addrs (stimer s))"
  shows "\<exists>t. ServerTimerQueueMonitorThread cur s = Some t \<and> acct {#} t
    \<and> in_use (spool t) = in_use (spool s) - kicked cur s (due_headers cur s)
    \<and> (\<forall>q. q \<notin> kicked cur s (due_headers cur s) \<longrightarrow> cn t q = cn s q)
    \<and> m_MsgSendQueue t = m_MsgSendQueue s \<and> m_MsgRecvQueue t = m_MsgRecvQueue s"
  by (rule monitor_round [OF assms])

lemma demo_timed:
  "acct {#} (add_timer 0 0 one_conn)" "timer_addrs (stimer (add_timer 0 0 one_conn)) = [0]"
  "hdr (smem (add_timer 0 0 one_conn)) 0 = \<lparr>pConn = 0, iCurrsequence = cseq (cn one_conn 0)\<rparr>"
  "spool (add_timer 0 0 one_conn) = spool one_conn" "sconf (add_timer 0 0 one_conn) = default_conf"
  "m_timer_value (stimer (add_timer 0 0 one_conn)) = 5" "m_cur_size (stimer (add_timer 0 0 one_conn)) = 1"
  "m_timerQueuemap (stimer (add_timer 0 0 one_conn)) = [(5, 0)]"
proof -
  have t0: "stimer one_conn = \<lparr>m_timerQueuemap = [], m_cur_size = 0, m_timer_value = 0\<rparr>"
    by (simp add: one_conn_def CSocket_ctor_def)
  note defs = add_timer_def t0 AddToTimerQueue_def case_prod_beta Let_def default_conf_def
  show "acct {#} (add_timer 0 0 one_conn)" by (rule acct_add_timer [OF acct_one_conn])
  show "hdr (smem (add_timer 0 0 one_conn)) 0 = \<lparr>pConn = 0, iCurrsequence = cseq (cn one_conn 0)\<rparr>"
    using alloc_header_simps(6) [of _ "smem one_conn"] by (simp add: defs)
  show "timer_addrs (stimer (add_timer 0 0 one_conn)) = [0]" by (simp add: defs timer_addrs_def)
  show "spool (add_timer 0 0 one_conn) = spool one_conn" by (simp add: defs)
  show "sconf (add_timer 0 0 one_conn) = default_conf" by (simp add: defs)
  show "m_timer_value (stimer (add_timer 0 0 one_conn)) = 5" by (simp add: defs GetEarliestTime_hd)
  show "m_cur_size (stimer (add_timer 0 0 one_conn)) = 1" by (simp add: defs)
  show "m_timerQueuemap (stimer (add_timer 0 0 one_conn)) = [(5, 0)]" by (simp add: defs)
qed

theorem monitor_closes_exactly_witness:
  "\<exists>t. ServerTimerQueueMonitorThread 100 (add_timer 0 0 one_conn) = Some t \<and> in_use (spool t) = {}"
proof -
  let ?s = "add_timer 0 0 one_conn"
  have h: "conn_of ?s 0 = 0" "current ?s 0" "ping_overdue 100 ?s 0"
    by (simp_all add: conn_of_def current_def ping_overdue_def demo_timed default_conf_def
        GetOneToUse_def qc_connection_init_def)
  have "hands_ok ?s (timer_addrs (stimer ?s))"
    by (simp add: hands_ok_def demo_timed h closable_def)
  moreover have "kicked 100 ?s (due_headers 100 ?s) = {0}"
    by (auto simp: kicked_def due_headers_def expired_def demo_timed h)
  ultimately show ?thesis
    using monitor_closes_exactly [of ?s 100] by (auto simp: demo_timed default_conf_def)
qed

end
