(* ===== verification/QcRecv.thy ===== *)
theory QcRecv
  imports QcAccount
begin

text \<open>
  Receiving (net/qc\_socket\_request.cc): \<open>recvproc\<close>, the four-state machine of
  \<open>qc_read_request_handler\<close> that cuts the byte stream of a connection into packets, and the hand
  over of a packet to the receive queue of the thread pool. The abstract specification is a parser
  on the whole stream.
\<close>

section \<open>The code\<close>

text \<open>The answer of the kernel to \<open>recv\<close>: bytes (at most as many as asked for), end, error.\<close>

datatype recv_result = RecvData bytes | RecvEOF | RecvErr errno

definition sys_recv :: "int \<Rightarrow> nat \<Rightarrow> recv_result \<Rightarrow> errno + bytes" where
  "sys_recv sock len r =
     (if sock = -1 then Inl EBADF
      else (case r of RecvData bs \<Rightarrow> Inr (take len bs) | RecvEOF \<Rightarrow> Inr [] | RecvErr e \<Rightarrow> Inl e))"

text \<open>What \<open>recv\<close> writes through the buffer pointer of the connection.\<close>

definition store_recv :: "connptr \<Rightarrow> bufptr \<Rightarrow> bytes \<Rightarrow> server \<Rightarrow> server" where
  "store_recv p buff bs s =
     (case buff of
        HeadPtr off \<Rightarrow>
          if off + length bs \<le> DATA_BUFSIZE
          then upd_cn p (\<lambda>c. c\<lparr>dataHeadInfo := write_at off bs (dataHeadInfo c)\<rparr>) s
          else s\<lparr>smem := add_fault BufferOverflow (smem s)\<rparr>
      | PkgPtr a off \<Rightarrow>
          (let b = read_obj a (smem s)
           in if a \<in> live (smem s) \<and> off + length bs \<le> length (mb_pkg b)
              then s\<lparr>smem := write_obj a (b\<lparr>mb_pkg := write_at off bs (mb_pkg b)\<rparr>) (smem s)\<rparr>
              else s\<lparr>smem := add_fault (BadAccess a) (smem s)\<rparr>)
      | NullPtr \<Rightarrow> s\<lparr>smem := add_fault NullAccess (smem s)\<rparr>)"

definition recvproc :: "connptr \<Rightarrow> bufptr \<Rightarrow> nat \<Rightarrow> recv_result \<Rightarrow> int \<Rightarrow> server \<Rightarrow> int \<times> server" where
  "recvproc p buff buflen r now s =
     (case sys_recv (fd (cn s p)) buflen r of
        Inr bs \<Rightarrow>
          if length bs = 0 then (-1, zdClosesocketProc p now s)
          else (int (length bs), store_recv p buff bs s)
      | Inl e \<Rightarrow>
          if e = EAGAIN then (-1, s)
          else if e = EINTR then (-1, s)
          else (-1, zdClosesocketProc p now s))"

text \<open>\<open>inMsgRecvQueueAndSignal\<close>: what it does to the queue (the signalling is in the thread pool).\<close>

definition inMsgRecvQueue :: "addr option \<Rightarrow> server \<Rightarrow> server" where
  "inMsgRecvQueue b s =
     (case b of
        None \<Rightarrow> s\<lparr>smem := add_fault NullAccess (smem s)\<rparr>
      | Some a \<Rightarrow> s\<lparr>m_MsgRecvQueue := m_MsgRecvQueue s @ [a],
                    m_iRecvMsgQueueCount := m_iRecvMsgQueueCount s + 1\<rparr>)"

definition reset_recv :: "conn \<Rightarrow> conn" where
  "reset_recv c = c\<lparr>curStat := PKG_HD_INIT, precvbuf := HeadPtr 0, irecvlen := m_iLenPkgHeader\<rparr>"

definition qc_wait_request_handler_proc_plast :: "connptr \<Rightarrow> bool \<Rightarrow> server \<Rightarrow> server" where
  "qc_wait_request_handler_proc_plast p isflood s =
     (let s1 = (if \<not> isflood then inMsgRecvQueue (precvMemPointer (cn s p)) s
                else free_buf (precvMemPointer (cn s p)) s)
      in upd_cn p (\<lambda>c. reset_recv (c\<lparr>precvMemPointer := None\<rparr>)) s1)"

text \<open>The flood test, when it is on, then the end of a packet.\<close>

definition flood_check :: "connptr \<Rightarrow> u64 \<Rightarrow> server \<Rightarrow> bool \<times> server" where
  "flood_check p ms s =
     (if m_floodAkEnable (sconf s) = 1
      then (let (f, c) = TestFlood (sconf s) ms (cn s p) in (f, upd_cn p (\<lambda>_. c) s))
      else (False, s))"

definition finish_packet :: "connptr \<Rightarrow> u64 \<Rightarrow> server \<Rightarrow> bool \<times> server" where
  "finish_packet p ms s =
     (let (isflood, s1) = flood_check p ms s
      in (isflood, qc_wait_request_handler_proc_plast p isflood s1))"

text \<open>The buffer for a packet, with the message header and the packet header filled in.\<close>

definition alloc_packet :: "connptr \<Rightarrow> nat \<Rightarrow> server \<Rightarrow> addr \<times> server" where
  "alloc_packet p len s =
     (let (a, m) = AllocMemory (m_iLenMsgHeader + len) False (smem s);
          b = read_obj a m
      in (a, s\<lparr>smem := write_obj a
               \<lparr>mb_hdr = \<lparr>pConn = p, iCurrsequence = cseq (cn s p)\<rparr>,
                mb_pkg = write_at 0 (take m_iLenPkgHeader (dataHeadInfo (cn s p))) (mb_pkg b)\<rparr> m\<rparr>))"

definition qc_wait_request_handler_proc_p1 :: "connptr \<Rightarrow> u64 \<Rightarrow> server \<Rightarrow> bool \<times> server" where
  "qc_wait_request_handler_proc_p1 p ms s =
     (let len = e_pkgLen (dataHeadInfo (cn s p))
      in if len < m_iLenPkgHeader then (False, upd_cn p reset_recv s)
         else if len > PKG_MAX_LENGTH - 1000 then (False, upd_cn p reset_recv s)
         else
           let (a, s1) = alloc_packet p len s;
               s2 = upd_cn p (\<lambda>c. c\<lparr>precvMemPointer := Some a\<rparr>) s1
           in if len = m_iLenPkgHeader then finish_packet p ms s2
              else (False, upd_cn p (\<lambda>c. c\<lparr>curStat := PKG_BD_INIT,
                                           precvbuf := PkgPtr a m_iLenPkgHeader,
                                           irecvlen := len - m_iLenPkgHeader\<rparr>) s2))"

text \<open>A read that is short of what was wanted: stay in (or go to) the given state.\<close>

definition recv_more :: "connptr \<Rightarrow> pkg_stat \<Rightarrow> nat \<Rightarrow> server \<Rightarrow> server" where
  "recv_more p st reco s =
     upd_cn p (\<lambda>c. c\<lparr>curStat := st,
       precvbuf := buf_advance reco (precvbuf c),
       irecvlen := irecvlen c - reco\<rparr>) s"

definition recv_state :: "connptr \<Rightarrow> nat \<Rightarrow> u64 \<Rightarrow> server \<Rightarrow> bool \<times> server" where
  "recv_state p reco ms s =
     (case curStat (cn s p) of
        PKG_HD_INIT \<Rightarrow>
          if reco = m_iLenPkgHeader then qc_wait_request_handler_proc_p1 p ms s
          else (False, recv_more p PKG_HD_RECVING reco s)
      | PKG_HD_RECVING \<Rightarrow>
          if irecvlen (cn s p) = reco then qc_wait_request_handler_proc_p1 p ms s
          else (False, recv_more p PKG_HD_RECVING reco s)
      | PKG_BD_INIT \<Rightarrow>
          if reco = irecvlen (cn s p) then finish_packet p ms s
          else (False, recv_more p PKG_BD_RECVING reco s)
      | PKG_BD_RECVING \<Rightarrow>
          if irecvlen (cn s p) = reco then finish_packet p ms s
          else (False, recv_more p PKG_BD_RECVING reco s))"

definition qc_read_request_handler ::
  "connptr \<Rightarrow> recv_result \<Rightarrow> int \<Rightarrow> u64 \<Rightarrow> server \<Rightarrow> server" where
  "qc_read_request_handler p r now ms s0 =
     (let (reco, s) = recvproc p (precvbuf (cn s0 p)) (irecvlen (cn s0 p)) r now s0
      in if reco \<le> 0 then s
         else
           let (isflood, s1) = recv_state p (nat reco) ms s
           in if isflood then zdClosesocketProc p now s1 else s1)"

section \<open>The specification: a parser of the stream\<close>

text \<open>
  A packet starts with its header; a header that announces a length outside 8 to 29000 is dropped,
  and the parser goes on behind those eight bytes. The result are the complete packets.
\<close>

definition valid_len :: "nat \<Rightarrow> bool" where
  "valid_len n \<longleftrightarrow> m_iLenPkgHeader \<le> n \<and> n \<le> PKG_MAX_LENGTH - 1000"

function parse :: "bytes \<Rightarrow> bytes list \<times> bytes" where
  "parse bs =
     (if length bs < m_iLenPkgHeader then ([], bs)
      else if \<not> valid_len (e_pkgLen bs) then parse (drop m_iLenPkgHeader bs)
      else if length bs < e_pkgLen bs then ([], bs)
      else (let (ps, rest) = parse (drop (e_pkgLen bs) bs) in (take (e_pkgLen bs) bs # ps, rest)))"
  by pat_completeness auto
termination
  by (relation "measure length") (auto simp: valid_len_def)

declare parse.simps [simp del]

lemma parse_short: "length bs < m_iLenPkgHeader \<Longrightarrow> parse bs = ([], bs)"
  by (simp add: parse.simps [of bs])

lemma parse_bad_header:
  "\<not> valid_len (e_pkgLen bs) \<Longrightarrow> m_iLenPkgHeader \<le> length bs \<Longrightarrow>
   parse bs = parse (drop m_iLenPkgHeader bs)"
  by (simp add: parse.simps [of bs])

lemma parse_waiting:
  "valid_len (e_pkgLen bs) \<Longrightarrow> m_iLenPkgHeader \<le> length bs \<Longrightarrow> length bs < e_pkgLen bs \<Longrightarrow>
   parse bs = ([], bs)"
  by (simp add: parse.simps [of bs])

lemma parse_packet:
  "valid_len (e_pkgLen bs) \<Longrightarrow> e_pkgLen bs \<le> length bs \<Longrightarrow>
   parse bs = (take (e_pkgLen bs) bs # fst (parse (drop (e_pkgLen bs) bs)),
               snd (parse (drop (e_pkgLen bs) bs)))"
  by (simp add: parse.simps [of bs] valid_len_def case_prod_beta)

lemma parse_Nil [simp]: "parse [] = ([], [])"
  by (simp add: parse_short)

text \<open>Parsing is incremental: what is left of a prefix is all that has to be kept.\<close>

lemma parse_append:
  "parse (bs @ cs) = (fst (parse bs) @ fst (parse (snd (parse bs) @ cs)), snd (parse (snd (parse bs) @ cs)))"
proof (induction bs rule: parse.induct)
  case (1 bs)
  consider "length bs < m_iLenPkgHeader"
    | "m_iLenPkgHeader \<le> length bs" "\<not> valid_len (e_pkgLen bs)"
    | "m_iLenPkgHeader \<le> length bs" "valid_len (e_pkgLen bs)" "length bs < e_pkgLen bs"
    | "m_iLenPkgHeader \<le> length bs" "valid_len (e_pkgLen bs)" "e_pkgLen bs \<le> length bs"
    by linarith
  then show ?case
  proof cases
    case 1 then show ?thesis by (simp add: parse_short)
  next
    case 2
    then have "e_pkgLen (bs @ cs) = e_pkgLen bs" by (simp add: e_pkgLen_append)
    with 2 "1.IH"(1) show ?thesis by (simp add: parse_bad_header)
  next
    case 3 then show ?thesis by (simp add: parse_waiting)
  next
    case 4
    then have "e_pkgLen (bs @ cs) = e_pkgLen bs" by (simp add: e_pkgLen_append)
    with 4 "1.IH"(2) show ?thesis by (simp add: parse_packet)
  qed
qed

text \<open>
  What a chunk-wise consumer may rely on: parsing chunk by chunk, keeping only the rest, gives
  what parsing the whole stream gives.
\<close>

locale incremental_parser =
  fixes run :: "'b list \<Rightarrow> 'p list \<times> 'b list"
  assumes run_Nil: "run [] = ([], [])"
    and run_append: "run (bs @ cs) =
      (fst (run bs) @ fst (run (snd (run bs) @ cs)), snd (run (snd (run bs) @ cs)))"
begin

fun feed :: "'b list \<Rightarrow> 'b list list \<Rightarrow> 'p list \<times> 'b list" where
  "feed r [] = ([], r)"
| "feed r (c # cs) =
     (fst (run (r @ c)) @ fst (feed (snd (run (r @ c))) cs), snd (feed (snd (run (r @ c))) cs))"

text \<open>A rest holds no complete item.\<close>

lemma run_rest: "run (snd (run bs)) = ([], snd (run bs))"
  using run_append [of bs "[]"] by (simp add: prod_eq_iff)

lemma feed_run: "run r = ([], r) \<Longrightarrow> feed r cs = run (r @ concat cs)"
proof (induction cs arbitrary: r)
  case Nil
  then show ?case by simp
next
  case (Cons c cs)
  have "feed (snd (run (r @ c))) cs = run (snd (run (r @ c)) @ concat cs)"
    by (rule Cons.IH) (rule run_rest)
  then show ?case using run_append [of "r @ c" "concat cs"] by simp
qed

lemma feed_all: "feed [] cs = run (concat cs)"
  using feed_run [OF run_Nil] by simp

end

interpretation pkt: incremental_parser parse
  by unfold_locales (rule parse_Nil, rule parse_append)

section \<open>The receiving state of a connection\<close>

text \<open>
  The buffer of a packet whose header has been accepted: as long as the header announces, owned
  and stamped by the connection.
\<close>

definition body_ok :: "memory \<Rightarrow> connptr \<Rightarrow> conn \<Rightarrow> addr \<Rightarrow> bool" where
  "body_ok m p c a \<longleftrightarrow> precvMemPointer c = Some a
     \<and> (let b = read_obj a m in
         mb_hdr b = \<lparr>pConn = p, iCurrsequence = cseq c\<rparr>
         \<and> length (mb_pkg b) = e_pkgLen (mb_pkg b) \<and> valid_len (length (mb_pkg b)))"

definition recv_ok :: "memory \<Rightarrow> connptr \<Rightarrow> conn \<Rightarrow> bool" where
  "recv_ok m p c \<longleftrightarrow> length (dataHeadInfo c) = DATA_BUFSIZE \<and>
     (case curStat c of
        PKG_HD_INIT \<Rightarrow> precvMemPointer c = None \<and> precvbuf c = HeadPtr 0
          \<and> irecvlen c = m_iLenPkgHeader
      | PKG_HD_RECVING \<Rightarrow> precvMemPointer c = None
          \<and> precvbuf c = HeadPtr (m_iLenPkgHeader - irecvlen c)
          \<and> 0 < irecvlen c \<and> irecvlen c < m_iLenPkgHeader
      | PKG_BD_INIT \<Rightarrow> (case precvMemPointer c of
            None \<Rightarrow> False
          | Some a \<Rightarrow> body_ok m p c a \<and> precvbuf c = PkgPtr a m_iLenPkgHeader
              \<and> length (mb_pkg (read_obj a m)) = m_iLenPkgHeader + irecvlen c \<and> 0 < irecvlen c)
      | PKG_BD_RECVING \<Rightarrow> (case precvMemPointer c of
            None \<Rightarrow> False
          | Some a \<Rightarrow> body_ok m p c a
              \<and> precvbuf c = PkgPtr a (length (mb_pkg (read_obj a m)) - irecvlen c)
              \<and> 0 < irecvlen c
              \<and> m_iLenPkgHeader + irecvlen c < length (mb_pkg (read_obj a m))))"

text \<open>The bytes of the unfinished packet that have come in.\<close>

definition recv_got :: "memory \<Rightarrow> conn \<Rightarrow> bytes" where
  "recv_got m c =
     (case curStat c of
        PKG_HD_INIT \<Rightarrow> []
      | PKG_HD_RECVING \<Rightarrow> take (m_iLenPkgHeader - irecvlen c) (dataHeadInfo c)
      | _ \<Rightarrow> (case precvMemPointer c of
            None \<Rightarrow> []
          | Some a \<Rightarrow> take (length (mb_pkg (read_obj a m)) - irecvlen c) (mb_pkg (read_obj a m))))"

lemma recv_got_incomplete:
  assumes "recv_ok m p c"
  shows "parse (recv_got m c) = ([], recv_got m c)"
proof (cases "curStat c")
  case PKG_HD_INIT
  then show ?thesis by (simp add: recv_got_def)
next
  case PKG_HD_RECVING
  with assms show ?thesis by (intro parse_short) (auto simp: recv_got_def recv_ok_def)
next
  case PKG_BD_INIT
  with assms show ?thesis
    by (intro parse_waiting) (auto simp: recv_got_def recv_ok_def body_ok_def Let_def split: option.splits)
next
  case PKG_BD_RECVING
  with assms show ?thesis
    by (intro parse_waiting) (auto simp: recv_got_def recv_ok_def body_ok_def Let_def split: option.splits)
qed

section \<open>What receiving leaves alone\<close>

text \<open>A connection without its receiving part: equality of these is the frame of receiving.\<close>

definition recv_erase :: "conn \<Rightarrow> conn" where
  "recv_erase c = c\<lparr>curStat := PKG_HD_INIT, dataHeadInfo := [], precvbuf := NullPtr, irecvlen := 0,
     precvMemPointer := None, FloodkickLastTime := 0, FloodAttackCount := 0\<rparr>"

definition recv_frame :: "connptr \<Rightarrow> server \<Rightarrow> server \<Rightarrow> bool" where
  "recv_frame p s s' \<longleftrightarrow> sconf s' = sconf s \<and> stimer s' = stimer s \<and> skern s' = skern s
     \<and> m_MsgSendQueue s' = m_MsgSendQueue s \<and> m_iSendMsgQueueCount s' = m_iSendMsgQueueCount s
     \<and> m_semEventSendQueue s' = m_semEventSendQueue s
     \<and> pool_shape (spool s') = pool_shape (spool s)
     \<and> (\<forall>q. q \<noteq> p \<longrightarrow> cn s' q = cn s q) \<and> recv_erase (cn s' p) = recv_erase (cn s p)"

lemma recv_frame_refl [simp]: "recv_frame p s s"
  by (simp add: recv_frame_def)

lemma recv_frame_trans: "recv_frame p s t \<Longrightarrow> recv_frame p t u \<Longrightarrow> recv_frame p s u"
  by (simp add: recv_frame_def)

lemma recv_frame_upd:
  "recv_erase (f (cn s p)) = recv_erase (cn s p) \<Longrightarrow> recv_frame p s (upd_cn p f s)"
  by (simp add: recv_frame_def pool_shape_upd)

lemma recv_frame_fields [simp]:
  "recv_frame p s (s\<lparr>smem := m\<rparr>)"
  "recv_frame p s (s\<lparr>m_MsgRecvQueue := q, m_iRecvMsgQueueCount := n\<rparr>)"
  "recv_frame p s (free_buf a s)"
  by (simp_all add: recv_frame_def)

lemma recv_erase_eqD:
  assumes "recv_erase c = recv_erase d"
  shows "fd c = fd d" "cseq c = cseq d" "psendMemPointer c = psendMemPointer d"
    "psendbuf c = psendbuf d" "isendlen c = isendlen d" "iThrowsendCount c = iThrowsendCount d"
    "iSendCount c = iSendCount d" "listening c = listening d" "events c = events d"
    "rhandler c = rhandler d" "whandler c = whandler d" "lastPingTime c = lastPingTime d"
    "inRecyTime c = inRecyTime d"
  using arg_cong [OF assms, of fd] arg_cong [OF assms, of cseq]
    arg_cong [OF assms, of psendMemPointer] arg_cong [OF assms, of psendbuf]
    arg_cong [OF assms, of isendlen] arg_cong [OF assms, of iThrowsendCount]
    arg_cong [OF assms, of iSendCount] arg_cong [OF assms, of listening]
    arg_cong [OF assms, of events] arg_cong [OF assms, of rhandler]
    arg_cong [OF assms, of whandler] arg_cong [OF assms, of lastPingTime]
    arg_cong [OF assms, of inRecyTime]
  by (simp_all add: recv_erase_def)

lemma recv_frame_lists:
  assumes "recv_frame p s s'"
  shows "m_connectionList (spool s') = m_connectionList (spool s)"
    "m_freeconnectionList (spool s') = m_freeconnectionList (spool s)"
    "m_recyconnectionList (spool s') = m_recyconnectionList (spool s)"
    "in_use (spool s') = in_use (spool s)" "closable s' q = closable s q"
    "m_onlineUserCount (spool s') = m_onlineUserCount (spool s)" "pool_inv (spool s') = pool_inv (spool s)"
proof -
  from assms have shape: "pool_shape (spool s') = pool_shape (spool s)" by (simp add: recv_frame_def)
  show "m_connectionList (spool s') = m_connectionList (spool s)"
    "m_freeconnectionList (spool s') = m_freeconnectionList (spool s)"
    and R: "m_recyconnectionList (spool s') = m_recyconnectionList (spool s)"
    and U: "in_use (spool s') = in_use (spool s)"
    and "m_onlineUserCount (spool s') = m_onlineUserCount (spool s)"
    "pool_inv (spool s') = pool_inv (spool s)"
    by (simp_all only: pool_shapeD [OF shape])
  from R U show "closable s' q = closable s q" by (simp only: closable_def)
qed

lemma TestFlood_erase: "recv_erase (snd (TestFlood cf ms c)) = recv_erase c"
  by (simp add: TestFlood_def Let_def recv_erase_def)

lemma TestFlood_recv [simp]:
  "precvMemPointer (snd (TestFlood cf ms c)) = precvMemPointer c"
  "dataHeadInfo (snd (TestFlood cf ms c)) = dataHeadInfo c"
  "psendMemPointer (snd (TestFlood cf ms c)) = psendMemPointer c"
  by (simp_all add: TestFlood_def Let_def)

section \<open>One read\<close>

text \<open>
  What processing a piece of the stream of connection \<open>p\<close> achieves, from state \<open>s\<close> to state \<open>s'\<close>,
  when \<open>got\<close> are the bytes of the unfinished packet including the new ones: the buffers stay
  accounted for, the rest of the connection and all other connections are untouched, the state
  machine is in a well-formed state again, and the packet the parser finds in \<open>got\<close> (if any) is at
  the end of the receive queue, unless the flood test struck. The test counts at most one per packet,
  and strikes only when the configured count is reached.
\<close>

definition flood_count :: "conn \<Rightarrow> int" where
  "flood_count c = max 0 (FloodAttackCount c)"

definition recv_outcome ::
  "connptr \<Rightarrow> addr multiset \<Rightarrow> bytes \<Rightarrow> server \<Rightarrow> bool \<Rightarrow> server \<Rightarrow> bool" where
  "recv_outcome p E got s flood s' \<longleftrightarrow>
     acct E s' \<and> recv_frame p s s' \<and> recv_ok (smem s') p (cn s' p)
     \<and> snd (parse got) = recv_got (smem s') (cn s' p)
     \<and> (if fst (parse got) = [] \<or> flood then m_MsgRecvQueue s' = m_MsgRecvQueue s
           \<and> m_iRecvMsgQueueCount s' = m_iRecvMsgQueueCount s
        else \<exists>a. m_MsgRecvQueue s' = m_MsgRecvQueue s @ [a]
           \<and> m_iRecvMsgQueueCount s' = m_iRecvMsgQueueCount s + 1
           \<and> fst (parse got) = [queued_pkg (smem s') a]
           \<and> hdr (smem s') a = \<lparr>pConn = p, iCurrsequence = cseq (cn s p)\<rparr>
           \<and> length (queued_pkg (smem s') a) = e_pkgLen (queued_pkg (smem s') a)
           \<and> valid_len (e_pkgLen (queued_pkg (smem s') a)))
     \<and> flood_count (cn s' p) \<le> flood_count (cn s p) + int (length (fst (parse got)))
     \<and> (flood \<longrightarrow> (\<exists>pkg. fst (parse got) = [pkg]) \<and> m_floodAkEnable (sconf s) = 1
           \<and> m_floodKickCount (sconf s) \<le> flood_count (cn s p) + 1)"

lemma recv_outcome_from:
  assumes "recv_outcome p E got s1 flood s'" and "recv_frame p s s1"
    and "m_MsgRecvQueue s1 = m_MsgRecvQueue s" and "m_iRecvMsgQueueCount s1 = m_iRecvMsgQueueCount s"
    and "flood_count (cn s1 p) = flood_count (cn s p)"
  shows "recv_outcome p E got s flood s'"
proof -
  have "recv_frame p s s'"
    using recv_frame_trans [OF assms(2)] assms(1) by (simp add: recv_outcome_def)
  moreover have "cseq (cn s1 p) = cseq (cn s p)" and "sconf s1 = sconf s"
    using assms(2) by (auto simp: recv_frame_def dest: recv_erase_eqD)
  ultimately show ?thesis
    using assms(1,3-5) by (auto simp: recv_outcome_def split: if_splits)
qed

text \<open>The end of a packet: the buffer goes to the queue, or is dropped as part of a flood.\<close>

lemma flood_check_eq:
  obtains f c where "flood_check p ms s = (f, upd_cn p (\<lambda>_. c) s)"
    and "recv_erase c = recv_erase (cn s p)" and "precvMemPointer c = precvMemPointer (cn s p)"
    and "dataHeadInfo c = dataHeadInfo (cn s p)" and "psendMemPointer c = psendMemPointer (cn s p)"
    and "f \<longrightarrow> m_floodAkEnable (sconf s) = 1 \<and> m_floodKickCount (sconf s) \<le> flood_count (cn s p) + 1"
    and "flood_count c \<le> flood_count (cn s p) + 1"
proof (cases "m_floodAkEnable (sconf s) = 1")
  case True
  then show thesis
    using that [of "fst (TestFlood (sconf s) ms (cn s p))" "snd (TestFlood (sconf s) ms (cn s p))"]
    by (auto simp: flood_check_def case_prod_beta Let_def TestFlood_erase)
      (auto simp: TestFlood_def Let_def flood_count_def split: if_splits)
next
  case False
  then show thesis
    using that [of False "cn s p"] by (simp add: flood_check_def upd_cn_def upd_conn_def)
qed

lemma finish_packet_outcome:
  assumes A: "acct E s" and p: "p \<in> set (m_connectionList (spool s))"
    and a: "precvMemPointer (cn s p) = Some a" and dh: "length (dataHeadInfo (cn s p)) = DATA_BUFSIZE"
    and hd: "hdr (smem s) a = \<lparr>pConn = p, iCurrsequence = cseq (cn s p)\<rparr>"
    and len: "length (queued_pkg (smem s) a) = e_pkgLen (queued_pkg (smem s) a)"
    and ok: "valid_len (e_pkgLen (queued_pkg (smem s) a))"
    and fin: "finish_packet p ms s = (flood, s')"
  shows "recv_outcome p E (queued_pkg (smem s) a) s flood s'
    \<and> mem_step {} (smem s) (smem s')"
proof -
  let ?pkg = "queued_pkg (smem s) a"
  have parse: "parse ?pkg = ([?pkg], [])"
    using len ok by (simp add: parse_packet valid_len_def)
  obtain f c where fl: "flood_check p ms s = (f, upd_cn p (\<lambda>_. c) s)"
    and c: "recv_erase c = recv_erase (cn s p)" "precvMemPointer c = Some a"
      "dataHeadInfo c = dataHeadInfo (cn s p)" "psendMemPointer c = psendMemPointer (cn s p)"
    and en: "f \<longrightarrow> m_floodAkEnable (sconf s) = 1 \<and> m_floodKickCount (sconf s) \<le> flood_count (cn s p) + 1"
    and cnt: "flood_count c \<le> flood_count (cn s p) + 1"
    by (rule flood_check_eq [of p ms s]) (simp add: a)
  have f: "f = flood" using fin fl by (simp add: finish_packet_def)
  let ?f = "\<lambda>c. reset_recv (c\<lparr>precvMemPointer := None\<rparr>)"
  let ?t = "upd_cn p (\<lambda>_. ?f c) s"
  have s': "s' = (if flood then free_buf (Some a) ?t
      else ?t\<lparr>m_MsgRecvQueue := m_MsgRecvQueue s @ [a],
              m_iRecvMsgQueueCount := m_iRecvMsgQueueCount s + 1\<rparr>)"
    using fin fl c(2)
    by (auto simp: f finish_packet_def qc_wait_request_handler_proc_plast_def inMsgRecvQueue_def
        free_buf_def upd_cn_def upd_conn_def)
  have t: "acct (add_mset a E) ?t"
    by (rule acct_move [OF A p])
      (simp add: conn_bufs_def a c(4) reset_recv_def)
  have er: "recv_erase (?f c) = recv_erase (cn s p)"
    using c(1) by (simp add: recv_erase_def reset_recv_def)
  have frame: "recv_frame p s ?t" by (rule recv_frame_upd) (simp add: er)
  have acct: "acct E s'"
    using t acct_free_buf [of E "Some a" ?t] acct_enqueue_recv [of a E ?t]
    by (simp add: s')
  have frame': "recv_frame p s s'"
    using recv_frame_trans [OF frame] by (simp add: s')
  have cn': "cn s' p = ?f c" by (simp add: s')
  then have "recv_ok (smem s') p (cn s' p)" and "recv_got (smem s') (cn s' p) = []"
    using dh c(3) by (simp_all add: recv_ok_def recv_got_def reset_recv_def)
  moreover have "\<not> flood \<Longrightarrow> smem s' = smem s" by (simp add: s')
  moreover have "flood_count (cn s' p) \<le> flood_count (cn s p) + 1"
    using cnt by (simp add: cn' reset_recv_def flood_count_def)
  ultimately show ?thesis
    using acct frame' hd len ok en f by (auto simp: recv_outcome_def parse s')
qed

text \<open>The buffer that \<open>qc_wait_request_handler_proc_p1\<close> allocates and fills.\<close>

lemma alloc_packet_spec:
  assumes A: "acct E s" and dh: "length (dataHeadInfo (cn s p)) = DATA_BUFSIZE"
    and len: "m_iLenPkgHeader \<le> len" and al: "alloc_packet p len s = (a, s1)"
  shows "acct (add_mset a E) s1" and "s1 = s\<lparr>smem := smem s1\<rparr>"
    and "mem_step {} (smem s) (smem s1)"
    and "hdr (smem s1) a = \<lparr>pConn = p, iCurrsequence = cseq (cn s p)\<rparr>"
    and "length (queued_pkg (smem s1) a) = len"
    and "take m_iLenPkgHeader (queued_pkg (smem s1) a) = take m_iLenPkgHeader (dataHeadInfo (cn s p))"
proof -
  obtain m where m: "AllocMemory (m_iLenMsgHeader + len) False (smem s) = (a, m)"
    by (cases "AllocMemory (m_iLenMsgHeader + len) False (smem s)")
      (use al in \<open>auto simp: alloc_packet_def\<close>)
  have a: "a = mem_next (smem s)"
    by (metis fst_AllocMemory fst_conv m)
  have m': "m = snd (AllocMemory (m_iLenMsgHeader + len) False (smem s))" using m by simp
  have live: "a \<in> live m" by (simp add: m' a)
  have blen: "length (mb_pkg (read_obj a m)) = len"
    using AllocMemory_length [of "smem s" "m_iLenMsgHeader + len" False] by (simp add: m' a)
  let ?b = "\<lparr>mb_hdr = \<lparr>pConn = p, iCurrsequence = cseq (cn s p)\<rparr>,
    mb_pkg = write_at 0 (take m_iLenPkgHeader (dataHeadInfo (cn s p))) (mb_pkg (read_obj a m))\<rparr>"
  have s1: "s1 = s\<lparr>smem := write_obj a ?b m\<rparr>"
    using al m by (simp add: alloc_packet_def)
  then show "s1 = s\<lparr>smem := smem s1\<rparr>" by simp
  show "acct (add_mset a E) s1"
    using acct_alloc [OF A m] live acct_write [of a "s\<lparr>smem := m\<rparr>" "add_mset a E" ?b] by (simp add: s1)
  show "mem_step {} (smem s) (smem s1)"
    by (auto simp: s1 m' a mem_step_def write_obj_def add_fault_def AllocMemory_def Let_def)
  show "hdr (smem s1) a = \<lparr>pConn = p, iCurrsequence = cseq (cn s p)\<rparr>"
    using live by (simp add: s1 hdr_def)
  have 8: "length (take m_iLenPkgHeader (dataHeadInfo (cn s p))) = m_iLenPkgHeader"
    using dh by simp
  show "length (queued_pkg (smem s1) a) = len"
    using live blen len 8 by (simp add: s1 queued_pkg_def)
  show "take m_iLenPkgHeader (queued_pkg (smem s1) a) = take m_iLenPkgHeader (dataHeadInfo (cn s p))"
    using live blen len 8 by (simp add: s1 queued_pkg_def write_at_def)
qed

lemma p1_outcome:
  assumes A: "acct E s" and p: "p \<in> set (m_connectionList (spool s))"
    and np: "precvMemPointer (cn s p) = None" and dh: "length (dataHeadInfo (cn s p)) = DATA_BUFSIZE"
    and p1: "qc_wait_request_handler_proc_p1 p ms s = (flood, s')"
  shows "recv_outcome p E (take m_iLenPkgHeader (dataHeadInfo (cn s p))) s flood s'
    \<and> mem_step {} (smem s) (smem s')"
proof -
  let ?h = "take m_iLenPkgHeader (dataHeadInfo (cn s p))"
  let ?len = "e_pkgLen (dataHeadInfo (cn s p))"
  have lenh: "e_pkgLen ?h = ?len" and hlen: "length ?h = m_iLenPkgHeader" using dh by simp_all
  show ?thesis
  proof (cases "valid_len ?len")
    case False
    then have "flood = False" "s' = upd_cn p reset_recv s"
      using p1 by (auto simp: qc_wait_request_handler_proc_p1_def valid_len_def Let_def split: if_splits)
    moreover have "parse ?h = ([], [])"
      using False hlen lenh by (simp add: parse_bad_header)
    ultimately show ?thesis
      using A np dh
      by (simp add: recv_outcome_def recv_ok_def recv_got_def reset_recv_def recv_frame_upd
          recv_erase_def acct_upd_cn conn_bufs_def flood_count_def)
  next
    case True
    then have ge: "m_iLenPkgHeader \<le> ?len" by (simp add: valid_len_def)
    obtain a s1 where al: "alloc_packet p ?len s = (a, s1)" by (cases "alloc_packet p ?len s")
    note al' = alloc_packet_spec [OF A dh ge al]
    let ?s2 = "upd_cn p (\<lambda>c. c\<lparr>precvMemPointer := Some a\<rparr>) s1"
    have sp: "spool s1 = spool s" by (subst al'(2)) simp
    then have cn1: "cn s1 q = cn s q" "spool s1 = spool s" for q by simp_all
    have acct2: "acct E ?s2"
      by (rule acct_move [OF al'(1)]) (simp_all add: cn1 p np conn_bufs_def)
    have frame2: "recv_frame p s ?s2"
    proof (rule recv_frame_trans)
      show "recv_frame p s s1" by (subst al'(2)) simp
      show "recv_frame p s1 ?s2" by (rule recv_frame_upd) (simp add: recv_erase_def)
    qed
    have q2: "m_MsgRecvQueue ?s2 = m_MsgRecvQueue s" "m_iRecvMsgQueueCount ?s2 = m_iRecvMsgQueueCount s"
      by (simp, subst al'(2), simp)+
    have n2: "flood_count (cn ?s2 p) = flood_count (cn s p)" by (simp add: cn1 flood_count_def)
    have pkg: "e_pkgLen (queued_pkg (smem s1) a) = ?len"
      using arg_cong [OF al'(6), of e_pkgLen] by simp
    show ?thesis
    proof (cases "?len = m_iLenPkgHeader")
      case True
      with p1 al \<open>valid_len ?len\<close> have fin: "finish_packet p ms ?s2 = (flood, s')"
        by (simp add: qc_wait_request_handler_proc_p1_def valid_len_def)
      have "queued_pkg (smem s1) a = ?h" using al'(5,6) True by simp
      moreover have "recv_outcome p E (queued_pkg (smem ?s2) a) ?s2 flood s'
          \<and> mem_step {} (smem ?s2) (smem s')"
        by (rule finish_packet_outcome [OF acct2 _ _ _ _ _ _ fin])
          (use p dh al'(4,5) pkg \<open>valid_len ?len\<close> in \<open>simp_all add: cn1\<close>)
      ultimately show ?thesis
        using recv_outcome_from [OF _ frame2 q2 n2] mem_step_trans_same [OF al'(3)] by simp
    next
      case False
      let ?f = "\<lambda>c. c\<lparr>curStat := PKG_BD_INIT, precvbuf := PkgPtr a m_iLenPkgHeader,
        irecvlen := ?len - m_iLenPkgHeader\<rparr>"
      from False p1 al \<open>valid_len ?len\<close> have "flood = False" and s': "s' = upd_cn p ?f ?s2"
        by (simp_all add: qc_wait_request_handler_proc_p1_def valid_len_def)
      moreover have "parse ?h = ([], ?h)"
        using False ge hlen lenh \<open>valid_len ?len\<close> by (intro parse_waiting) auto
      moreover have "acct E s'"
        unfolding s' using acct2 by (subst acct_upd_cn) (simp_all add: conn_bufs_def)
      moreover have "recv_frame p s s'"
        unfolding s' by (rule recv_frame_trans [OF frame2], rule recv_frame_upd)
          (simp add: recv_erase_def)
      moreover have "recv_ok (smem s') p (cn s' p)" and "recv_got (smem s') (cn s' p) = ?h"
        using dh al'(4,5,6) pkg False ge \<open>valid_len ?len\<close>
        by (simp_all add: s' cn1 recv_ok_def body_ok_def recv_got_def Let_def hdr_def queued_pkg_def)
      moreover have "flood_count (cn s' p) = flood_count (cn s p)" by (simp add: s' cn1 flood_count_def)
      ultimately show ?thesis using q2 al'(3) by (simp add: recv_outcome_def)
    qed
  qed
qed

lemma recv_outcome_waiting:
  "acct E s' \<Longrightarrow> recv_frame p s s' \<Longrightarrow> recv_ok (smem s') p (cn s' p) \<Longrightarrow> parse got = ([], got) \<Longrightarrow>
   recv_got (smem s') (cn s' p) = got \<Longrightarrow> m_MsgRecvQueue s' = m_MsgRecvQueue s \<Longrightarrow>
   m_iRecvMsgQueueCount s' = m_iRecvMsgQueueCount s \<Longrightarrow>
   flood_count (cn s' p) = flood_count (cn s p) \<Longrightarrow> recv_outcome p E got s False s'"
  by (simp add: recv_outcome_def)

text \<open>A piece of a packet header.\<close>

lemma recv_header_outcome:
  assumes A: "acct E s" and p: "p \<in> set (m_connectionList (spool s))"
    and st: "curStat (cn s p) = PKG_HD_INIT \<or> curStat (cn s p) = PKG_HD_RECVING"
    and ok: "recv_ok (smem s) p (cn s p)"
    and bs: "bs \<noteq> []" "length bs \<le> irecvlen (cn s p)"
    and run: "recv_state p (length bs) ms (store_recv p (precvbuf (cn s p)) bs s) = (flood, s')"
  shows "recv_outcome p E (recv_got (smem s) (cn s p) @ bs) s flood s' \<and> mem_step {} (smem s) (smem s')"
proof -
  let ?off = "m_iLenPkgHeader - irecvlen (cn s p)"
  let ?dh = "dataHeadInfo (cn s p)"
  let ?f = "\<lambda>c. c\<lparr>dataHeadInfo := write_at ?off bs (dataHeadInfo c)\<rparr>"
  let ?s1 = "upd_cn p ?f s"
  have np: "precvMemPointer (cn s p) = None" and buf: "precvbuf (cn s p) = HeadPtr ?off"
    and dh: "length ?dh = DATA_BUFSIZE" and n: "0 < irecvlen (cn s p)" "irecvlen (cn s p) \<le> m_iLenPkgHeader"
    and init: "curStat (cn s p) = PKG_HD_INIT \<Longrightarrow> irecvlen (cn s p) = m_iLenPkgHeader"
    using ok st by (auto simp: recv_ok_def)
  have got: "recv_got (smem s) (cn s p) = take ?off ?dh"
    using st init by (auto simp: recv_got_def)
  have store: "store_recv p (precvbuf (cn s p)) bs s = ?s1"
    using bs n by (simp add: store_recv_def buf)
  have dh1: "length (write_at ?off bs ?dh) = DATA_BUFSIZE"
    and tk: "take (?off + length bs) (write_at ?off bs ?dh) = take ?off ?dh @ bs"
    using bs n dh by (simp, intro take_write_at) simp
  have A1: "acct E ?s1" using A by (simp add: acct_upd_cn conn_bufs_def)
  have F1: "recv_frame p s ?s1" by (rule recv_frame_upd) (simp add: recv_erase_def)
  show ?thesis
  proof (cases "length bs = irecvlen (cn s p)")
    case True
    have "qc_wait_request_handler_proc_p1 p ms ?s1 = (flood, s')"
      using run st init True store by (auto simp: recv_state_def)
    then have "recv_outcome p E (take m_iLenPkgHeader (dataHeadInfo (cn ?s1 p))) ?s1 flood s'
        \<and> mem_step {} (smem ?s1) (smem s')"
      using A1 p np dh1 by (intro p1_outcome) simp_all
    moreover have "take m_iLenPkgHeader (dataHeadInfo (cn ?s1 p)) = recv_got (smem s) (cn s p) @ bs"
      using tk True n by (simp add: got)
    ultimately show ?thesis using recv_outcome_from [OF _ F1] by (simp add: flood_count_def)
  next
    case False
    then have fl: "flood = False" and s': "s' = recv_more p PKG_HD_RECVING (length bs) ?s1"
      using run st init store by (auto simp: recv_state_def)
    have lt: "0 < length bs" "length bs < irecvlen (cn s p)" using bs False by auto
    have small: "irecvlen (cn s p) - length bs < m_iLenPkgHeader" using lt n by linarith
    have c: "cn s' p = (cn s p)\<lparr>dataHeadInfo := write_at ?off bs ?dh, curStat := PKG_HD_RECVING,
        precvbuf := HeadPtr (?off + length bs), irecvlen := irecvlen (cn s p) - length bs\<rparr>"
      by (simp add: s' recv_more_def buf)
    have off: "m_iLenPkgHeader - (irecvlen (cn s p) - length bs) = ?off + length bs"
      using lt n by linarith
    have "acct E s'"
      using A1 unfolding s' recv_more_def by (subst acct_upd_cn) (simp_all add: conn_bufs_def)
    moreover have "recv_frame p s s'"
      unfolding s' recv_more_def by (rule recv_frame_trans [OF F1], rule recv_frame_upd)
        (simp add: recv_erase_def)
    moreover have c2: "curStat (cn s' p) = PKG_HD_RECVING" "precvMemPointer (cn s' p) = None"
      "irecvlen (cn s' p) = irecvlen (cn s p) - length bs"
      "length (dataHeadInfo (cn s' p)) = DATA_BUFSIZE"
      using np dh1 by (simp_all add: c)
    have "precvbuf (cn s' p) = HeadPtr (m_iLenPkgHeader - irecvlen (cn s' p))"
      unfolding c2 off by (simp add: c)
    then have "recv_ok (smem s') p (cn s' p)"
      using c2 lt small unfolding recv_ok_def by simp
    moreover have "parse (take ?off ?dh @ bs) = ([], take ?off ?dh @ bs)"
      using lt n dh by (intro parse_short) simp
    moreover have "recv_got (smem s') (cn s' p) = take ?off ?dh @ bs"
      using tk unfolding recv_got_def c2 off by (simp add: c)
    moreover have "m_MsgRecvQueue s' = m_MsgRecvQueue s"
      "m_iRecvMsgQueueCount s' = m_iRecvMsgQueueCount s"
      by (simp_all add: s' recv_more_def)
    moreover have "flood_count (cn s' p) = flood_count (cn s p)" by (simp add: c flood_count_def)
    ultimately have "recv_outcome p E (take ?off ?dh @ bs) s False s'"
      by (rule recv_outcome_waiting)
    moreover have "smem s' = smem s" by (simp add: s' recv_more_def)
    ultimately show ?thesis by (simp add: fl got)
  qed
qed

text \<open>A piece of a packet body.\<close>

lemma recv_body_outcome:
  assumes A: "acct E s" and p: "p \<in> set (m_connectionList (spool s))"
    and st: "curStat (cn s p) = PKG_BD_INIT \<or> curStat (cn s p) = PKG_BD_RECVING"
    and ok: "recv_ok (smem s) p (cn s p)"
    and bs: "bs \<noteq> []" "length bs \<le> irecvlen (cn s p)"
    and run: "recv_state p (length bs) ms (store_recv p (precvbuf (cn s p)) bs s) = (flood, s')"
  shows "recv_outcome p E (recv_got (smem s) (cn s p) @ bs) s flood s'
    \<and> mem_step (set_option (precvMemPointer (cn s p))) (smem s) (smem s')"
proof -
  obtain a where a: "precvMemPointer (cn s p) = Some a"
    using ok st by (auto simp: recv_ok_def split: option.splits)
  let ?pkg = "queued_pkg (smem s) a"
  let ?off = "length ?pkg - irecvlen (cn s p)"
  have hd: "hdr (smem s) a = \<lparr>pConn = p, iCurrsequence = cseq (cn s p)\<rparr>"
    and len: "length ?pkg = e_pkgLen ?pkg" and vl: "valid_len (length ?pkg)"
    and buf: "precvbuf (cn s p) = PkgPtr a ?off"
    and dh: "length (dataHeadInfo (cn s p)) = DATA_BUFSIZE"
    and n: "0 < irecvlen (cn s p)" "m_iLenPkgHeader + irecvlen (cn s p) \<le> length ?pkg"
    using ok st a by (auto simp: recv_ok_def body_ok_def Let_def hdr_def queued_pkg_def)
  have got: "recv_got (smem s) (cn s p) = take ?off ?pkg"
    using st a by (auto simp: recv_got_def queued_pkg_def)
  have live: "a \<in> live (smem s)"
    using A p a by (intro acct_conn_live [of E s p]) (auto simp: conn_bufs_def)
  let ?m1 = "write_obj a ((read_obj a (smem s))\<lparr>mb_pkg := write_at ?off bs ?pkg\<rparr>) (smem s)"
  let ?s1 = "s\<lparr>smem := ?m1\<rparr>"
  have store: "store_recv p (precvbuf (cn s p)) bs s = ?s1"
    using bs n live by (simp add: store_recv_def buf queued_pkg_def Let_def)
  have pkg1: "queued_pkg ?m1 a = write_at ?off bs ?pkg" and hd1: "hdr ?m1 a = hdr (smem s) a"
    using live by (simp_all add: queued_pkg_def hdr_def)
  have len1: "length (queued_pkg ?m1 a) = length ?pkg"
    and tk: "take (?off + length bs) (queued_pkg ?m1 a) = take ?off ?pkg @ bs"
    unfolding pkg1 using bs n by (simp, intro take_write_at) simp
  have "e_pkgLen (take m_iLenPkgHeader (queued_pkg ?m1 a)) = e_pkgLen (take m_iLenPkgHeader ?pkg)"
    using n bs by (simp only: pkg1) (subst take_write_at_before, simp_all)
  then have e1: "e_pkgLen (queued_pkg ?m1 a) = e_pkgLen ?pkg" by simp
  have A1: "acct E ?s1" using A live by (simp add: acct_write)
  have F1: "recv_frame p s ?s1" by simp
  have step1: "mem_step (set_option (precvMemPointer (cn s p))) (smem s) ?m1"
    by (rule mem_step_write) (simp add: a)
  show ?thesis
  proof (cases "length bs = irecvlen (cn s p)")
    case True
    have "finish_packet p ms ?s1 = (flood, s')"
      using run st True store by (auto simp: recv_state_def)
    then have "recv_outcome p E (queued_pkg (smem ?s1) a) ?s1 flood s'
        \<and> mem_step {} (smem ?s1) (smem s')"
      using A1 p a dh hd hd1 len1 e1 len vl by (intro finish_packet_outcome) simp_all
    moreover have "queued_pkg ?m1 a = recv_got (smem s) (cn s p) @ bs"
      using tk len1 True n by (simp add: got)
    ultimately show ?thesis
      using recv_outcome_from [OF _ F1] mem_step_trans [OF step1, of "{}"] by simp
  next
    case False
    then have fl: "flood = False" and s': "s' = recv_more p PKG_BD_RECVING (length bs) ?s1"
      using run st store by (auto simp: recv_state_def)
    have lt: "0 < length bs" "length bs < irecvlen (cn s p)" using bs False by auto
    have small: "8 + irecvlen (cn s p) - length bs < length ?pkg"
      using lt n unfolding m_iLenPkgHeader_def by linarith
    have m: "smem s' = ?m1" by (simp add: s' recv_more_def)
    have c: "cn s' p = (cn s p)\<lparr>curStat := PKG_BD_RECVING, precvbuf := PkgPtr a (?off + length bs),
        irecvlen := irecvlen (cn s p) - length bs\<rparr>"
      by (simp add: s' recv_more_def buf)
    have off: "length ?pkg - (irecvlen (cn s p) - length bs) = ?off + length bs"
      using bs n by simp
    have len1': "length (mb_pkg (read_obj a ?m1)) = length ?pkg"
      using len1 by (simp add: queued_pkg_def)
    have "acct E s'"
      using A1 unfolding s' recv_more_def by (subst acct_upd_cn) (simp_all add: conn_bufs_def)
    moreover have "recv_frame p s s'"
      unfolding s' recv_more_def by (rule recv_frame_trans [OF F1], rule recv_frame_upd)
        (simp add: recv_erase_def)
    moreover have "body_ok ?m1 p (cn s' p) a"
      using a hd hd1 len1 e1 len vl
      by (simp add: c body_ok_def Let_def hdr_def queued_pkg_def)
    then have "recv_ok (smem s') p (cn s' p)"
      unfolding m recv_ok_def using dh a lt n small
      by (simp add: c len1' off)
    moreover have "parse (take ?off ?pkg @ bs) = ([], take ?off ?pkg @ bs)"
    proof -
      have "e_pkgLen (take ?off ?pkg @ bs) = e_pkgLen ?pkg" using n by simp
      then show ?thesis using lt n vl len by (intro parse_waiting) auto
    qed
    moreover have "recv_got (smem s') (cn s' p) = take ?off ?pkg @ bs"
    proof -
      have "recv_got (smem s') (cn s' p) =
          take (length (queued_pkg ?m1 a) - (irecvlen (cn s p) - length bs)) (queued_pkg ?m1 a)"
        unfolding m using a by (simp add: c recv_got_def queued_pkg_def)
      then show ?thesis by (simp only: len1 off tk)
    qed
    moreover have "m_MsgRecvQueue s' = m_MsgRecvQueue s"
      "m_iRecvMsgQueueCount s' = m_iRecvMsgQueueCount s"
      by (simp_all add: s' recv_more_def)
    moreover have "flood_count (cn s' p) = flood_count (cn s p)" by (simp add: c flood_count_def)
    ultimately have "recv_outcome p E (take ?off ?pkg @ bs) s False s'"
      by (rule recv_outcome_waiting)
    then show ?thesis using step1 by (simp add: fl got m)
  qed
qed

lemma recv_data_outcome:
  assumes "acct E s" and "p \<in> set (m_connectionList (spool s))" and "recv_ok (smem s) p (cn s p)"
    and "bs \<noteq> []" "length bs \<le> irecvlen (cn s p)"
    and "recv_state p (length bs) ms (store_recv p (precvbuf (cn s p)) bs s) = (flood, s')"
  shows "recv_outcome p E (recv_got (smem s) (cn s p) @ bs) s flood s'
    \<and> mem_step (set_option (precvMemPointer (cn s p))) (smem s) (smem s')"
  using recv_header_outcome [OF assms(1,2) _ assms(3-6)] recv_body_outcome [OF assms(1,2) _ assms(3-6)]
    mem_step_mono [of "{}" "smem s" "smem s'" "set_option (precvMemPointer (cn s p))"]
  by (cases "curStat (cn s p)") auto

section \<open>The read handler\<close>

lemma recv_ok_pending: "recv_ok m p c \<Longrightarrow> 0 < irecvlen c"
  by (cases "curStat c") (auto simp: recv_ok_def split: option.splits)

lemma read_handler_data:
  assumes "fd (cn s p) \<noteq> -1" and "take (irecvlen (cn s p)) bs \<noteq> []"
    and "recv_state p (length (take (irecvlen (cn s p)) bs)) ms
      (store_recv p (precvbuf (cn s p)) (take (irecvlen (cn s p)) bs) s) = (flood, s')"
  shows "qc_read_request_handler p (RecvData bs) now ms s =
    (if flood then zdClosesocketProc p now s' else s')"
  using assms(3) assms(1,2)
  by (simp add: qc_read_request_handler_def recvproc_def sys_recv_def del: length_take)

text \<open>Every other answer of the kernel leaves the state alone or closes the connection.\<close>

lemma read_handler_cases:
  obtains (data) bs where "fd (cn s p) \<noteq> -1" "r = RecvData bs" "take (irecvlen (cn s p)) bs \<noteq> []"
  | (idle) "qc_read_request_handler p r now ms s = s"
  | (close) "qc_read_request_handler p r now ms s = zdClosesocketProc p now s"
proof (cases "fd (cn s p) = -1")
  case True
  then show thesis
    by (intro close) (simp add: qc_read_request_handler_def recvproc_def sys_recv_def)
next
  case False
  note defs = qc_read_request_handler_def recvproc_def sys_recv_def
  show thesis
  proof (cases r)
    case (RecvData bs)
    show thesis
    proof (cases "take (irecvlen (cn s p)) bs = []")
      case True
      with False RecvData show thesis by (intro close) (auto simp: defs)
    next
      case nonempty: False
      show thesis by (rule data [OF False RecvData nonempty])
    qed
  next
    case RecvEOF
    with False show thesis by (intro close) (simp add: defs)
  next
    case (RecvErr e)
    with False show thesis
      by (cases "e = EAGAIN \<or> e = EINTR") (auto simp: defs intro: idle close)
  qed
qed

text \<open>
  The read handler in general: buffers stay accounted for, and the receiving state of a connection
  that is still open stays well formed.
\<close>

lemma read_handler_inv:
  assumes A: "acct E s" and cl: "closable s p" and ok: "p \<in> in_use (spool s) \<Longrightarrow> recv_ok (smem s) p (cn s p)"
    and fdok: "p \<notin> in_use (spool s) \<Longrightarrow> fd (cn s p) = -1"
    and s': "s' = qc_read_request_handler p r now ms s"
  shows "acct E s'" and "p \<in> in_use (spool s') \<Longrightarrow> recv_ok (smem s') p (cn s' p)"
proof -
  have "acct E s' \<and> (p \<in> in_use (spool s') \<longrightarrow> recv_ok (smem s') p (cn s' p))"
  proof (cases rule: read_handler_cases [where s = s and p = p and r = r and ms = ms and now = now])
    case (data bs)
    let ?bs = "take (irecvlen (cn s p)) bs"
    obtain flood t where run: "recv_state p (length ?bs) ms (store_recv p (precvbuf (cn s p)) ?bs s) = (flood, t)"
      by (cases "recv_state p (length ?bs) ms (store_recv p (precvbuf (cn s p)) ?bs s)")
    from fdok data(1) have "p \<in> in_use (spool s)" by blast
    with ok have rok: "recv_ok (smem s) p (cn s p)" .
    have "recv_outcome p E (recv_got (smem s) (cn s p) @ ?bs) s flood t"
      using recv_data_outcome [OF A _ rok data(3) _ run] closable_listed [of s p] A cl
      by (simp add: acct_def)
    then have "acct E t" "closable t p" "recv_ok (smem t) p (cn t p)"
      using cl recv_frame_lists(5) by (auto simp: recv_outcome_def)
    then show ?thesis
      using read_handler_data [OF data(1,3) run] data(2) s' by (simp add: acct_zdClose)
  next
    case idle
    with A ok s' show ?thesis by simp
  next
    case close
    with A cl s' show ?thesis by (simp add: acct_zdClose)
  qed
  then show "acct E s'" and "p \<in> in_use (spool s') \<Longrightarrow> recv_ok (smem s') p (cn s' p)" by blast+
qed

section \<open>A run of reads\<close>

text \<open>
  The bytes of the peer arrive in the socket buffer \<open>inb\<close>; a read event of the list
  \<open>(k, now, ms)\<close> finds the next \<open>k\<close> of them there (an event finds at least one), and \<open>recv\<close>
  hands out as many as were asked for. Once the server has closed the connection its socket gets no
  event. The result are the bytes not read and the final state.
\<close>

fun read_events ::
  "connptr \<Rightarrow> (nat \<times> int \<times> u64) list \<Rightarrow> bytes \<Rightarrow> server \<Rightarrow> bytes \<times> server" where
  "read_events p [] inb s = (inb, s)"
| "read_events p ((k, now, ms) # es) inb s =
     (let n = min k (irecvlen (cn s p))
      in if fd (cn s p) = -1 \<or> take n inb = [] then read_events p es inb s
         else read_events p es (drop n inb)
                (qc_read_request_handler p (RecvData (take k inb)) now ms s))"

definition new_packets :: "connptr \<Rightarrow> u64 \<Rightarrow> memory \<Rightarrow> addr list \<Rightarrow> bytes list \<Rightarrow> bool" where
  "new_packets p q m as ps \<longleftrightarrow> map (queued_pkg m) as = ps
     \<and> (\<forall>a \<in> set as. hdr m a = \<lparr>pConn = p, iCurrsequence = q\<rparr>)"

text \<open>One event. When the flood test strikes, the packet is dropped and the connection closed.\<close>

lemma read_event_step:
  assumes A: "acct E s" and p: "p \<in> set (m_connectionList (spool s))"
    and ok: "recv_ok (smem s) p (cn s p)" and sock: "fd (cn s p) \<noteq> -1"
    and bs: "take (irecvlen (cn s p)) bs \<noteq> []"
    and s': "s' = qc_read_request_handler p (RecvData bs) now ms s"
  obtains flood t where "s' = (if flood then zdClosesocketProc p now t else t)"
    and "recv_outcome p E (recv_got (smem s) (cn s p) @ take (irecvlen (cn s p)) bs) s flood t"
    and "mem_step (set_option (precvMemPointer (cn s p))) (smem s) (smem t)"
proof -
  let ?bs = "take (irecvlen (cn s p)) bs"
  obtain flood t where run: "recv_state p (length ?bs) ms (store_recv p (precvbuf (cn s p)) ?bs s) = (flood, t)"
    by (cases "recv_state p (length ?bs) ms (store_recv p (precvbuf (cn s p)) ?bs s)")
  show thesis
    by (rule that [of flood t])
      (use read_handler_data [OF sock bs run] recv_data_outcome [OF A p ok bs _ run] s' in simp_all)
qed

text \<open>
  Across any number of events: the packets the parser finds in what was read are appended to the
  receive queue in order, and what the parser leaves is the unfinished packet of the connection.
\<close>

definition recv_run_ok ::
  "connptr \<Rightarrow> addr multiset \<Rightarrow> bytes \<Rightarrow> server \<Rightarrow> server \<Rightarrow> bool" where
  "recv_run_ok p E got s s' \<longleftrightarrow> acct E s' \<and> recv_frame p s s' \<and> recv_ok (smem s') p (cn s' p)
     \<and> snd (parse got) = recv_got (smem s') (cn s' p)
     \<and> flood_count (cn s' p) \<le> flood_count (cn s p) + int (length (fst (parse got)))
     \<and> (\<exists>as. m_MsgRecvQueue s' = m_MsgRecvQueue s @ as
          \<and> m_iRecvMsgQueueCount s' = m_iRecvMsgQueueCount s + int (length as)
          \<and> new_packets p (cseq (cn s p)) (smem s') as (fst (parse got)))"

text \<open>
  The flood test is on and has struck: the last packet that the parser finds in what was read is
  dropped, those before it are in the receive queue, and the connection is closed. The configured
  number of packets was reached, counted from where the count of the connection stood.
\<close>

definition recv_kicked ::
  "connptr \<Rightarrow> addr multiset \<Rightarrow> bytes \<Rightarrow> server \<Rightarrow> server \<Rightarrow> bool" where
  "recv_kicked p E got s s' \<longleftrightarrow> m_floodAkEnable (sconf s) = 1 \<and> acct E s'
     \<and> m_floodKickCount (sconf s) \<le> flood_count (cn s p) + int (length (fst (parse got)))
     \<and> fd (cn s' p) = -1 \<and> p \<notin> in_use (spool s')
     \<and> (\<exists>as ps pkg. m_MsgRecvQueue s' = m_MsgRecvQueue s @ as \<and> fst (parse got) = ps @ [pkg]
          \<and> new_packets p (cseq (cn s p)) (smem s') as ps)"

lemma recv_outcome_kicked:
  assumes "recv_outcome p E got s True t" and "closable s p" and "s' = zdClosesocketProc p now t"
  shows "recv_kicked p E got s s'"
proof -
  have "closable t p" using assms(1,2) recv_frame_lists(5) by (auto simp: recv_outcome_def)
  with assms(1,3) show ?thesis
    by (auto simp: recv_outcome_def recv_kicked_def acct_zdClose zdClose_self new_packets_def)
qed

lemma recv_outcome_run: "recv_outcome p E got s False s' \<Longrightarrow> recv_run_ok p E got s s'"
  by (cases "fst (parse got) = []") (auto simp: recv_outcome_def recv_run_ok_def new_packets_def)

definition recvq_kept :: "server \<Rightarrow> server \<Rightarrow> bool" where
  "recvq_kept s s' \<longleftrightarrow> (\<forall>a \<in> set (m_MsgRecvQueue s). read_obj a (smem s') = read_obj a (smem s))"

lemma recvq_kept_step:
  assumes "acct E s" and "p \<in> set (m_connectionList (spool s))"
    and "mem_step (set_option (precvMemPointer (cn s p))) (smem s) (smem s')"
    and "acct E s'" and "set (m_MsgRecvQueue s) \<subseteq> set (m_MsgRecvQueue s')"
  shows "recvq_kept s s'"
  unfolding recvq_kept_def
proof
  fix a
  assume a: "a \<in> set (m_MsgRecvQueue s)"
  show "read_obj a (smem s') = read_obj a (smem s)"
  proof (rule mem_step_read [OF assms(3)])
    show "mem_wf (smem s)" using assms(1) by (simp add: acct_def)
    show "a \<in> live (smem s)"
      using a by (intro acct_live [OF assms(1)]) (auto simp: owned_def)
    show "a \<in> live (smem s')"
      using a assms(5) by (intro acct_live [OF assms(4)]) (auto simp: owned_def)
    show "a \<notin> set_option (precvMemPointer (cn s p))"
      using a acct_recvq_conn [OF assms(1,2), of a a] by (auto simp: conn_bufs_def)
  qed
qed

lemma new_packets_kept:
  assumes "new_packets p q (smem s) as ps" and "set as \<subseteq> set (m_MsgRecvQueue s)" and "recvq_kept s s'"
  shows "new_packets p q (smem s') as ps"
proof -
  have "read_obj a (smem s') = read_obj a (smem s)" if "a \<in> set as" for a
    using that assms(2,3) by (auto simp: recvq_kept_def)
  with assms(1) show ?thesis by (auto simp: new_packets_def queued_pkg_def hdr_def)
qed

lemma recv_run_trans:
  assumes r1: "recv_run_ok p E (g @ bs) s t"
    and r2: "recv_run_ok p E (recv_got (smem t) (cn t p) @ cs) t u"
    and kept: "recvq_kept t u"
  shows "recv_run_ok p E (g @ bs @ cs) s u"
proof -
  have rest: "recv_got (smem t) (cn t p) = snd (parse (g @ bs))" using r1 by (simp add: recv_run_ok_def)
  have par: "parse (g @ bs @ cs) = (fst (parse (g @ bs)) @ fst (parse (snd (parse (g @ bs)) @ cs)),
      snd (parse (snd (parse (g @ bs)) @ cs)))"
    using parse_append [of "g @ bs" cs] by simp
  obtain as where as: "m_MsgRecvQueue t = m_MsgRecvQueue s @ as"
    "m_iRecvMsgQueueCount t = m_iRecvMsgQueueCount s + int (length as)"
    "new_packets p (cseq (cn s p)) (smem t) as (fst (parse (g @ bs)))"
    using r1 by (auto simp: recv_run_ok_def)
  obtain bs' where bs': "m_MsgRecvQueue u = m_MsgRecvQueue t @ bs'"
    "m_iRecvMsgQueueCount u = m_iRecvMsgQueueCount t + int (length bs')"
    "new_packets p (cseq (cn t p)) (smem u) bs' (fst (parse (snd (parse (g @ bs)) @ cs)))"
    using r2 rest by (auto simp: recv_run_ok_def)
  have fr: "recv_frame p s t" "recv_frame p t u"
    using r1 r2 by (auto simp: recv_run_ok_def)
  have "new_packets p (cseq (cn s p)) (smem u) as (fst (parse (g @ bs)))"
    by (rule new_packets_kept [OF as(3) _ kept]) (auto simp: as)
  moreover have "cseq (cn t p) = cseq (cn s p)"
    using fr(1) by (auto simp: recv_frame_def dest: recv_erase_eqD)
  ultimately have "new_packets p (cseq (cn s p)) (smem u) (as @ bs') (fst (parse (g @ bs @ cs)))"
    using bs'(3) by (auto simp: new_packets_def par)
  moreover have "flood_count (cn t p) \<le> flood_count (cn s p) + int (length (fst (parse (g @ bs))))"
    using r1 by (simp add: recv_run_ok_def)
  ultimately show ?thesis
    using r2 as bs' fr recv_frame_trans [OF fr(1,2)]
    unfolding recv_run_ok_def par rest by (intro conjI exI [of _ "as @ bs'"]) auto
qed

lemma recv_kicked_trans:
  assumes r1: "recv_run_ok p E (g @ bs) s t"
    and r2: "recv_kicked p E (recv_got (smem t) (cn t p) @ cs) t u"
    and kept: "recvq_kept t u"
  shows "recv_kicked p E (g @ bs @ cs) s u"
proof -
  have rest: "recv_got (smem t) (cn t p) = snd (parse (g @ bs))" using r1 by (simp add: recv_run_ok_def)
  have par: "fst (parse (g @ bs @ cs)) = fst (parse (g @ bs)) @ fst (parse (snd (parse (g @ bs)) @ cs))"
    using parse_append [of "g @ bs" cs] by simp
  obtain as where as: "m_MsgRecvQueue t = m_MsgRecvQueue s @ as"
    "new_packets p (cseq (cn s p)) (smem t) as (fst (parse (g @ bs)))"
    using r1 by (auto simp: recv_run_ok_def)
  obtain bs' ps pkg where bs': "m_MsgRecvQueue u = m_MsgRecvQueue t @ bs'"
    "fst (parse (snd (parse (g @ bs)) @ cs)) = ps @ [pkg]" "new_packets p (cseq (cn t p)) (smem u) bs' ps"
    using r2 rest by (auto simp: recv_kicked_def)
  have fr: "recv_frame p s t" using r1 by (simp add: recv_run_ok_def)
  then have "cseq (cn t p) = cseq (cn s p)" "sconf t = sconf s"
    by (auto simp: recv_frame_def dest: recv_erase_eqD)
  moreover have "new_packets p (cseq (cn s p)) (smem u) as (fst (parse (g @ bs)))"
    by (rule new_packets_kept [OF as(2) _ kept]) (auto simp: as)
  moreover have "flood_count (cn t p) \<le> flood_count (cn s p) + int (length (fst (parse (g @ bs))))"
    using r1 by (simp add: recv_run_ok_def)
  ultimately show ?thesis
    using r2 as bs' par unfolding recv_kicked_def
    by (intro conjI exI [of _ "as @ bs'"] exI [of _ "fst (parse (g @ bs)) @ ps"] exI [of _ pkg]) (auto simp: new_packets_def)
qed

lemma read_events_closed: "fd (cn s p) = -1 \<Longrightarrow> read_events p es inb s = (inb, s)"
  by (induction es) (auto simp: Let_def)

text \<open>What a run of reads leads to: what is left to prove of it is how many bytes it takes.\<close>

definition read_result ::
  "connptr \<Rightarrow> addr multiset \<Rightarrow> bytes \<Rightarrow> server \<Rightarrow> server \<Rightarrow> bool" where
  "read_result p E got s s' \<longleftrightarrow>
     (if fd (cn s' p) = -1 then recv_kicked p E got s s' else recv_run_ok p E got s s')"

lemma read_event_result:
  assumes A: "acct E s" and p: "p \<in> in_use (spool s)"
    and ok: "recv_ok (smem s) p (cn s p)" and sock: "fd (cn s p) \<noteq> -1"
    and bs: "take (irecvlen (cn s p)) bs \<noteq> []"
    and s': "s' = qc_read_request_handler p (RecvData bs) now ms s"
  shows "read_result p E (recv_got (smem s) (cn s p) @ take (irecvlen (cn s p)) bs) s s'"
    and "recvq_kept s s'" and "set (m_MsgRecvQueue s) \<subseteq> set (m_MsgRecvQueue s')"
proof -
  let ?g = "recv_got (smem s) (cn s p) @ take (irecvlen (cn s p)) bs"
  have l: "p \<in> set (m_connectionList (spool s))" and cl: "closable s p"
    using p by (simp_all add: in_use_def closable_def)
  obtain flood t where t: "s' = (if flood then zdClosesocketProc p now t else t)"
    and o: "recv_outcome p E ?g s flood t"
    and m: "mem_step (set_option (precvMemPointer (cn s p))) (smem s) (smem t)"
    by (rule read_event_step [OF A l ok sock bs s'])
  have fd: "fd (cn t p) = fd (cn s p)"
    using o by (auto simp: recv_outcome_def recv_frame_def dest: recv_erase_eqD)
  show R: "read_result p E ?g s s'"
  proof (cases flood)
    case True
    then have "recv_kicked p E ?g s s'" using recv_outcome_kicked [OF _ cl] o t by simp
    then show ?thesis by (simp add: read_result_def recv_kicked_def)
  next
    case False
    with recv_outcome_run o t fd sock show ?thesis by (simp add: read_result_def)
  qed
  then have "acct E s'" and Q: "set (m_MsgRecvQueue s) \<subseteq> set (m_MsgRecvQueue s')"
    by (auto simp: read_result_def recv_kicked_def recv_run_ok_def split: if_splits)
  moreover have "mem_step (set_option (precvMemPointer (cn s p))) (smem s) (smem s')"
    using m t mem_step_trans_same [OF m] by simp
  ultimately show "recvq_kept s s'" by (intro recvq_kept_step [OF A l])
  show "set (m_MsgRecvQueue s) \<subseteq> set (m_MsgRecvQueue s')" by (rule Q)
qed

lemma read_events_refines:
  assumes "acct E s" and "p \<in> in_use (spool s)"
    and "recv_ok (smem s) p (cn s p)" and "fd (cn s p) \<noteq> -1"
    and "read_events p es inb s = (rest, s')"
  shows "\<exists>bs. inb = bs @ rest \<and> read_result p E (recv_got (smem s) (cn s p) @ bs) s s'
    \<and> recvq_kept s s'"
  using assms
proof (induction p es inb s rule: read_events.induct)
  case (1 p inb s)
  then show ?case
    using recv_got_incomplete [of "smem s" p "cn s p"]
    by (auto simp: read_result_def recv_run_ok_def new_packets_def recvq_kept_def)
next
  case (2 p k now ms es inb s)
  let ?n = "min k (irecvlen (cn s p))"
  show ?case
  proof (cases "take ?n inb = []")
    case True
    with 2 show ?thesis by simp
  next
    case False
    let ?t = "qc_read_request_handler p (RecvData (take k inb)) now ms s"
    have tk: "take (irecvlen (cn s p)) (take k inb) = take ?n inb" by (simp add: take_take min.commute)
    note step = read_event_result [OF "2.prems"(1,2,3,4) _ refl, of "take k inb" now ms, unfolded tk, OF False]
    let ?g = "recv_got (smem s) (cn s p)"
    have rest: "read_events p es (drop ?n inb) ?t = (rest, s')"
      using "2.prems"(4,5) False by (simp add: Let_def del: take_eq_Nil take_eq_Nil2)
    show ?thesis
    proof (cases "fd (cn ?t p) = -1")
      case True
      with rest read_events_closed have "rest = drop ?n inb" "s' = ?t" by simp_all
      with step show ?thesis by (intro exI [of _ "take ?n inb"]) simp
    next
      case opn: False
      with step(1) have run1: "recv_run_ok p E (?g @ take ?n inb) s ?t" by (simp add: read_result_def)
      then have t: "acct E ?t" "recv_frame p s ?t" "recv_ok (smem ?t) p (cn ?t p)"
        by (simp_all add: recv_run_ok_def)
      have u: "p \<in> in_use (spool ?t)" using "2.prems"(2) recv_frame_lists(4) [OF t(2)] by simp
      have "\<not> (fd (cn s p) = -1 \<or> take ?n inb = [])" using False "2.prems"(4) by simp
      from "2.IH"(2) [OF refl this t(1) u t(3) opn rest]
      obtain bs where bs: "drop ?n inb = bs @ rest"
        "read_result p E (recv_got (smem ?t) (cn ?t p) @ bs) ?t s'" "recvq_kept ?t s'" by blast
      have "inb = (take ?n inb @ bs) @ rest" using bs(1) by (metis append.assoc append_take_drop_id)
      moreover have "read_result p E (?g @ take ?n inb @ bs) s s'"
        using bs(2) recv_run_trans [OF run1 _ bs(3)] recv_kicked_trans [OF run1 _ bs(3)]
        by (simp add: read_result_def split: if_splits)
      moreover have "recvq_kept s s'"
        using step(2,3) bs(3) by (auto simp: recvq_kept_def)
      ultimately show ?thesis by blast
    qed
  qed
qed

text \<open>Every event that finds bytes takes at least one, so enough events empty the buffer.\<close>

lemma read_events_progress:
  assumes "acct E s" and "p \<in> in_use (spool s)"
    and "recv_ok (smem s) p (cn s p)" and "fd (cn s p) \<noteq> -1"
    and "\<forall>e \<in> set es. 0 < fst e" and "length inb \<le> length es"
  shows "fst (read_events p es inb s) = [] \<or> fd (cn (snd (read_events p es inb s)) p) = -1"
  using assms
proof (induction p es inb s rule: read_events.induct)
  case (1 p inb s)
  then show ?case by simp
next
  case (2 p k now ms es inb s)
  let ?n = "min k (irecvlen (cn s p))"
  have pos: "0 < ?n" using "2.prems"(3,5) recv_ok_pending by fastforce
  show ?case
  proof (cases "inb = []")
    case True
    with 2 show ?thesis by simp
  next
    case False
    with pos have ne: "take ?n inb \<noteq> []" by simp
    let ?t = "qc_read_request_handler p (RecvData (take k inb)) now ms s"
    have tk: "take (irecvlen (cn s p)) (take k inb) = take ?n inb" by (simp add: take_take min.commute)
    note step = read_event_result [OF "2.prems"(1,2,3,4) _ refl, of "take k inb" now ms, unfolded tk, OF ne]
    have run: "read_events p ((k, now, ms) # es) inb s = read_events p es (drop ?n inb) ?t"
      using ne "2.prems"(4) by (simp add: Let_def del: take_eq_Nil take_eq_Nil2)
    show ?thesis
    proof (cases "fd (cn ?t p) = -1")
      case True
      then show ?thesis by (simp only: run read_events_closed snd_conv simp_thms)
    next
      case opn: False
      with step(1) have t: "acct E ?t" "recv_frame p s ?t" "recv_ok (smem ?t) p (cn ?t p)"
        by (simp_all add: read_result_def recv_run_ok_def)
      have u: "p \<in> in_use (spool ?t)" using "2.prems"(2) recv_frame_lists(4) [OF t(2)] by simp
      have "length (drop ?n inb) \<le> length es" using pos False "2.prems"(6)
        by (cases inb) auto
      moreover have "\<not> (fd (cn s p) = -1 \<or> take ?n inb = [])" using ne "2.prems"(4) by simp
      ultimately show ?thesis
        using "2.IH"(2) [OF refl _ t(1) u t(3) opn] "2.prems"(5) run by simp
    qed
  qed
qed

section \<open>The property\<close>

text \<open>
  C1. However the network cuts the byte stream of an open connection into pieces, the read handler
  puts exactly the packets that the parser finds in the bytes it takes into the receive queue, in
  order and stamped with the connection and its sequence number, and loses or corrupts no buffer.
  As long as the connection stays open it takes all bytes (enough read events empty the socket
  buffer) and keeps the incomplete rest. The only thing that closes it here is the flood test, when
  the configuration has it on: then the packet it struck at, the last that was read completely, is
  the only one missing, the bytes behind it are not read, and with this packet the number that the
  configuration allows was reached (counted on from the connection's \<open>FloodAttackCount\<close>).
\<close>

theorem reads_refine_parser:
  assumes "acct E s" and "p \<in> in_use (spool s)" and "recv_ok (smem s) p (cn s p)"
    and "fd (cn s p) \<noteq> -1" and "\<forall>e \<in> set es. 0 < fst e" and "length inb \<le> length es"
  shows "\<exists>bs rest s' as. read_events p es inb s = (rest, s') \<and> inb = bs @ rest \<and> acct E s'
    \<and> m_MsgRecvQueue s' = m_MsgRecvQueue s @ as
    \<and> (\<forall>a \<in> set as. hdr (smem s') a = \<lparr>pConn = p, iCurrsequence = cseq (cn s p)\<rparr>)
    \<and> (if fd (cn s' p) \<noteq> -1
        then rest = [] \<and> recv_ok (smem s') p (cn s' p)
          \<and> parse (recv_got (smem s) (cn s p) @ inb) = (map (queued_pkg (smem s')) as, recv_got (smem s') (cn s' p))
        else m_floodAkEnable (sconf s) = 1 \<and> p \<notin> in_use (spool s')
          \<and> m_floodKickCount (sconf s) \<le> flood_count (cn s p) + int (length as) + 1
          \<and> (\<exists>pkg. fst (parse (recv_got (smem s) (cn s p) @ bs)) = map (queued_pkg (smem s')) as @ [pkg]))"
proof -
  obtain rest s' where run: "read_events p es inb s = (rest, s')" by (cases "read_events p es inb s")
  obtain bs where bs: "inb = bs @ rest" "read_result p E (recv_got (smem s) (cn s p) @ bs) s s'"
    using read_events_refines [OF assms(1-4) run] by blast
  have fin: "rest = [] \<or> fd (cn s' p) = -1" using read_events_progress [OF assms] run by simp
  show ?thesis
  proof (cases "fd (cn s' p) = -1")
    case True
    with bs run show ?thesis by (fastforce simp: read_result_def recv_kicked_def new_packets_def)
  next
    case False
    with fin bs have e: "rest = []" "inb = bs" by simp_all
    from False bs(2) show ?thesis
      using run unfolding e by (auto simp: read_result_def recv_run_ok_def new_packets_def prod_eq_iff)
  qed
qed

text \<open>A stream of 20 bytes, read in pieces of at most three: a header with a bad length, a packet
  without a body, and the first half of another header.\<close>

lemma recv_ok_one_conn: "recv_ok (smem one_conn) 0 (cn one_conn 0)"
  by (simp add: recv_ok_def GetOneToUse_def qc_connection_init_def)

definition demo_stream :: bytes where
  "demo_stream = [0,3,0,0,0,0,0,0] @ [0,8,0,0,0,0,0,0] @ [0,9,0,0]"

lemma parse_demo: "parse demo_stream = ([[0,8,0,0,0,0,0,0]], [0,9,0,0])"
  by (simp add: parse.simps demo_stream_def e_pkgLen_def load_u16_def ntohs_def valid_len_def)

theorem reads_refine_parser_witness:
  "\<exists>s' as. read_events 0 (replicate 20 (3, 0, 0)) demo_stream one_conn = ([], s') \<and> acct {#} s'
    \<and> recv_got (smem s') (cn s' 0) = [0,9,0,0]
    \<and> m_MsgRecvQueue s' = as \<and> map (queued_pkg (smem s')) as = [[0,8,0,0,0,0,0,0]]"
proof -
  have "recv_got (smem one_conn) (cn one_conn 0) = []"
    by (simp add: recv_got_def GetOneToUse_def)
  then show ?thesis
    using reads_refine_parser [OF acct_one_conn _ recv_ok_one_conn,
        of "replicate 20 (3, 0, 0)" demo_stream]
    by (auto simp: parse_demo default_conf_def demo_stream_def [THEN arg_cong, of length] split: if_splits)
qed

end
