(* ===== verification/QcRecycle.thy ===== *)
theory QcRecycle
  imports QcAccount
begin

text \<open>
  Giving connections back: releasing one object keeps the account of the buffers, and so does a
  whole round of the recycling thread (net/qc\_socket\_conn.cc), which releases exactly the
  connections whose waiting time is over.
\<close>

section \<open>Releasing one connection\<close>

lemma qc_free_connection_eq:
  "qc_free_connection p (P, m) =
     (P\<lparr>conns := (conns P)(p := (conns P p)\<lparr>cseq := cseq (conns P p) + 1, precvMemPointer := None,
          psendMemPointer := None, iThrowsendCount := 0\<rparr>),
        m_freeconnectionList := m_freeconnectionList P @ [p],
        m_free_connection_n := m_free_connection_n P + 1\<rparr>,
      FreeMemory (psendMemPointer (conns P p)) (FreeMemory (precvMemPointer (conns P p)) m))"
  by (simp add: qc_free_connection_def PutOneToFree_def)

text \<open>
  \<open>Q\<close> is the pool with the lists the caller has already changed; the objects are those of the
  state.
\<close>

lemma acct_free_conn:
  assumes A: "acct E s" and p: "p \<in> set (m_connectionList (spool s))"
    and Q: "conns Q = conns (spool s)" "m_connectionList Q = m_connectionList (spool s)"
    and inv: "pool_inv (fst (qc_free_connection p (Q, smem s)))"
  shows "acct E (s\<lparr>spool := fst (qc_free_connection p (Q, smem s)),
    smem := snd (qc_free_connection p (Q, smem s))\<rparr>)"
proof -
  let ?f = "\<lambda>c. c\<lparr>cseq := cseq c + 1, precvMemPointer := None, psendMemPointer := None, iThrowsendCount := 0\<rparr>"
  let ?r = "precvMemPointer (cn s p)" and ?w = "psendMemPointer (cn s p)"
  have "acct ((E + mset (opt_list ?w)) + mset (opt_list ?r)) (upd_cn p ?f s)"
    by (rule acct_move [OF A p]) (simp add: conn_bufs_def)
  then have B: "acct E (free_buf ?w (free_buf ?r (upd_cn p ?f s)))"
    by (intro acct_free_buf)
  have "pool_bufs (fst (qc_free_connection p (Q, smem s))) = pool_bufs (upd_conn p ?f (spool s))"
    by (rule pool_bufs_conns_cong) (simp_all add: qc_free_connection_eq Q)
  with B inv show ?thesis
    by (simp add: acct_def owned_def qc_free_connection_eq Q)
qed

lemma free_clean_free:
  "free_clean Q \<Longrightarrow> p \<notin> set (m_freeconnectionList Q) \<Longrightarrow>
   free_clean (fst (qc_free_connection p (Q, m)))"
  by (auto simp: free_clean_def qc_free_connection_eq conn_bufs_def)

section \<open>A round of the recycling thread\<close>

definition recycle_round :: "int \<Rightarrow> int \<Rightarrow> server \<Rightarrow> server" where
  "recycle_round currtime g_stopEvent s =
     (let Pm = fst (ServerRecyConnectionThread (m_RecyConnectionWaitTime (sconf s)) currtime g_stopEvent
                 (spool s, smem s))
      in s\<lparr>spool := fst Pm, smem := snd Pm\<rparr>)"

text \<open>
  What holds between a state \<open>s\<close> and the pool and heap later in the round: the account, clean free
  objects, and that the objects outside the queue, and those still in it, are unchanged.
\<close>

definition released :: "conn \<Rightarrow> conn" where
  "released c = c\<lparr>cseq := cseq c + 1, precvMemPointer := None, psendMemPointer := None, iThrowsendCount := 0\<rparr>"

definition recy_rel :: "addr multiset \<Rightarrow> server \<Rightarrow> pool \<times> memory \<Rightarrow> bool" where
  "recy_rel E s Pm \<longleftrightarrow> acct E (s\<lparr>spool := fst Pm, smem := snd Pm\<rparr>) \<and> free_clean (fst Pm)
     \<and> m_connectionList (fst Pm) = m_connectionList (spool s)
     \<and> in_use (fst Pm) = in_use (spool s)
     \<and> m_onlineUserCount (fst Pm) = m_onlineUserCount (spool s)
     \<and> mem_step {} (smem s) (snd Pm)
     \<and> set (m_recyconnectionList (fst Pm)) \<subseteq> set (m_recyconnectionList (spool s))
     \<and> (\<forall>q. conns (fst Pm) q =
          (if q \<in> set (m_recyconnectionList (spool s)) \<and> q \<notin> set (m_recyconnectionList (fst Pm))
           then released (cn s q) else cn s q))"

lemma recy_rel_refl: "acct E s \<Longrightarrow> free_clean (spool s) \<Longrightarrow> recy_rel E s (spool s, smem s)"
  by (simp add: recy_rel_def)

lemma recy_rel_step:
  assumes R: "recy_rel E s (P, m)" and q: "m_recyconnectionList P = pre @ p # post"
  shows "recy_rel E s (release_one pre p post (P, m))"
proof -
  let ?Q = "P\<lparr>m_totol_recyconnection_n := m_totol_recyconnection_n P - 1, m_recyconnectionList := pre @ post\<rparr>"
  let ?s = "s\<lparr>spool := P, smem := m\<rparr>"
  have A: "acct E ?s" and fc: "free_clean P" using R by (simp_all add: recy_rel_def)
  then have inv: "pool_inv P" by (simp add: acct_def)
  have rel: "release_one pre p post (P, m) = qc_free_connection p (?Q, m)" by (simp add: release_one_def)
  have p: "p \<in> set (m_connectionList P)" "p \<notin> set (m_freeconnectionList P)" "p \<notin> set (pre @ post)"
    "p \<in> set (m_recyconnectionList (spool s))"
    using inv q R by (auto simp: pool_inv_defs recy_rel_def)
  have "acct E (?s\<lparr>spool := fst (qc_free_connection p (?Q, smem ?s)),
      smem := snd (qc_free_connection p (?Q, smem ?s))\<rparr>)"
    using pool_inv_release_one [OF inv q, of m] p(1) by (intro acct_free_conn [OF A]) (simp_all add: rel)
  then have A': "acct E (s\<lparr>spool := fst (release_one pre p post (P, m)), smem := snd (release_one pre p post (P, m))\<rparr>)"
    by (simp add: rel)
  have "conns P p = cn s p" using R q by (auto simp: recy_rel_def)
  then have c: "conns (fst (release_one pre p post (P, m))) p =
      released (cn s p)"
    by (simp add: rel qc_free_connection_eq released_def)
  have "free_clean ?Q" using fc by (simp add: free_clean_def)
  then have "free_clean (fst (release_one pre p post (P, m)))"
    unfolding rel using p(2) by (intro free_clean_free) simp_all
  moreover have "mem_step {} m (snd (release_one pre p post (P, m)))"
    using mem_step_trans_same [OF mem_step_Free mem_step_Free] by (simp add: rel qc_free_connection_eq)
  ultimately show ?thesis
    using R A' c p(3,4) q in_use_release_one [OF q, of m] unfolding recy_rel_def
    by (auto intro: mem_step_trans_same) (metis release_one_simps(6))+
qed

lemma recycle_round_rel:
  assumes "acct E s" and "free_clean (spool s)"
  obtains P m where "recycle_round now stop s = s\<lparr>spool := P, smem := m\<rparr>" and "recy_rel E s (P, m)"
proof -
  let ?Pm = "fst (ServerRecyConnectionThread (m_RecyConnectionWaitTime (sconf s)) now stop (spool s, smem s))"
  have "recy_rel E s ?Pm"
    by (rule recycle_thread_rule [where I = "recy_rel E s"]) (rule recy_rel_step, assumption+, rule recy_rel_refl [OF assms])
  then show thesis
    by (intro that [of "snd ?Pm" "fst ?Pm"]) (simp_all add: recycle_round_def Let_def)
qed

lemma seq_step_recycle: "recy_rel E s (P, m) \<Longrightarrow> seq_step 1 s (s\<lparr>spool := P, smem := m\<rparr>)"
  unfolding seq_step_def recy_rel_def
  by (auto simp: released_def in_use_def intro: exI [of _ 0] exI [of _ 1])

section \<open>Properties\<close>

text \<open>
  C27. A round of the recycling thread releases exactly the connections that have waited for
  \<open>m_RecyConnectionWaitTime\<close>, in their order: they move from the recycle queue to the free list,
  their buffers are freed and their sequence number goes up, so that messages stamped for their
  last user are stale. Every other connection is unchanged, and no buffer leaks.
\<close>

theorem recycle_releases_due:
  assumes "acct {#} s" and "free_clean (spool s)" and "t = recycle_round now 0 s"
    and "due = recy_due (m_RecyConnectionWaitTime (sconf s)) now 0 (spool s)"
  shows "acct {#} t \<and> free_clean (spool t)
    \<and> m_recyconnectionList (spool t) = filter (\<lambda>p. \<not> due p) (m_recyconnectionList (spool s))
    \<and> m_freeconnectionList (spool t) = m_freeconnectionList (spool s) @ filter due (m_recyconnectionList (spool s))
    \<and> (\<forall>q. cn t q = (if q \<in> set (m_recyconnectionList (spool s)) \<and> due q then released (cn s q) else cn s q))"
proof -
  obtain P m where t: "t = s\<lparr>spool := P, smem := m\<rparr>" and R: "recy_rel {#} s (P, m)"
    using recycle_round_rel [OF assms(1,2)] assms(3) by metis
  let ?W = "m_RecyConnectionWaitTime (sconf s)"
  let ?Pm = "fst (ServerRecyConnectionThread ?W now 0 (spool s, smem s))"
  have P: "P = fst ?Pm"
    using t assms(3) by (simp add: recycle_round_def Let_def) (metis server.select_convs(3) server.surjective server.update_convs(2,3))
  have n: "m_totol_recyconnection_n (spool s) = int (length (m_recyconnectionList (spool s)))"
    using assms(1) by (simp add: acct_def pool_inv_defs)
  have L: "m_recyconnectionList P = filter (\<lambda>p. \<not> due p) (m_recyconnectionList (spool s))"
    "m_freeconnectionList P = m_freeconnectionList (spool s) @ filter due (m_recyconnectionList (spool s))"
    using recy_loop_lists [of ?W now 0 "(spool s, smem s)"] n
    by (auto simp: P ServerRecyConnectionThread_def Let_def assms(4))
  show ?thesis
    using R by (auto simp: t L recy_rel_def)
qed

text \<open>A connection that was closed long ago.\<close>

definition demo_closed :: server where
  "demo_closed = zdClosesocketProc 0 5 one_conn"

lemma demo_closed_facts:
  "acct {#} demo_closed" "m_recyconnectionList (spool demo_closed) = [0]"
  "m_freeconnectionList (spool demo_closed) = []" "sconf demo_closed = default_conf"
  "inRecyTime (cn demo_closed 0) = 5"
proof -
  have r: "m_recyconnectionList (spool one_conn) = []" "m_freeconnectionList (spool one_conn) = []"
    by (simp_all add: one_conn_def CSocket_ctor_def qc_get_connection_def new_conn_def empty_pool_def Let_def)
  show "acct {#} demo_closed"
    unfolding demo_closed_def by (rule acct_zdClose [OF acct_one_conn]) (simp add: closable_def)
  show "m_freeconnectionList (spool demo_closed) = []" "sconf demo_closed = default_conf"
    by (simp_all add: demo_closed_def r)
  show "m_recyconnectionList (spool demo_closed) = [0]"
    by (simp add: demo_closed_def zdClosesocketProc_def Let_def inRecyConnectQueue_def r)
  show "inRecyTime (cn demo_closed 0) = 5" by (simp add: demo_closed_def zdClose_self r)
qed

theorem recycle_releases_due_witness:
  "m_freeconnectionList (spool (recycle_round 100 0 demo_closed)) = [0]
   \<and> m_recyconnectionList (spool (recycle_round 10 0 demo_closed)) = [0]"
  using recycle_releases_due [OF demo_closed_facts(1) _ refl refl, of 100]
    recycle_releases_due [OF demo_closed_facts(1) _ refl refl, of 10]
  by (simp add: demo_closed_facts free_clean_def recy_due_def default_conf_def)

end
