(* ===== verification/QcEpoll.thy ===== *)
theory QcEpoll
  imports QcRecv QcSend QcRecycle
begin

text \<open>
  The network front of a worker: opening and closing the listening sockets, setting up epoll,
  accepting a connection and dispatching the events of one call of \<open>epoll_wait\<close>
  (net/qc\_socket.cc, net/qc\_socket\_accept.cc).
\<close>

section \<open>Listening sockets\<close>

record qc_listening =
  lport :: int
  lfd :: int
  lconnection :: "connptr option"

text \<open>
  The answers of the system calls made for one port, in the order of the calls: \<open>socket\<close> (a
  descriptor, or -1), \<open>SO_REUSEADDR\<close>, \<open>SO_REUSEPORT\<close>, \<open>ioctl\<close>, \<open>bind\<close>, \<open>listen\<close>.
\<close>

record port_calls =
  c_socket :: int
  c_reuseaddr :: bool
  c_reuseport :: bool
  c_nonblock :: bool
  c_bind :: bool
  c_listen :: bool

text \<open>\<open>setnonblocking\<close> is true unless its \<open>ioctl\<close> fails.\<close>

definition setnonblocking :: "bool \<Rightarrow> bool" where
  "setnonblocking ioctl_ok = (if \<not> ioctl_ok then False else True)"

text \<open>
  The loop over the ports from the \<open>i\<close>-th on, \<open>n\<close> of them; \<open>iport\<close> is the port the
  configuration gives for an index. A failure of \<open>SO_REUSEPORT\<close> is only logged.
\<close>

fun open_ports ::
  "(nat \<Rightarrow> port_calls) \<Rightarrow> (nat \<Rightarrow> int) \<Rightarrow> nat \<Rightarrow> nat \<Rightarrow> qc_listening list \<Rightarrow> kernel
   \<Rightarrow> bool \<times> qc_listening list \<times> kernel" where
  "open_ports call iport i 0 ls K = (True, ls, K)"
| "open_ports call iport i (Suc n) ls K =
     (let c = call i; isock = c_socket c
      in if isock = -1 then (False, ls, K)
         else if \<not> c_reuseaddr c then (False, ls, sys_close isock K)
         else if \<not> setnonblocking (c_nonblock c) then (False, ls, sys_close isock K)
         else if \<not> c_bind c then (False, ls, sys_close isock K)
         else if \<not> c_listen c then (False, ls, sys_close isock K)
         else open_ports call iport (Suc i) n
                (ls @ [\<lparr>lport = iport i, lfd = isock, lconnection = None\<rparr>]) K)"

definition qc_open_listening_sockets ::
  "(nat \<Rightarrow> port_calls) \<Rightarrow> (nat \<Rightarrow> int) \<Rightarrow> nat \<Rightarrow> qc_listening list \<Rightarrow> kernel
   \<Rightarrow> bool \<times> qc_listening list \<times> kernel" where
  "qc_open_listening_sockets call iport m_ListenPortCount ls K =
     (let (ok, ls1, K1) = open_ports call iport 0 m_ListenPortCount ls K
      in if \<not> ok then (False, ls1, K1)
         else if length ls1 \<le> 0 then (False, ls1, K1) else (True, ls1, K1))"

text \<open>\<open>None\<close>: the list is shorter than \<open>m_ListenPortCount\<close> and the access is out of range.\<close>

definition qc_close_listening_sockets :: "nat \<Rightarrow> qc_listening list \<Rightarrow> kernel \<Rightarrow> kernel option" where
  "qc_close_listening_sockets m_ListenPortCount ls K =
     (if length ls < m_ListenPortCount then None
      else Some (fold (\<lambda>l. sys_close (lfd l)) (take m_ListenPortCount ls) K))"

section \<open>Setting up epoll\<close>

text \<open>
  The loop of \<open>qc_epoll_init\<close>: every listening socket gets a connection object and is registered
  for reading. \<open>None\<close> is \<open>exit(2)\<close>.
\<close>

fun init_listeners :: "int \<Rightarrow> nat \<Rightarrow> qc_listening list \<Rightarrow> server \<Rightarrow> (qc_listening list \<times> server) option" where
  "init_listeners now i [] s = Some ([], s)"
| "init_listeners now i (l # ls) s =
     (let (p, P) = qc_get_connection (lfd l) now (spool s);
          s1 = upd_cn p (\<lambda>c. c\<lparr>listening := Some i, rhandler := Some H_event_accept\<rparr>) (s\<lparr>spool := P\<rparr>);
          (r, s2) = qc_epoll_oper_event (lfd l) EPOLL_CTL_ADD (EPOLLIN OR EPOLLRDHUP) 0 p s1
      in if r = -1 then None
         else (case init_listeners now (Suc i) ls s2 of
                 None \<Rightarrow> None
               | Some (ls', s3) \<Rightarrow> Some (l\<lparr>lconnection := Some p\<rparr> # ls', s3)))"

definition qc_epoll_init ::
  "bool \<Rightarrow> int \<Rightarrow> qc_listening list \<Rightarrow> server \<Rightarrow> (qc_listening list \<times> server) option" where
  "qc_epoll_init create_ok now ls s =
     (if \<not> create_ok then None
      else init_listeners now 0 ls
             (s\<lparr>spool := initconnection (m_worker_connections (sconf s)) now (spool s)\<rparr>))"

section \<open>Accepting\<close>

text \<open>
  The answer of \<open>accept4\<close> and \<open>accept\<close>: a new descriptor with the address of the peer, or an
  error.
\<close>

datatype accept_result = Accepted int bytes | AcceptErr errno

text \<open>An \<open>int\<close> in a comparison with a \<open>size_t\<close>.\<close>

definition as_size_t :: "int \<Rightarrow> nat" where
  "as_size_t i = nat (i mod 2 ^ 64)"

definition close_new_conn :: "connptr \<Rightarrow> server \<Rightarrow> server" where
  "close_new_conn p s =
     (let ((P, m), fds) = qc_close_connection p (spool s, smem s)
      in s\<lparr>spool := P, smem := m, skern := fold sys_close fds (skern s)\<rparr>)"

definition accept_conn :: "connptr \<Rightarrow> int \<Rightarrow> bytes \<Rightarrow> bool \<Rightarrow> int \<Rightarrow> server \<Rightarrow> server" where
  "accept_conn oldc s mysockaddr ioctl_ok now st =
     (let (newc, P) = qc_get_connection s now (spool st);
          st1 = upd_cn newc (\<lambda>c. c\<lparr>s_sockaddr := write_at 0 mysockaddr (s_sockaddr c)\<rparr>) (st\<lparr>spool := P\<rparr>)
      in if \<not> use_accept4 st \<and> \<not> setnonblocking ioctl_ok then st1
         else
           let st2 = upd_cn newc (\<lambda>c. c\<lparr>listening := listening (cn st1 oldc),
                       rhandler := Some H_read_request, whandler := Some H_write_request\<rparr>) st1;
               (r, st3) = qc_epoll_oper_event s EPOLL_CTL_ADD (EPOLLIN OR EPOLLRDHUP) 0 newc st2
           in if r = -1 then close_new_conn newc st3
              else
                let st4 = (if m_ifkickTimeCount (sconf st3) = 1 then add_timer newc now st3 else st3)
                in st4\<lparr>spool := (spool st4)\<lparr>m_onlineUserCount := m_onlineUserCount (spool st4) + 1\<rparr>\<rparr>)"

definition accept_new :: "connptr \<Rightarrow> int \<Rightarrow> bytes \<Rightarrow> bool \<Rightarrow> int \<Rightarrow> server \<Rightarrow> server" where
  "accept_new oldc s mysockaddr ioctl_ok now st =
     (if m_onlineUserCount (spool st) \<ge> m_worker_connections (sconf st)
      then st\<lparr>skern := sys_close s (skern st)\<rparr>
      else if length (m_connectionList (spool st)) > as_size_t (m_worker_connections (sconf st) * 5)
              \<and> length (m_freeconnectionList (spool st)) < as_size_t (m_worker_connections (sconf st))
      then st\<lparr>skern := sys_close s (skern st)\<rparr>
      else accept_conn oldc s mysockaddr ioctl_ok now st)"

text \<open>
  The loop of \<open>qc_event_accept\<close>; \<open>acc True\<close> is what \<open>accept4\<close> answers, \<open>acc False\<close>
  what \<open>accept\<close> does. It only comes round again when \<open>accept4\<close> does not exist.
\<close>

function qc_event_accept ::
  "connptr \<Rightarrow> (bool \<Rightarrow> accept_result) \<Rightarrow> bool \<Rightarrow> int \<Rightarrow> server \<Rightarrow> server" where
  "qc_event_accept oldc acc ioctl_ok now st =
     (case acc (use_accept4 st) of
        AcceptErr err \<Rightarrow>
          if err = EAGAIN then st
          else if use_accept4 st \<and> err = ENOSYS
          then qc_event_accept oldc acc ioctl_ok now (st\<lparr>use_accept4 := False\<rparr>)
          else st
      | Accepted s mysockaddr \<Rightarrow> accept_new oldc s mysockaddr ioctl_ok now st)"
  by pat_completeness auto
termination
  by (relation "measure (\<lambda>(oldc, acc, ok, now, st). if use_accept4 st then 1 else 0)") auto

declare qc_event_accept.simps [simp del]

section \<open>Dispatching events\<close>

text \<open>What the environment answers while one event is handled.\<close>

record event_io =
  io_recv :: recv_result
  io_acc :: "bool \<Rightarrow> accept_result"
  io_ioctl :: bool
  io_now :: int
  io_ms :: u64

text \<open>Calling a handler through the pointer in the connection; a null pointer is a fault.\<close>

definition call_ev_handler :: "ev_handler option \<Rightarrow> event_io \<Rightarrow> connptr \<Rightarrow> server \<Rightarrow> server" where
  "call_ev_handler h io p s =
     (case h of
        None \<Rightarrow> s\<lparr>smem := add_fault NullAccess (smem s)\<rparr>
      | Some H_event_accept \<Rightarrow> qc_event_accept p (io_acc io) (io_ioctl io) (io_now io) s
      | Some H_read_request \<Rightarrow> qc_read_request_handler p (io_recv io) (io_now io) (io_ms io) s
      | Some H_write_request \<Rightarrow> qc_write_request_handler p s)"

definition event_in :: "event_io \<Rightarrow> connptr \<Rightarrow> server \<Rightarrow> server" where
  "event_in io p s = call_ev_handler (rhandler (cn s p)) io p s"

definition event_out :: "u32 \<Rightarrow> event_io \<Rightarrow> connptr \<Rightarrow> server \<Rightarrow> server" where
  "event_out revents io p s =
     (if revents AND (EPOLLERR OR EPOLLHUP OR EPOLLRDHUP) \<noteq> 0
      then upd_cn p (\<lambda>c. c\<lparr>iThrowsendCount := iThrowsendCount c - 1\<rparr>) s
      else call_ev_handler (whandler (cn s p)) io p s)"

definition handle_event :: "connptr \<times> u32 \<times> event_io \<Rightarrow> server \<Rightarrow> server" where
  "handle_event e s =
     (let (p, revents, io) = e;
          s1 = (if revents AND EPOLLIN \<noteq> 0 then event_in io p s else s)
      in if revents AND EPOLLOUT \<noteq> 0 then event_out revents io p s1 else s1)"

datatype wait_result = WaitErr errno | WaitEvents "(connptr \<times> u32 \<times> event_io) list"

definition qc_epoll_process_events :: "int \<Rightarrow> wait_result \<Rightarrow> server \<Rightarrow> int \<times> server" where
  "qc_epoll_process_events timer w s =
     (case w of
        WaitErr e \<Rightarrow> if e = EINTR then (1, s) else (0, s)
      | WaitEvents evs \<Rightarrow>
          if length evs = 0 then (if timer \<noteq> -1 then (1, s) else (0, s))
          else (1, fold handle_event evs s))"

section \<open>Accepting keeps the account\<close>

text \<open>Objects that were never allocated have never been used.\<close>

definition unused_init :: "pool \<Rightarrow> bool" where
  "unused_init P \<longleftrightarrow> (\<forall>p. p \<notin> set (m_connectionList P) \<longrightarrow> conns P p = qc_connection_init)"

text \<open>The descriptor the kernel returned is not one of an open connection.\<close>

definition sock_fresh :: "server \<Rightarrow> int \<Rightarrow> bool" where
  "sock_fresh s sock \<longleftrightarrow> sock \<noteq> -1 \<and> (\<forall>p \<in> in_use (spool s). fd (cn s p) \<noteq> sock)"

abbreviation got_conn :: "int \<Rightarrow> int \<Rightarrow> server \<Rightarrow> connptr" where
  "got_conn sock now s \<equiv> fst (qc_get_connection sock now (spool s))"

definition got_state :: "int \<Rightarrow> int \<Rightarrow> server \<Rightarrow> server" where
  "got_state sock now s = s\<lparr>spool := snd (qc_get_connection sock now (spool s))\<rparr>"

lemma get_lists:
  "m_onlineUserCount (snd (qc_get_connection sock now P)) = m_onlineUserCount P"
  "m_recyconnectionList (snd (qc_get_connection sock now P)) = m_recyconnectionList P"
  "set (m_connectionList (snd (qc_get_connection sock now P))) =
     insert (fst (qc_get_connection sock now P)) (set (m_connectionList P))" if "pool_inv P"
  using that by (cases "m_freeconnectionList P";
    force simp: qc_get_connection_def new_conn_def Let_def pool_inv_defs)+

lemma free_clean_get: "pool_inv P \<Longrightarrow> free_clean P \<Longrightarrow> free_clean (snd (qc_get_connection sock now P))"
  by (cases "m_freeconnectionList P")
    (auto simp: free_clean_def qc_get_connection_def new_conn_def Let_def pool_inv_defs)

lemma unused_init_get: "pool_inv P \<Longrightarrow> unused_init P \<Longrightarrow> unused_init (snd (qc_get_connection sock now P))"
  unfolding unused_init_def using conns_get_other [of _ sock now P] get_lists(3) [of P sock now] by auto

lemma get_cseq:
  assumes "pool_inv P" and "unused_init P"
  shows "cseq (conns (snd (qc_get_connection sock now P)) (fst (qc_get_connection sock now P))) =
    cseq (conns P (fst (qc_get_connection sock now P))) + 1"
proof (cases "m_freeconnectionList P")
  case Nil
  have "next_conn P \<notin> set (m_connectionList P)" using assms(1) by (auto simp: pool_inv_defs)
  then have "conns P (next_conn P) = qc_connection_init" using assms(2) by (simp add: unused_init_def)
  with Nil show ?thesis by (simp add: qc_get_connection_def new_conn_def Let_def GetOneToUse_def)
next
  case (Cons p ps)
  then show ?thesis by (simp add: qc_get_connection_def GetOneToUse_def)
qed

lemma get_head_len:
  assumes "\<forall>p. length (dataHeadInfo (conns P p)) = DATA_BUFSIZE"
  shows "length (dataHeadInfo (conns (snd (qc_get_connection sock now P)) q)) = DATA_BUFSIZE"
  using assms by (cases "m_freeconnectionList P")
    (auto simp: qc_get_connection_def new_conn_def Let_def GetOneToUse_def qc_connection_init_def)

text \<open>A connection object as \<open>GetOneToUse\<close> leaves it can receive and send.\<close>

lemma got_ready:
  assumes "length (dataHeadInfo c) = DATA_BUFSIZE" and "c = (GetOneToUse now d)\<lparr>fd := sock\<rparr>"
  shows "recv_ok m p c" and "send_ok m c" and "conn_bufs c = []"
  using assms by (simp_all add: recv_ok_def send_ok_def GetOneToUse_def conn_bufs_def)

text \<open>
  How the state \<open>t\<close> of an accept that took the object \<open>p\<close> relates to the state \<open>s\<close> before: only
  \<open>p\<close> and its timer are new.
\<close>

definition accept_base :: "addr multiset \<Rightarrow> connptr \<Rightarrow> server \<Rightarrow> server \<Rightarrow> bool" where
  "accept_base E p s t \<longleftrightarrow> acct E t \<and> free_clean (spool t) \<and> unused_init (spool t)
     \<and> sconf t = sconf s \<and> m_MsgSendQueue t = m_MsgSendQueue s \<and> m_MsgRecvQueue t = m_MsgRecvQueue s
     \<and> m_iSendMsgQueueCount t = m_iSendMsgQueueCount s \<and> m_iRecvMsgQueueCount t = m_iRecvMsgQueueCount s
     \<and> m_semEventSendQueue t = m_semEventSendQueue s
     \<and> m_recyconnectionList (spool t) = m_recyconnectionList (spool s)
     \<and> (\<forall>q. q \<noteq> p \<longrightarrow> cn t q = cn s q) \<and> p \<notin> in_use (spool s)
     \<and> set (m_connectionList (spool t)) = insert p (set (m_connectionList (spool s)))
     \<and> mem_step {} (smem s) (smem t) \<and> length (dataHeadInfo (cn t p)) = DATA_BUFSIZE"

definition timer_added :: "connptr \<Rightarrow> server \<Rightarrow> server \<Rightarrow> bool" where
  "timer_added p s t \<longleftrightarrow> (\<exists>a. mset (timer_addrs (stimer t)) = add_mset a (mset (timer_addrs (stimer s)))
     \<and> hdr (smem t) a = \<lparr>pConn = p, iCurrsequence = cseq (cn t p)\<rparr>)"

definition accept_open :: "addr multiset \<Rightarrow> connptr \<Rightarrow> int \<Rightarrow> server \<Rightarrow> server \<Rightarrow> bool" where
  "accept_open E p sock s t \<longleftrightarrow> accept_base E p s t \<and> in_use (spool t) = insert p (in_use (spool s))
     \<and> cseq (cn t p) = cseq (cn s p) + 1 \<and> fd (cn t p) = sock \<and> conn_bufs (cn t p) = []
     \<and> (\<forall>m. recv_ok m p (cn t p)) \<and> (\<forall>m. send_ok m (cn t p))
     \<and> m_onlineUserCount (spool t) = m_onlineUserCount (spool s)
     \<and> (stimer t = stimer s \<or> timer_added p s t)"

definition accept_closed :: "addr multiset \<Rightarrow> connptr \<Rightarrow> server \<Rightarrow> server \<Rightarrow> bool" where
  "accept_closed E p s t \<longleftrightarrow> accept_base E p s t \<and> in_use (spool t) = in_use (spool s)
     \<and> cseq (cn t p) = cseq (cn s p) + 2 \<and> fd (cn t p) = -1
     \<and> m_onlineUserCount (spool t) = m_onlineUserCount (spool s) \<and> stimer t = stimer s"

lemma accept_got:
  assumes A: "acct E s" and fc: "free_clean (spool s)" and ui: "unused_init (spool s)"
    and len: "\<forall>p. length (dataHeadInfo (cn s p)) = DATA_BUFSIZE"
  shows "accept_open E (got_conn sock now s) sock s (got_state sock now s)"
proof -
  let ?P = "snd (qc_get_connection sock now (spool s))" and ?p = "got_conn sock now s"
  have inv: "pool_inv (spool s)" using A by (simp add: acct_def)
  have l: "length (dataHeadInfo (conns ?P ?p)) = DATA_BUFSIZE" by (rule get_head_len [OF len])
  note r = got_ready [OF l conns_get_same]
  have fd: "fd (conns ?P ?p) = sock" by (simp add: conns_get_same)
  show ?thesis
    unfolding accept_open_def accept_base_def
    using acct_get [OF A fc, of sock now] free_clean_get [OF inv fc] unused_init_get [OF inv ui] l r fd
      get_lists [OF inv] conns_get_other get_not_in_use [OF inv] in_use_get [OF inv] get_cseq [OF inv ui]
    by (simp add: got_state_def)
qed

text \<open>The steps after that keep the object as it is, apart from its handlers and event mask.\<close>

lemma accept_open_upd:
  assumes O: "accept_open E p sock s t"
    and f: "cseq (f (cn t p)) = cseq (cn t p)" "fd (f (cn t p)) = fd (cn t p)"
      "precvMemPointer (f (cn t p)) = precvMemPointer (cn t p)"
      "psendMemPointer (f (cn t p)) = psendMemPointer (cn t p)"
      "dataHeadInfo (f (cn t p)) = dataHeadInfo (cn t p)" "curStat (f (cn t p)) = curStat (cn t p)"
      "precvbuf (f (cn t p)) = precvbuf (cn t p)" "irecvlen (f (cn t p)) = irecvlen (cn t p)"
      "iThrowsendCount (f (cn t p)) = iThrowsendCount (cn t p)"
      "psendbuf (f (cn t p)) = psendbuf (cn t p)" "isendlen (f (cn t p)) = isendlen (cn t p)"
  shows "accept_open E p sock s (upd_cn p f t)"
proof -
  have A: "acct E t" and u: "in_use (spool t) = insert p (in_use (spool s))"
    and ui: "unused_init (spool t)" and fc: "free_clean (spool t)"
    using O by (simp_all add: accept_open_def accept_base_def)
  have p: "p \<in> set (m_connectionList (spool t))" "p \<notin> set (m_freeconnectionList (spool t))"
    using u by (auto simp: in_use_def)
  have b: "conn_bufs (f (cn t p)) = conn_bufs (cn t p)" using f by (simp add: conn_bufs_def)
  have "unused_init (upd_conn p f (spool t))" using ui p by (auto simp: unused_init_def)
  moreover have "free_clean (upd_conn p f (spool t))" using fc p by (auto simp: free_clean_def)
  moreover have "recv_ok m p (f (cn t p)) = recv_ok m p (cn t p)" for m
    unfolding recv_ok_def body_ok_def f by (rule refl)
  moreover have "send_ok m (f (cn t p)) = send_ok m (cn t p)" for m
    unfolding send_ok_def f by (rule refl)
  ultimately show ?thesis
    using O acct_upd_cn [of f t p E] b f(1,2,5)
    by (auto simp: accept_open_def accept_base_def timer_added_def)
qed

lemma accept_open_kern: "accept_open E p sock s t \<Longrightarrow> accept_open E p sock s (t\<lparr>skern := K\<rparr>)"
  by (auto simp: accept_open_def accept_base_def timer_added_def)

lemma accept_open_oper:
  assumes "accept_open E p sock s t"
  shows "accept_open E p sock s (snd (qc_epoll_oper_event sk op flag act p t))"
proof (rule oper_event_eq [of sk op flag act p t])
  fix evs K
  assume e: "snd (qc_epoll_oper_event sk op flag act p t) = (upd_cn p (\<lambda>c. c\<lparr>events := evs\<rparr>) t)\<lparr>skern := K\<rparr>"
  show ?thesis unfolding e by (intro accept_open_kern accept_open_upd [OF assms]) simp_all
qed

lemma accept_open_timer:
  assumes O: "accept_open E p sock s t" and st: "stimer t = stimer s"
  shows "accept_open E p sock s (add_timer p now t)"
proof -
  obtain T m where e: "add_timer p now t = t\<lparr>stimer := T, smem := m\<rparr>"
    "m = snd (alloc_header \<lparr>pConn = p, iCurrsequence = cseq (cn t p)\<rparr> (smem t))"
    "m_timerQueuemap T =
      multimap_insert (now + m_iWaitTime (m_timerconf (sconf t))) (mem_next (smem t)) (m_timerQueuemap (stimer t))"
    by (rule add_timer_eq [where p = p and now = now and s = t])
  have "acct E (add_timer p now t)" using O by (intro acct_add_timer) (simp add: accept_open_def accept_base_def)
  moreover have "mset (timer_addrs T) = add_mset (mem_next (smem t)) (mset (timer_addrs (stimer t)))"
    by (simp add: timer_addrs_def e(3))
  moreover have "mem_step {} (smem t) m"
    by (simp add: e(2))
  ultimately show ?thesis
    using O st by (auto simp: accept_open_def accept_base_def e(1,2) timer_added_def intro: mem_step_trans_same)
qed

lemma accept_open_closed:
  assumes O: "accept_open E p sock s t" and st: "stimer t = stimer s"
  shows "accept_closed E p s (close_new_conn p t)"
proof -
  have A: "acct E t" and u: "in_use (spool t) = insert p (in_use (spool s))" "p \<notin> in_use (spool s)"
    and fc: "free_clean (spool t)" and b: "conn_bufs (cn t p) = []" and ui: "unused_init (spool t)"
    using O by (simp_all add: accept_open_def accept_base_def)
  have p: "p \<in> set (m_connectionList (spool t))" "p \<notin> set (m_freeconnectionList (spool t))" "p \<in> in_use (spool t)"
    using u by (auto simp: in_use_def)
  have np: "precvMemPointer (cn t p) = None" "psendMemPointer (cn t p) = None"
    using b by (auto simp: conn_bufs_def split: option.splits)
  let ?Q = "fst (qc_free_connection p (spool t, smem t))"
  let ?t1 = "t\<lparr>spool := ?Q\<rparr>"
  have mem: "snd (qc_free_connection p (spool t, smem t)) = smem t" by (simp add: qc_free_connection_eq np)
  have "pool_inv (spool t)" using A by (simp add: acct_def)
  then have "pool_inv ?Q" using p(3) by (rule pool_inv_free)
  with acct_free_conn [OF A p(1) refl refl] have A1: "acct E ?t1" by (simp add: mem)
  have fc1: "free_clean ?Q" by (rule free_clean_free [OF fc p(2)])
  have c: "close_new_conn p t = (upd_cn p (\<lambda>c. c\<lparr>fd := -1\<rparr>) ?t1)\<lparr>skern := skern (close_new_conn p t)\<rparr>"
  proof -
    obtain Q where q: "qc_free_connection p (spool t, smem t) = (Q, smem t)" by (metis mem prod.collapse)
    show ?thesis
    proof (cases "fd (conns Q p) = -1")
      case True
      then have "(conns Q p)\<lparr>fd := -1\<rparr> = conns Q p" by (intro conn.equality) simp_all
      then have "upd_conn p (\<lambda>c. c\<lparr>fd := -1\<rparr>) Q = Q" by (simp add: upd_conn_def)
      with True q show ?thesis by (simp add: close_new_conn_def qc_close_connection_def upd_cn_def)
    next
      case False
      with q show ?thesis by (simp add: close_new_conn_def qc_close_connection_def upd_cn_def)
    qed
  qed
  let ?u = "upd_cn p (\<lambda>c. c\<lparr>fd := -1\<rparr>) ?t1"
  have "acct E ?u" using A1 by (simp add: acct_upd_cn conn_bufs_def)
  moreover have "free_clean (spool ?u)" using fc1 by (auto simp: free_clean_def conn_bufs_def)
  moreover have "in_use (spool ?u) = in_use (spool s)" using u by (simp add: in_use_free)
  moreover have "unused_init (spool ?u)"
    using ui p(1) by (auto simp: unused_init_def qc_free_connection_eq)
  moreover have "cn ?u p = (cn t p)\<lparr>fd := -1, cseq := cseq (cn t p) + 1, precvMemPointer := None,
      psendMemPointer := None, iThrowsendCount := 0\<rparr>"
    by (simp add: qc_free_connection_eq)
  moreover have "cn ?u q = cn t q" if "q \<noteq> p" for q
    using that by (simp add: qc_free_connection_eq)
  moreover have "m_recyconnectionList (spool ?u) = m_recyconnectionList (spool t)"
    "m_connectionList (spool ?u) = m_connectionList (spool t)"
    "m_onlineUserCount (spool ?u) = m_onlineUserCount (spool t)"
    by (simp_all add: qc_free_connection_eq)
  ultimately show ?thesis
    using O st by (subst c) (simp add: accept_closed_def accept_open_def accept_base_def)
qed

text \<open>What registering a descriptor does.\<close>

lemma oper_add_result:
  assumes "qc_epoll_oper_event sock EPOLL_CTL_ADD flag act p t = (r, u)"
  shows "r = 1 \<and> k_epoll (skern u) sock = Some (flag, p) \<or> r = -1 \<and> k_epoll (skern u) = k_epoll (skern t)"
  using assms by (auto simp: qc_epoll_oper_event_def sys_epoll_ctl_def Let_def split: if_splits list.splits)

lemma oper_event_frame [simp]:
  "stimer (snd (qc_epoll_oper_event sock op flag act p t)) = stimer t"
  "sconf (snd (qc_epoll_oper_event sock op flag act p t)) = sconf t"
  "rhandler (cn (snd (qc_epoll_oper_event sock op flag act p t)) q) = rhandler (cn t q)"
  "whandler (cn (snd (qc_epoll_oper_event sock op flag act p t)) q) = whandler (cn t q)"
  "fd (cn (snd (qc_epoll_oper_event sock op flag act p t)) q) = fd (cn t q)"
  by (rule oper_event_eq [of sock op flag act p t]; simp)+

lemma add_timer_frame [simp]:
  "spool (add_timer p now t) = spool t" "skern (add_timer p now t) = skern t"
  "sconf (add_timer p now t) = sconf t"
  by (simp_all add: add_timer_def case_prod_beta)

lemma close_new_conn_closes:
  "fd (cn t p) = sock \<Longrightarrow> sock \<noteq> -1 \<Longrightarrow> sock \<in> set (k_closed (skern (close_new_conn p t)))"
  by (simp add: close_new_conn_def qc_close_connection_def case_prod_beta Let_def qc_free_connection_eq sys_close_def)

text \<open>A user the worker serves: registered for reading, with the handlers of a user.\<close>

definition served :: "server \<Rightarrow> connptr \<Rightarrow> int \<Rightarrow> bool" where
  "served t p sock \<longleftrightarrow> p \<in> in_use (spool t) \<and> fd (cn t p) = sock
     \<and> rhandler (cn t p) = Some H_read_request \<and> whandler (cn t p) = Some H_write_request
     \<and> k_epoll (skern t) sock = Some (EPOLLIN OR EPOLLRDHUP, p)"

definition count_user :: "server \<Rightarrow> server" where
  "count_user u = u\<lparr>spool := (spool u)\<lparr>m_onlineUserCount := m_onlineUserCount (spool u) + 1\<rparr>\<rparr>"

lemma in_use_count [simp]: "in_use (P\<lparr>m_onlineUserCount := n\<rparr>) = in_use P"
  by (simp add: in_use_def)

lemma setnonblocking_ok: "setnonblocking b = b"
  by (simp add: setnonblocking_def)

lemma count_user_simps [simp]:
  "acct E (count_user u) = acct E u" "free_clean (spool (count_user u)) = free_clean (spool u)"
  "unused_init (spool (count_user u)) = unused_init (spool u)"
  "in_use (spool (count_user u)) = in_use (spool u)" "cn (count_user u) q = cn u q"
  "smem (count_user u) = smem u" "stimer (count_user u) = stimer u" "sconf (count_user u) = sconf u"
  "m_MsgSendQueue (count_user u) = m_MsgSendQueue u" "m_MsgRecvQueue (count_user u) = m_MsgRecvQueue u"
  "m_iSendMsgQueueCount (count_user u) = m_iSendMsgQueueCount u"
  "m_iRecvMsgQueueCount (count_user u) = m_iRecvMsgQueueCount u"
  "m_semEventSendQueue (count_user u) = m_semEventSendQueue u"
  "m_recyconnectionList (spool (count_user u)) = m_recyconnectionList (spool u)"
  "m_connectionList (spool (count_user u)) = m_connectionList (spool u)"
  "m_onlineUserCount (spool (count_user u)) = m_onlineUserCount (spool u) + 1"
  by (simp_all add: acct_def owned_def pool_bufs_def pool_inv_defs count_user_def free_clean_def unused_init_def)

text \<open>
  What accepting leaves alone: configuration, queues with their counters and semaphore, the recycle
  queue and the contents of all buffers. The timer of a new connection \<open>p\<close>: one entry more, when
  the configuration asks for it.
\<close>

definition accept_kept :: "server \<Rightarrow> server \<Rightarrow> bool" where
  "accept_kept s t \<longleftrightarrow> sconf t = sconf s
     \<and> m_MsgSendQueue t = m_MsgSendQueue s \<and> m_iSendMsgQueueCount t = m_iSendMsgQueueCount s
     \<and> m_MsgRecvQueue t = m_MsgRecvQueue s \<and> m_iRecvMsgQueueCount t = m_iRecvMsgQueueCount s
     \<and> m_semEventSendQueue t = m_semEventSendQueue s
     \<and> m_recyconnectionList (spool t) = m_recyconnectionList (spool s)
     \<and> (\<forall>b \<in> live (smem s) \<inter> live (smem t). read_obj b (smem t) = read_obj b (smem s))"

definition accept_timed :: "connptr \<Rightarrow> int \<Rightarrow> server \<Rightarrow> server \<Rightarrow> bool" where
  "accept_timed p now s t \<longleftrightarrow>
     (if m_ifkickTimeCount (sconf s) = 1
      then \<exists>a. m_timerQueuemap (stimer t) =
                multimap_insert (now + m_iWaitTime (m_timerconf (sconf s))) a (m_timerQueuemap (stimer s))
             \<and> hdr (smem t) a = \<lparr>pConn = p, iCurrsequence = cseq (cn t p)\<rparr>
      else stimer t = stimer s)"

lemma accept_base_kept: "acct E s \<Longrightarrow> accept_base E p s t \<Longrightarrow> accept_kept s t"
  using mem_step_read [of "{}" "smem s" "smem t"] by (simp add: accept_base_def accept_kept_def acct_def)

lemma accept_timed_add:
  assumes "sconf t = sconf s" and "stimer t = stimer s"
  shows "accept_timed p now s (if m_ifkickTimeCount (sconf t) = 1 then add_timer p now t else t)"
proof (cases "m_ifkickTimeCount (sconf s) = 1")
  case True
  obtain T m where e: "add_timer p now t = t\<lparr>stimer := T, smem := m\<rparr>"
    "m = snd (alloc_header \<lparr>pConn = p, iCurrsequence = cseq (cn t p)\<rparr> (smem t))"
    "m_timerQueuemap T =
      multimap_insert (now + m_iWaitTime (m_timerconf (sconf t))) (mem_next (smem t)) (m_timerQueuemap (stimer t))"
    by (rule add_timer_eq [where p = p and now = now and s = t])
  with True assms show ?thesis by (auto simp: accept_timed_def)
qed (simp add: accept_timed_def assms)

lemma accept_conn_outcome:
  assumes pre: "acct E s" "free_clean (spool s)" "unused_init (spool s)"
      "\<forall>p. length (dataHeadInfo (cn s p)) = DATA_BUFSIZE" and sock: "sock \<noteq> -1"
    and t: "t = accept_conn oldc sock addr ok now s"
  obtains (leak) "\<not> use_accept4 s" "\<not> ok" "accept_open E (got_conn sock now s) sock s t"
  | (closed) "accept_closed E (got_conn sock now s) s t" "sock \<in> set (k_closed (skern t))"
  | (served) u where "t = count_user u" "accept_open E (got_conn sock now s) sock s u" "served t (got_conn sock now s) sock"
      "accept_timed (got_conn sock now s) now s t"
proof -
  obtain p P where g: "qc_get_connection sock now (spool s) = (p, P)" by fastforce
  have pg: "got_conn sock now s = p" using g by simp
  have gs: "got_state sock now s = s\<lparr>spool := P\<rparr>" using g by (simp add: got_state_def)
  let ?t1 = "upd_cn p (\<lambda>c. c\<lparr>s_sockaddr := write_at 0 addr (s_sockaddr c)\<rparr>) (s\<lparr>spool := P\<rparr>)"
  let ?t2 = "upd_cn p (\<lambda>c. c\<lparr>listening := listening (cn ?t1 oldc),
    rhandler := Some H_read_request, whandler := Some H_write_request\<rparr>) ?t1"
  have O1: "accept_open E p sock s ?t1"
    using accept_got [OF pre, of sock now] unfolding gs pg by (intro accept_open_upd) simp_all
  have O2: "accept_open E p sock s ?t2" by (rule accept_open_upd [OF O1]) simp_all
  obtain r t3 where op: "qc_epoll_oper_event sock EPOLL_CTL_ADD (EPOLLIN OR EPOLLRDHUP) 0 p ?t2 = (r, t3)"
    by fastforce
  have t3: "t3 = snd (qc_epoll_oper_event sock EPOLL_CTL_ADD (EPOLLIN OR EPOLLRDHUP) 0 p ?t2)"
    by (simp only: op snd_conv)
  have O3: "accept_open E p sock s t3" unfolding t3 by (rule accept_open_oper [OF O2])
  have st: "stimer t3 = stimer s" unfolding t3 by simp
  let ?t4 = "if m_ifkickTimeCount (sconf t3) = 1 then add_timer p now t3 else t3"
  have O4: "accept_open E p sock s ?t4" using O3 accept_open_timer [OF O3 st] by simp
  have run: "t = (if \<not> use_accept4 s \<and> \<not> ok then ?t1
      else if r = -1 then close_new_conn p t3 else count_user ?t4)"
    by (simp only: t accept_conn_def g Let_def prod.case op setnonblocking_ok count_user_def)
  consider "\<not> use_accept4 s \<and> \<not> ok" | "use_accept4 s \<or> ok" "r = -1" | "use_accept4 s \<or> ok" "r \<noteq> -1" by blast
  then show thesis
  proof cases
    case 1 with O1 show thesis by (intro leak) (simp_all add: run pg)
  next
    case 2
    have "fd (cn t3 p) = sock" using O3 by (simp add: accept_open_def)
    then have "sock \<in> set (k_closed (skern (close_new_conn p t3)))" using sock by (rule close_new_conn_closes)
    with 2 accept_open_closed [OF O3 st] show thesis by (intro closed) (auto simp: run pg)
  next
    case 3
    then have t4: "t = count_user ?t4" by (auto simp: run)
    have "rhandler (cn t3 p) = Some H_read_request" "whandler (cn t3 p) = Some H_write_request"
      unfolding t3 by simp_all
    moreover have "k_epoll (skern t3) sock = Some (EPOLLIN OR EPOLLRDHUP, p)"
      using oper_add_result [OF op] 3 by auto
    moreover have "fd (cn t3 p) = sock" "in_use (spool t3) = insert p (in_use (spool s))"
      using O3 by (simp_all add: accept_open_def)
    ultimately have "served t p sock" by (simp add: t4 served_def count_user_def)
    moreover have "sconf t3 = sconf s" using O3 by (simp add: accept_open_def accept_base_def)
    with accept_timed_add [OF _ st] have "accept_timed p now s ?t4" by blast
    then have "accept_timed p now s t" by (simp add: t4 accept_timed_def)
    ultimately show thesis using t4 O4 pg by (intro served) simp_all
  qed
qed

lemma event_accept_cases:
  obtains b where "qc_event_accept oldc acc ok now s = s\<lparr>use_accept4 := b\<rparr>"
  | b sock addr where "acc b = Accepted sock addr"
      "qc_event_accept oldc acc ok now s = accept_new oldc sock addr ok now (s\<lparr>use_accept4 := b\<rparr>)"
proof -
  have same: "s\<lparr>use_accept4 := b\<rparr> = s" if "use_accept4 s = b" for s b
    using that by (intro server.equality) simp_all
  have once: "(\<exists>b. qc_event_accept oldc acc ok now s = s\<lparr>use_accept4 := b\<rparr>)
      \<or> (\<exists>b sock addr. acc b = Accepted sock addr
          \<and> qc_event_accept oldc acc ok now s = accept_new oldc sock addr ok now (s\<lparr>use_accept4 := b\<rparr>))"
    if "\<not> use_accept4 s" for s
  proof (cases "acc False")
    case (Accepted sock addr)
    with that show ?thesis
      by (intro disjI2 exI [of _ False]) (simp add: same qc_event_accept.simps [of oldc acc ok now s])
  next
    case (AcceptErr e)
    with that show ?thesis
      by (intro disjI1 exI [of _ False]) (simp add: same qc_event_accept.simps [of oldc acc ok now s])
  qed
  have "(\<exists>b. qc_event_accept oldc acc ok now s = s\<lparr>use_accept4 := b\<rparr>)
      \<or> (\<exists>b sock addr. acc b = Accepted sock addr
          \<and> qc_event_accept oldc acc ok now s = accept_new oldc sock addr ok now (s\<lparr>use_accept4 := b\<rparr>))"
  proof (cases "use_accept4 s")
    case False then show ?thesis by (rule once)
  next
    case True
    show ?thesis
    proof (cases "acc True")
      case (Accepted sock addr)
      with True show ?thesis
        by (intro disjI2 exI [of _ True]) (simp add: same qc_event_accept.simps [of oldc acc ok now s])
    next
      case (AcceptErr e)
      have "qc_event_accept oldc acc ok now s = s\<lparr>use_accept4 := True\<rparr>" if "e \<noteq> ENOSYS"
        using True AcceptErr that by (simp add: qc_event_accept.simps [of oldc acc ok now s])
      moreover have "qc_event_accept oldc acc ok now s = qc_event_accept oldc acc ok now (s\<lparr>use_accept4 := False\<rparr>)"
        if "e = ENOSYS"
        using True AcceptErr that by (simp add: qc_event_accept.simps [of oldc acc ok now s])
      ultimately show ?thesis using once [of "s\<lparr>use_accept4 := False\<rparr>"] by (cases "e = ENOSYS") auto
    qed
  qed
  then show thesis using that by blast
qed

lemma accept_new_cases:
  obtains (refused) "accept_new oldc sock addr ok now s = s\<lparr>skern := sys_close sock (skern s)\<rparr>"
  | (taken) "accept_new oldc sock addr ok now s = accept_conn oldc sock addr ok now s"
      "m_onlineUserCount (spool s) < m_worker_connections (sconf s)"
  by (cases "m_onlineUserCount (spool s) \<ge> m_worker_connections (sconf s)
      \<or> length (m_connectionList (spool s)) > as_size_t (m_worker_connections (sconf s) * 5)
         \<and> length (m_freeconnectionList (spool s)) < as_size_t (m_worker_connections (sconf s))")
    (rule refused, force simp: accept_new_def, rule taken, auto simp: accept_new_def)

section \<open>Properties\<close>

text \<open>
  C26. Accepting with \<open>accept4\<close> (the kernel has it, so \<open>setnonblocking\<close> is not called) never
  loses a descriptor and never exceeds the limit: the new descriptor is closed again, with the set
  of connections in use and the timers unchanged, or it belongs to a new connection that has the
  handlers of a user, is registered for reading, was counted, with the count at most
  \<open>m_worker_connections\<close>, and has got a timer if the configuration asks for it. The buffers stay
  accounted for with their contents, no other connection in use is touched, and the queues for
  sending, receiving and recycling stay as they are.
\<close>

theorem accept_served_or_closed:
  assumes "acct {#} s" and "free_clean (spool s)" and "unused_init (spool s)"
    and "\<forall>p. length (dataHeadInfo (cn s p)) = DATA_BUFSIZE" and "use_accept4 s"
    and "acc True = Accepted sock addr" and "sock \<noteq> -1" and "t = qc_event_accept oldc acc ok now s"
  shows "acct {#} t \<and> free_clean (spool t) \<and> accept_kept s t \<and> (\<forall>q \<in> in_use (spool s). cn t q = cn s q)
    \<and> (sock \<in> set (k_closed (skern t)) \<and> in_use (spool t) = in_use (spool s)
         \<and> m_onlineUserCount (spool t) = m_onlineUserCount (spool s) \<and> stimer t = stimer s
       \<or> (\<exists>p. p \<notin> in_use (spool s) \<and> in_use (spool t) = insert p (in_use (spool s)) \<and> served t p sock
         \<and> accept_timed p now s t
         \<and> m_onlineUserCount (spool t) = m_onlineUserCount (spool s) + 1
         \<and> m_onlineUserCount (spool t) \<le> m_worker_connections (sconf t)))"
proof -
  have t: "t = accept_new oldc sock addr ok now s"
    using assms(5,6,8) by (simp add: qc_event_accept.simps [of oldc acc ok now s])
  show ?thesis
  proof (cases rule: accept_new_cases [of oldc sock addr ok now s])
    case refused
    with assms(1,2) show ?thesis by (simp add: t sys_close_def accept_kept_def)
  next
    case taken
    show ?thesis
    proof (rule accept_conn_outcome [OF assms(1-4,7) refl, where oldc = oldc and addr = addr and ok = ok and now = now])
      assume "\<not> use_accept4 s" with assms(5) show ?thesis by simp
    next
      assume c: "accept_closed {#} (got_conn sock now s) s (accept_conn oldc sock addr ok now s)"
        and "sock \<in> set (k_closed (skern (accept_conn oldc sock addr ok now s)))"
      moreover have "accept_kept s (accept_conn oldc sock addr ok now s)"
        using c unfolding accept_closed_def by (blast intro: accept_base_kept [OF assms(1)])
      ultimately show ?thesis unfolding t taken accept_closed_def accept_base_def by auto metis
    next
      fix u
      assume u: "accept_conn oldc sock addr ok now s = count_user u" "accept_open {#} (got_conn sock now s) sock s u"
        and s: "served (accept_conn oldc sock addr ok now s) (got_conn sock now s) sock"
          "accept_timed (got_conn sock now s) now s (accept_conn oldc sock addr ok now s)"
      have "accept_kept s u" using u(2) unfolding accept_open_def by (blast intro: accept_base_kept [OF assms(1)])
      then have "accept_kept s (count_user u)" by (simp add: accept_kept_def)
      with u s taken(2) show ?thesis
        unfolding t taken(1) accept_open_def accept_base_def
        by (auto intro!: disjI2 exI [of _ "got_conn sock now s"]) metis+
    qed
  qed
qed

text \<open>A worker that has no connection yet.\<close>

definition fresh_worker :: server where
  "fresh_worker = CSocket_ctor default_conf
     (empty_memory (\<lambda>_ _. 0) (\<lambda>_. \<lparr>pConn = 0, iCurrsequence = 0\<rparr>)) quiet_kernel"

lemma fresh_worker_facts:
  "acct {#} fresh_worker" "free_clean (spool fresh_worker)" "unused_init (spool fresh_worker)"
  "length (dataHeadInfo (cn fresh_worker p)) = DATA_BUFSIZE" "use_accept4 fresh_worker"
  "in_use (spool fresh_worker) = {}" "m_onlineUserCount (spool fresh_worker) = 0"
  "sconf fresh_worker = default_conf"
  by (simp_all add: fresh_worker_def acct_ctor) (simp_all add: CSocket_ctor_def unused_init_def empty_pool_def
      in_use_def qc_connection_init_def free_clean_def)

theorem accept_served_or_closed_witness:
  "\<exists>t. t = qc_event_accept 9 (\<lambda>_. Accepted 7 [1, 2]) True 0 fresh_worker \<and> acct {#} t
     \<and> (7 \<in> set (k_closed (skern t)) \<or> (\<exists>p. served t p 7))"
  using accept_served_or_closed [OF fresh_worker_facts(1-3) _ fresh_worker_facts(5),
      of "\<lambda>_. Accepted 7 [1, 2]" 7 "[1, 2]" _ 9 True 0] fresh_worker_facts(4) by auto

text \<open>
  C40. Without \<open>accept4\<close>, a failing \<open>setnonblocking\<close> loses the new connection: the descriptor is
  neither closed nor registered and the connection object stays in use without being counted, so
  nothing will ever release the two.
\<close>

theorem accept_nonblock_failure_leaks:
  assumes "pool_inv (spool s)" and "\<not> use_accept4 s" and "acc False = Accepted sock addr"
    and "m_onlineUserCount (spool s) < m_worker_connections (sconf s)"
    and "length (m_connectionList (spool s)) \<le> as_size_t (m_worker_connections (sconf s) * 5)"
    and "t = qc_event_accept oldc acc False now s"
  shows "\<exists>p. p \<notin> in_use (spool s) \<and> in_use (spool t) = insert p (in_use (spool s)) \<and> fd (cn t p) = sock
    \<and> skern t = skern s \<and> m_onlineUserCount (spool t) = m_onlineUserCount (spool s)
    \<and> stimer t = stimer s"
proof -
  have "t = accept_conn oldc sock addr False now s"
    using assms(2-6) by (simp add: qc_event_accept.simps [of oldc acc False now s] accept_new_def)
  then have t: "t = upd_cn (got_conn sock now s) (\<lambda>c. c\<lparr>s_sockaddr := write_at 0 addr (s_sockaddr c)\<rparr>)
      (got_state sock now s)"
    using assms(2) by (simp add: accept_conn_def setnonblocking_ok case_prod_beta Let_def got_state_def)
  show ?thesis
    unfolding t using get_not_in_use [OF assms(1)] in_use_get [OF assms(1)] get_lists(1) [OF assms(1)]
    by (intro exI [of _ "got_conn sock now s"]) (simp add: got_state_def conns_get_same)
qed

theorem accept_nonblock_failure_leaks_witness:
  "\<exists>t p. t = qc_event_accept 9 (\<lambda>_. Accepted 7 [1, 2]) False 0 (fresh_worker\<lparr>use_accept4 := False\<rparr>)
     \<and> in_use (spool t) = {p} \<and> fd (cn t p) = 7 \<and> k_closed (skern t) = [] \<and> k_epoll (skern t) 7 = None"
proof -
  let ?s = "fresh_worker\<lparr>use_accept4 := False\<rparr>" and ?acc = "\<lambda>_ :: bool. Accepted 7 [1, 2]"
  let ?t = "qc_event_accept 9 ?acc False 0 ?s"
  have sp: "spool ?s = empty_pool" "skern ?s = quiet_kernel" "sconf ?s = default_conf"
    by (simp_all add: fresh_worker_def CSocket_ctor_def)
  have "pool_inv (spool ?s)" "m_onlineUserCount (spool ?s) < m_worker_connections (sconf ?s)"
    "length (m_connectionList (spool ?s)) \<le> as_size_t (m_worker_connections (sconf ?s) * 5)"
    "in_use (spool ?s) = {}"
    unfolding sp using pool_inv_empty by (simp_all add: default_conf_def in_use_def) (simp add: empty_pool_def)
  from accept_nonblock_failure_leaks [OF this(1) _ _ this(2,3) refl, of ?acc 7 "[1, 2]" 9 0] this(4)
  obtain p where "in_use (spool ?t) = {p} \<and> fd (cn ?t p) = 7 \<and> skern ?t = quiet_kernel"
    unfolding sp(2) by auto
  then show ?thesis by (intro exI [of _ ?t] exI [of _ p]) (simp add: quiet_kernel_def)
qed

section \<open>The listening sockets\<close>

lemma open_ports_spec:
  "open_ports call iport i n ls K = (ok, ls', K') \<Longrightarrow>
   \<exists>m \<le> n. ls' = ls @ map (\<lambda>j. \<lparr>lport = iport j, lfd = c_socket (call j), lconnection = None\<rparr>) [i..<i + m]
     \<and> (ok \<longleftrightarrow> m = n) \<and> (ok \<longrightarrow> K' = K)
     \<and> (\<forall>j \<in> {i..<i + m}. c_socket (call j) \<noteq> -1 \<and> c_nonblock (call j) \<and> c_bind (call j) \<and> c_listen (call j))
     \<and> (\<not> ok \<longrightarrow> (if c_socket (call (i + m)) = -1 then K' = K else K' = sys_close (c_socket (call (i + m))) K))"
proof (induction call iport i n ls K rule: open_ports.induct)
  case (1 call iport i ls K)
  then show ?case by simp
next
  case (2 call iport i n ls K)
  let ?c = "call i"
  let ?good = "c_socket ?c \<noteq> -1 \<and> c_reuseaddr ?c \<and> c_nonblock ?c \<and> c_bind ?c \<and> c_listen ?c"
  show ?case
  proof (cases ?good)
    case False
    with "2.prems" show ?thesis
      by (intro exI [of _ 0]) (auto simp: Let_def setnonblocking_ok split: if_splits)
  next
    case True
    let ?e = "\<lambda>j. \<lparr>lport = iport j, lfd = c_socket (call j), lconnection = None\<rparr>"
    from True "2.prems" have "open_ports call iport (Suc i) n (ls @ [?e i]) K = (ok, ls', K')"
      by (simp add: Let_def setnonblocking_ok)
    with True "2.IH" [OF refl refl] obtain m where m: "m \<le> n"
      "ls' = (ls @ [?e i]) @ map ?e [Suc i..<Suc i + m]" "ok \<longleftrightarrow> m = n" "ok \<longrightarrow> K' = K"
      "\<forall>j \<in> {Suc i..<Suc i + m}. c_socket (call j) \<noteq> -1 \<and> c_nonblock (call j) \<and> c_bind (call j) \<and> c_listen (call j)"
      "\<not> ok \<longrightarrow> (if c_socket (call (Suc i + m)) = -1 then K' = K else K' = sys_close (c_socket (call (Suc i + m))) K)"
      by (auto simp: setnonblocking_ok)
    have "[i..<i + Suc m] = i # [Suc i..<Suc i + m]" by (simp add: upt_rec)
    moreover have "{i..<i + Suc m} = insert i {Suc i..<Suc i + m}" by auto
    ultimately show ?thesis using m True by (intro exI [of _ "Suc m"]) auto
  qed
qed

lemma fold_sys_close: "k_closed (fold (\<lambda>l. sys_close (lfd l)) ls K) = k_closed K @ map lfd ls"
  by (induction ls arbitrary: K) (simp_all add: sys_close_def)

text \<open>
  C38. Opening the listening sockets either opens all of them, each bound, listening and not
  blocking, one entry per port in order, or fails at some port, whose socket is closed again if
  there was one. The sockets of the ports before it stay open. Closing afterwards closes exactly
  the listed descriptors.
\<close>

theorem open_listening_all_or_fail:
  assumes "qc_open_listening_sockets call iport n [] K = (ok, ls, K')"
  shows "(ok \<longrightarrow> 0 < n \<and> map lfd ls = map (\<lambda>j. c_socket (call j)) [0..<n] \<and> map lport ls = map iport [0..<n]
       \<and> (\<forall>j < n. c_bind (call j) \<and> c_listen (call j) \<and> c_nonblock (call j)) \<and> K' = K
       \<and> (\<exists>K''. qc_close_listening_sockets n ls K' = Some K'' \<and> k_closed K'' = k_closed K @ map lfd ls))
    \<and> (\<not> ok \<longrightarrow> n = 0 \<or> (\<exists>i < n. map lfd ls = map (\<lambda>j. c_socket (call j)) [0..<i]
       \<and> (if c_socket (call i) = -1 then K' = K else K' = sys_close (c_socket (call i)) K)))"
proof -
  obtain ok1 where run: "open_ports call iport 0 n [] K = (ok1, ls, K')" and ok: "ok \<longleftrightarrow> ok1 \<and> 0 < length ls"
    using assms by (auto simp: qc_open_listening_sockets_def split: prod.splits if_splits)
  obtain m where m: "m \<le> n"
    "ls = map (\<lambda>j. \<lparr>lport = iport j, lfd = c_socket (call j), lconnection = None\<rparr>) [0..<m]"
    "ok1 \<longleftrightarrow> m = n" "ok1 \<longrightarrow> K' = K"
    "\<forall>j \<in> {0..<m}. c_socket (call j) \<noteq> -1 \<and> c_nonblock (call j) \<and> c_bind (call j) \<and> c_listen (call j)"
    "\<not> ok1 \<longrightarrow> (if c_socket (call m) = -1 then K' = K else K' = sys_close (c_socket (call m)) K)"
    using open_ports_spec [OF run] unfolding append_Nil add_0 by blast
  have lfd: "map lfd ls = map (\<lambda>j. c_socket (call j)) [0..<m]" "map lport ls = map iport [0..<m]"
    by (simp_all add: m(2))
  show ?thesis
  proof (cases ok1)
    case True
    with m have n: "m = n" "K' = K" by simp_all
    have "qc_close_listening_sockets n ls K = Some (fold (\<lambda>l. sys_close (lfd l)) ls K)"
      using n by (simp add: qc_close_listening_sockets_def m(2))
    with True n m(5) ok lfd show ?thesis by (auto simp: fold_sys_close m(2))
  next
    case False
    with m ok lfd show ?thesis by (auto intro!: exI [of _ m])
  qed
qed

theorem open_listening_all_or_fail_witness:
  "qc_open_listening_sockets (\<lambda>i. \<lparr>c_socket = 5, c_reuseaddr = True, c_reuseport = False, c_nonblock = True,
      c_bind = i = 0, c_listen = True\<rparr>) (\<lambda>i. 80 + int i) 2 [] quiet_kernel =
     (False, [\<lparr>lport = 80, lfd = 5, lconnection = None\<rparr>], sys_close 5 quiet_kernel)
   \<and> (\<exists>i < (2::nat). map lfd [\<lparr>lport = 80, lfd = 5, lconnection = None\<rparr>] = map (\<lambda>j. 5) [0..<i])"
proof -
  let ?c = "\<lambda>i::nat. \<lparr>c_socket = 5, c_reuseaddr = True, c_reuseport = False, c_nonblock = True,
      c_bind = i = 0, c_listen = True\<rparr>"
  have run: "qc_open_listening_sockets ?c (\<lambda>i. 80 + int i) 2 [] quiet_kernel =
     (False, [\<lparr>lport = 80, lfd = 5, lconnection = None\<rparr>], sys_close 5 quiet_kernel)"
    by (simp add: qc_open_listening_sockets_def numeral_2_eq_2 Let_def setnonblocking_ok)
  from open_listening_all_or_fail [OF run] run show ?thesis by auto
qed

end
