(* ===== verification/QcInvariant.thy ===== *)
theory QcInvariant
  imports QcSendQueue QcLogic QcEpoll
begin

text \<open>
  The invariant of a whole worker: the account of the buffers, the receiving and sending state of
  every connection in use, the queues and their counters, distinct descriptors, and that every
  message in a queue was stamped by a past or present user of its connection. The frame lemmas
  reduce its preservation to what the handlers' own lemmas say.
\<close>

section \<open>The invariant\<close>

definition msgs :: "server \<Rightarrow> addr set" where
  "msgs s = set (m_MsgSendQueue s) \<union> set (m_MsgRecvQueue s) \<union> set (timer_addrs (stimer s))"

text \<open>
  A header was stamped at most \<open>n\<close> sequence numbers ago; if the number is still the same, the
  connection is in use.
\<close>

definition fresh :: "nat \<Rightarrow> server \<Rightarrow> STRUC_MSG_HEADER \<Rightarrow> bool" where
  "fresh n s h \<longleftrightarrow> (\<exists>k \<le> n. cseq (cn s (pConn h)) = iCurrsequence h + of_nat k
     \<and> (k = 0 \<longrightarrow> pConn h \<in> in_use (spool s)))"

definition conns_ok :: "server \<Rightarrow> bool" where
  "conns_ok s \<longleftrightarrow> (\<forall>p \<in> in_use (spool s). recv_ok (smem s) p (cn s p) \<and> send_ok (smem s) (cn s p))"

definition queues_ok :: "server \<Rightarrow> bool" where
  "queues_ok s \<longleftrightarrow> m_iSendMsgQueueCount s = int (length (m_MsgSendQueue s))
     \<and> m_iRecvMsgQueueCount s = int (length (m_MsgRecvQueue s))
     \<and> (\<forall>a \<in> set (m_MsgSendQueue s). pkg_ok (smem s) a)
     \<and> (\<forall>a \<in> set (m_MsgRecvQueue s). complete_pkg (smem s) a)"

definition worker_inv :: "nat \<Rightarrow> server \<Rightarrow> bool" where
  "worker_inv n s \<longleftrightarrow> acct {#} s \<and> free_clean (spool s) \<and> unused_init (spool s)
     \<and> (\<forall>p. length (dataHeadInfo (cn s p)) = DATA_BUFSIZE) \<and> fds_ok s \<and> conns_ok s \<and> queues_ok s
     \<and> (\<forall>a \<in> msgs s. fresh n s (hdr (smem s) a))
     \<and> m_onlineUserCount (spool s) \<le> max 0 (m_worker_connections (sconf s))
     \<and> 0 < m_iWaitTime (m_timerconf (sconf s))"

text \<open>Within \<open>2 ^ 64\<close> sequence numbers a current message is for a connection in use.\<close>

lemma fresh_current:
  assumes "fresh n s h" and "n < 2 ^ 64" and "cseq (cn s (pConn h)) = iCurrsequence h"
  shows "pConn h \<in> in_use (spool s)"
proof -
  obtain k where k: "k \<le> n" "cseq (cn s (pConn h)) = iCurrsequence h + of_nat k"
    "k = 0 \<longrightarrow> pConn h \<in> in_use (spool s)" using assms(1) by (auto simp: fresh_def)
  have "\<not> 0 < k"
    using word_add_of_nat_neq [of k "iCurrsequence h"] k(1,2) assms(2,3) by auto
  with k(3) show ?thesis by simp
qed

lemma current_in_use:
  "worker_inv n s \<Longrightarrow> n < 2 ^ 64 \<Longrightarrow> a \<in> msgs s \<Longrightarrow> current s a \<Longrightarrow> conn_of s a \<in> in_use (spool s)"
  unfolding conn_of_def current_def by (rule fresh_current) (auto simp: worker_inv_def)

lemma msgs_owned: "a \<in> msgs s \<Longrightarrow> a \<in># owned s + E"
  by (auto simp: msgs_def owned_def)

lemma bufs_owned: "q \<in> in_use (spool s) \<Longrightarrow> a \<in> set (conn_bufs (cn s q)) \<Longrightarrow> a \<in># owned s + E"
  using pool_bufs_in [of q "spool s" a] by (simp add: owned_def in_use_def)

lemma acct_read_kept:
  assumes "acct E s" and "acct F t" and "mem_step B (smem s) (smem t)" and "a \<notin> B"
    and "a \<in># owned s + E" and "a \<in># owned t + F"
  shows "read_obj a (smem t) = read_obj a (smem s)"
  by (rule mem_step_read [OF assms(3)]) (use assms acct_live in \<open>auto simp: acct_def\<close>)

section \<open>Connections that keep their state\<close>

text \<open>The part of a connection object its receiving and sending state depends on.\<close>

definition conn_core :: "conn \<Rightarrow> conn" where
  "conn_core c = c\<lparr>fd := 0, listening := None, s_sockaddr := [], rhandler := None, whandler := None,
     events := 0, inRecyTime := 0, lastPingTime := 0, FloodkickLastTime := 0, FloodAttackCount := 0,
     iSendCount := 0\<rparr>"

lemma conn_core_fields:
  "cseq (conn_core c) = cseq c" "dataHeadInfo (conn_core c) = dataHeadInfo c"
  "curStat (conn_core c) = curStat c" "precvbuf (conn_core c) = precvbuf c"
  "irecvlen (conn_core c) = irecvlen c" "precvMemPointer (conn_core c) = precvMemPointer c"
  "iThrowsendCount (conn_core c) = iThrowsendCount c" "psendMemPointer (conn_core c) = psendMemPointer c"
  "psendbuf (conn_core c) = psendbuf c" "isendlen (conn_core c) = isendlen c"
  by (simp_all add: conn_core_def)

lemma conn_core_simps [simp]:
  "recv_ok m p (conn_core c) = recv_ok m p c" "send_ok m (conn_core c) = send_ok m c"
  "conn_bufs (conn_core c) = conn_bufs c" "cseq (conn_core c) = cseq c"
  "dataHeadInfo (conn_core c) = dataHeadInfo c"
  unfolding recv_ok_def body_ok_def send_ok_def conn_bufs_def conn_core_fields by (rule refl)+

lemma recv_ok_kept:
  "(\<And>a. precvMemPointer c = Some a \<Longrightarrow> read_obj a m' = read_obj a m) \<Longrightarrow>
   recv_ok m' p c = recv_ok m p c"
  by (cases "precvMemPointer c") (auto simp: recv_ok_def body_ok_def split: pkg_stat.split)

lemma conn_kept:
  assumes A: "acct {#} s" "acct {#} t" and mem: "mem_step B (smem s) (smem t)"
    and q: "q \<in> in_use (spool s)" "q \<in> in_use (spool t)"
    and core: "conn_core (cn t q) = conn_core (cn s q)" and B: "set (conn_bufs (cn s q)) \<inter> B = {}"
    and ok: "recv_ok (smem s) q (cn s q)" "send_ok (smem s) (cn s q)"
  shows "recv_ok (smem t) q (cn t q) \<and> send_ok (smem t) (cn t q)"
proof -
  have bufs: "conn_bufs (cn t q) = conn_bufs (cn s q)" using core by (metis conn_core_simps(3))
  have rd: "read_obj a (smem t) = read_obj a (smem s)" if "a \<in> set (conn_bufs (cn s q))" for a
    using that B bufs by (intro acct_read_kept [OF A mem _ bufs_owned [OF q(1)] bufs_owned [OF q(2)]]) auto
  have "recv_ok (smem t) q (cn s q) = recv_ok (smem s) q (cn s q)"
    by (rule recv_ok_kept) (use rd in \<open>auto simp: conn_bufs_def\<close>)
  moreover have "send_ok (smem t) (cn s q)"
    by (rule send_ok_cong [OF ok(2)]) (use rd in \<open>auto simp: conn_bufs_def\<close>)
  moreover have "recv_ok (smem t) q (cn t q) = recv_ok (smem t) q (cn s q)"
    "send_ok (smem t) (cn t q) = send_ok (smem t) (cn s q)"
    using core by (metis conn_core_simps(1), metis conn_core_simps(2))
  ultimately show ?thesis using ok(1) by simp
qed

section \<open>The frame of a step\<close>

text \<open>Where the header of a message in the new state may come from.\<close>

definition hdr_from :: "server \<Rightarrow> server \<Rightarrow> STRUC_MSG_HEADER \<Rightarrow> bool" where
  "hdr_from s t h \<longleftrightarrow> (\<exists>a \<in> msgs s. h = hdr (smem s) a)
     \<or> (pConn h \<in> in_use (spool s) \<and> cseq (cn s (pConn h)) = iCurrsequence h)
     \<or> (pConn h \<in> in_use (spool t) \<and> cseq (cn t (pConn h)) = iCurrsequence h)"

lemma fresh_step:
  assumes "fresh n s h" and "seq_step j s t"
  shows "fresh (n + j) t h"
proof -
  obtain k where k: "k \<le> n" "cseq (cn s (pConn h)) = iCurrsequence h + of_nat k"
    "k = 0 \<longrightarrow> pConn h \<in> in_use (spool s)" using assms(1) by (auto simp: fresh_def)
  obtain i where i: "i \<le> j" "cseq (cn t (pConn h)) = cseq (cn s (pConn h)) + of_nat i"
    "i = 0 \<longrightarrow> pConn h \<in> in_use (spool s) \<longrightarrow> pConn h \<in> in_use (spool t)"
    using assms(2) unfolding seq_step_def by blast
  show ?thesis unfolding fresh_def using k i by (intro exI [of _ "k + i"]) auto
qed

lemma fresh_hdr_from:
  assumes "\<forall>a \<in> msgs s. fresh n s (hdr (smem s) a)" and "seq_step j s t" and "hdr_from s t h"
  shows "fresh (n + j) t h"
proof -
  have "fresh n s h \<or> fresh 0 t h"
    using assms(1,3) by (auto simp: hdr_from_def fresh_def intro: exI [of _ 0])
  moreover have "fresh (n + j) t h" if "fresh 0 t h" using that by (auto simp: fresh_def intro: exI [of _ 0])
  ultimately show ?thesis using fresh_step [OF _ assms(2)] by blast
qed

text \<open>
  A step that keeps the invariant and raises no sequence number by more than \<open>j\<close>; a connection
  whose number is unchanged is still in use if it was. The configuration stays.
\<close>

definition inv_step :: "nat \<Rightarrow> nat \<Rightarrow> server \<Rightarrow> server \<Rightarrow> bool" where
  "inv_step n j s t \<longleftrightarrow> worker_inv (n + j) t \<and> seq_step j s t \<and> sconf t = sconf s"

lemma inv_step_inv: "inv_step n j s t \<Longrightarrow> worker_inv (n + j) t"
  by (simp add: inv_step_def)

lemma worker_inv_mono: "worker_inv n s \<Longrightarrow> n \<le> m \<Longrightarrow> worker_inv m s"
  unfolding worker_inv_def fresh_def by (meson order_trans)

lemma inv_step_refl [simp]: "worker_inv n s \<Longrightarrow> inv_step n j s s"
  by (simp add: inv_step_def worker_inv_mono)

lemma inv_step_mono: "inv_step n i s t \<Longrightarrow> i \<le> j \<Longrightarrow> inv_step n j s t"
  by (auto simp: inv_step_def seq_step_mono intro: worker_inv_mono)

lemma inv_step_trans: "inv_step n i s t \<Longrightarrow> inv_step (n + i) j t u \<Longrightarrow> inv_step n (i + j) s u"
  by (auto simp: inv_step_def ac_simps intro: seq_step_trans)

lemma worker_inv_frame:
  assumes W: "worker_inv n s" and A: "acct {#} t"
    and pool: "free_clean (spool t)" "unused_init (spool t)" "\<And>p. length (dataHeadInfo (cn t p)) = DATA_BUFSIZE"
    and fds: "fds_ok t" and conf: "sconf t = sconf s"
    and on: "m_onlineUserCount (spool t) \<le> max 0 (m_worker_connections (sconf s))"
    and seq: "seq_step j s t" and mem: "mem_step B (smem s) (smem t)"
    and conns: "conns_ok t"
    and cnt: "m_iSendMsgQueueCount t = int (length (m_MsgSendQueue t))"
      "m_iRecvMsgQueueCount t = int (length (m_MsgRecvQueue t))"
    and sq: "\<And>a. a \<in> set (m_MsgSendQueue t) \<Longrightarrow> a \<in> set (m_MsgSendQueue s) \<and> a \<notin> B \<or> pkg_ok (smem t) a"
    and rq: "\<And>a. a \<in> set (m_MsgRecvQueue t) \<Longrightarrow> a \<in> set (m_MsgRecvQueue s) \<and> a \<notin> B \<or> complete_pkg (smem t) a"
    and hs: "\<And>a. a \<in> msgs t \<Longrightarrow> a \<in> msgs s \<and> a \<notin> B \<or> hdr_from s t (hdr (smem t) a)"
  shows "inv_step n j s t"
proof -
  have As: "acct {#} s" and Q: "queues_ok s" and F: "\<forall>a \<in> msgs s. fresh n s (hdr (smem s) a)"
    and w: "0 < m_iWaitTime (m_timerconf (sconf s))" using W by (simp_all add: worker_inv_def)
  have rd: "read_obj a (smem t) = read_obj a (smem s)" if "a \<in> msgs s" "a \<in> msgs t" "a \<notin> B" for a
    by (rule acct_read_kept [OF As A mem that(3) msgs_owned [OF that(1)] msgs_owned [OF that(2)]])
  have "queues_ok t"
    unfolding queues_ok_def
  proof (intro conjI ballI)
    fix a assume a: "a \<in> set (m_MsgSendQueue t)"
    show "pkg_ok (smem t) a"
    proof (cases "pkg_ok (smem t) a")
      case False
      with sq [OF a] have s: "a \<in> set (m_MsgSendQueue s)" "a \<notin> B" by auto
      with a rd [of a] Q show ?thesis by (auto simp: msgs_def queues_ok_def pkg_ok_def queued_pkg_def)
    qed
  next
    fix a assume a: "a \<in> set (m_MsgRecvQueue t)"
    show "complete_pkg (smem t) a"
    proof (cases "complete_pkg (smem t) a")
      case False
      with rq [OF a] have s: "a \<in> set (m_MsgRecvQueue s)" "a \<notin> B" by auto
      with a rd [of a] Q show ?thesis by (auto simp: msgs_def queues_ok_def complete_pkg_def queued_pkg_def)
    qed
  qed (rule cnt)+
  moreover have "fresh (n + j) t (hdr (smem t) a)" if a: "a \<in> msgs t" for a
  proof (rule fresh_hdr_from [OF F seq])
    show "hdr_from s t (hdr (smem t) a)"
      using hs [OF a] rd [OF _ a] by (auto simp: hdr_from_def hdr_def)
  qed
  ultimately show ?thesis
    using A pool fds conf on conns w seq by (simp add: worker_inv_def inv_step_def)
qed

section \<open>Steps that only close connections\<close>

text \<open>
  A calm step closes some connections, changes nothing in the receiving and sending state of the
  others, and writes at most into the buffers of \<open>B\<close>; the queues and timers are not its concern.
\<close>

definition calm :: "addr set \<Rightarrow> server \<Rightarrow> server \<Rightarrow> bool" where
  "calm B s t \<longleftrightarrow> sconf t = sconf s
     \<and> m_connectionList (spool t) = m_connectionList (spool s)
     \<and> m_freeconnectionList (spool t) = m_freeconnectionList (spool s)
     \<and> in_use (spool t) \<subseteq> in_use (spool s)
     \<and> m_onlineUserCount (spool t) \<le> m_onlineUserCount (spool s)
     \<and> (\<forall>q. dataHeadInfo (cn t q) = dataHeadInfo (cn s q) \<and> conn_bufs (cn t q) = conn_bufs (cn s q)
          \<and> (fd (cn t q) = fd (cn s q) \<or> fd (cn t q) = -1))
     \<and> (\<forall>q \<in> in_use (spool t). conn_core (cn t q) = conn_core (cn s q) \<and> fd (cn t q) = fd (cn s q))
     \<and> (\<forall>q \<in> in_use (spool s) - in_use (spool t). fd (cn t q) = -1)
     \<and> (\<forall>q. q \<notin> set (m_connectionList (spool s)) \<longrightarrow> cn t q = cn s q)
     \<and> mem_step B (smem s) (smem t)"

lemma calm_refl [simp]: "calm B s s"
  by (simp add: calm_def)

lemma calm_trans:
  assumes "calm A s t" and "calm B t u"
  shows "calm (A \<union> B) s u"
proof -
  have "fd (cn u q) = -1" if "q \<in> in_use (spool s) - in_use (spool u)" for q
    using that assms unfolding calm_def by (cases "q \<in> in_use (spool t)") (fastforce, metis Diff_iff)
  moreover have "fd (cn u q) = fd (cn s q) \<or> fd (cn u q) = -1" for q
    using assms unfolding calm_def by metis
  moreover have "mem_step (A \<union> B) (smem s) (smem u)"
    using assms by (auto simp: calm_def intro: mem_step_trans)
  ultimately show ?thesis using assms unfolding calm_def by (auto simp: subset_iff)
qed

lemma calm_trans_same: "calm A s t \<Longrightarrow> calm A t u \<Longrightarrow> calm A s u"
  using calm_trans [of A s t A u] by simp

lemma calm_mono: "calm A s t \<Longrightarrow> A \<subseteq> B \<Longrightarrow> calm B s t"
  by (auto simp: calm_def intro: mem_step_mono)

lemma timers_zdClose:
  assumes "acct E s"
  shows "set (timer_addrs (stimer (zdClosesocketProc p now s))) \<subseteq> set (timer_addrs (stimer s))"
proof -
  have T: "timer_wf (stimer s)" "timer_live (stimer s) (smem s)"
    using assms acct_timer_live by (auto simp: acct_def)
  show ?thesis
    using DeleteFromTimerQueue_eq(3) [OF T, of p]
    by (simp add: zdClosesocketProc_def Let_def zd_timer_def case_prod_beta)
qed

lemma calm_zdClose:
  assumes "acct E s" and "closable s p"
  shows "calm B s (zdClosesocketProc p now s)"
proof -
  have p: "p \<in> set (m_connectionList (spool s))"
    using assms closable_listed by (auto simp: acct_def)
  have "m_onlineUserCount (spool (zdClosesocketProc p now s)) \<le> m_onlineUserCount (spool s)"
    by (simp add: zdClosesocketProc_def Let_def inRecyConnectQueue_def zd_throw_def zd_fd_def zd_timer_def case_prod_beta)
  moreover have "dataHeadInfo (cn (zdClosesocketProc p now s) q) = dataHeadInfo (cn s q)"
    "conn_bufs (cn (zdClosesocketProc p now s) q) = conn_bufs (cn s q)"
    "fd (cn (zdClosesocketProc p now s) q) = (if q = p then -1 else fd (cn s q))" for q
    by (cases "q = p"; simp add: zdClose_self conn_bufs_def)+
  moreover have "cn (zdClosesocketProc p now s) q = cn s q" if "q \<notin> set (m_connectionList (spool s))" for q
    using that p by (intro zdClose_simps) auto
  ultimately show ?thesis
    by (auto simp: calm_def)
qed

lemma calm_upd_cn:
  assumes "p \<in> set (m_connectionList (spool s))" and "conn_core (f (cn s p)) = conn_core (cn s p)"
    and "fd (f (cn s p)) = fd (cn s p)"
  shows "calm B s (upd_cn p f s)"
proof -
  have "dataHeadInfo (f (cn s p)) = dataHeadInfo (cn s p)" "conn_bufs (f (cn s p)) = conn_bufs (cn s p)"
    using assms(2) by (metis conn_core_simps(5), metis conn_core_simps(3))
  with assms show ?thesis by (auto simp: calm_def)
qed

lemma calm_simps [simp]:
  "calm B s (free_buf a s)" "calm B s (sem_post s)" "calm B s (s\<lparr>skern := K\<rparr>)"
  "calm B s (s\<lparr>m_MsgSendQueue := q, m_iSendMsgQueueCount := n\<rparr>)"
  "calm B s (s\<lparr>m_MsgRecvQueue := q, m_iRecvMsgQueueCount := n\<rparr>)"
  "calm B s (s\<lparr>m_iDiscardSendPkgCount := n\<rparr>)"
  "calm B s (s\<lparr>stimer := T\<rparr>)"
  by (simp_all add: calm_def sem_post_def)

lemma calm_mem: "mem_step B (smem s) m \<Longrightarrow> calm B s (s\<lparr>smem := m\<rparr>)"
  by (simp add: calm_def)

text \<open>What a calm step leaves of the invariant.\<close>

lemma fds_ok_calm: "fds_ok s \<Longrightarrow> calm B s t \<Longrightarrow> fds_ok t"
  unfolding fds_ok_def
proof (intro conjI)
  assume F: "inj_on (\<lambda>p. fd (cn s p)) (in_use (spool s)) \<and> (\<forall>p \<in> in_use (spool s). fd (cn s p) \<noteq> -1)
     \<and> (\<forall>p \<in> set (m_connectionList (spool s)) - in_use (spool s). fd (cn s p) = -1)" and C: "calm B s t"
  have u: "in_use (spool t) \<subseteq> in_use (spool s)" "\<forall>q \<in> in_use (spool t). fd (cn t q) = fd (cn s q)"
    using C by (auto simp: calm_def)
  show "inj_on (\<lambda>p. fd (cn t p)) (in_use (spool t))"
    using F u by (auto simp: inj_on_def subset_iff)
  show "\<forall>p \<in> in_use (spool t). fd (cn t p) \<noteq> -1" using F u by auto
  show "\<forall>p \<in> set (m_connectionList (spool t)) - in_use (spool t). fd (cn t p) = -1"
  proof
    fix p assume p: "p \<in> set (m_connectionList (spool t)) - in_use (spool t)"
    show "fd (cn t p) = -1"
    proof (cases "p \<in> in_use (spool s)")
      case True with p C show ?thesis by (simp add: calm_def)
    next
      case False
      with p C F have "fd (cn s p) = -1" by (simp add: calm_def)
      moreover have "fd (cn t p) = fd (cn s p) \<or> fd (cn t p) = -1" using C by (simp add: calm_def)
      ultimately show ?thesis by auto
    qed
  qed
qed

lemma worker_inv_calm:
  assumes W: "worker_inv n s" and A: "acct {#} t" and C: "calm B s t" and seq: "seq_step j s t"
    and B: "\<And>q. q \<in> in_use (spool t) \<Longrightarrow> set (conn_bufs (cn s q)) \<inter> B = {}"
    and cnt: "m_iSendMsgQueueCount t = int (length (m_MsgSendQueue t))"
      "m_iRecvMsgQueueCount t = int (length (m_MsgRecvQueue t))"
    and sq: "\<And>a. a \<in> set (m_MsgSendQueue t) \<Longrightarrow> a \<in> set (m_MsgSendQueue s) \<and> a \<notin> B \<or> pkg_ok (smem t) a"
    and rq: "\<And>a. a \<in> set (m_MsgRecvQueue t) \<Longrightarrow> a \<in> set (m_MsgRecvQueue s) \<and> a \<notin> B \<or> complete_pkg (smem t) a"
    and hs: "\<And>a. a \<in> msgs t \<Longrightarrow> a \<in> msgs s \<and> a \<notin> B \<or> hdr_from s t (hdr (smem t) a)"
  shows "inv_step n j s t"
proof (rule worker_inv_frame [OF W A])
  have pool: "free_clean (spool s)" "unused_init (spool s)" "fds_ok s" "conns_ok s" "acct {#} s"
    "\<And>p. length (dataHeadInfo (cn s p)) = DATA_BUFSIZE"
    "m_onlineUserCount (spool s) \<le> max 0 (m_worker_connections (sconf s))"
    using W by (simp_all add: worker_inv_def)
  show "free_clean (spool t)" using pool(1) C by (simp add: free_clean_def calm_def)
  show "unused_init (spool t)" using pool(2) C by (simp add: unused_init_def calm_def)
  show "fds_ok t" by (rule fds_ok_calm [OF pool(3) C])
  show "length (dataHeadInfo (cn t p)) = DATA_BUFSIZE" for p using pool(6) [of p] C by (simp add: calm_def)
  show "sconf t = sconf s" "mem_step B (smem s) (smem t)" using C by (simp_all add: calm_def)
  show "m_onlineUserCount (spool t) \<le> max 0 (m_worker_connections (sconf s))"
    using pool(7) C unfolding calm_def by linarith
  show "conns_ok t"
    unfolding conns_ok_def
  proof
    fix q assume q: "q \<in> in_use (spool t)"
    with C pool(4) have "q \<in> in_use (spool s)" "conn_core (cn t q) = conn_core (cn s q)"
      "recv_ok (smem s) q (cn s q)" "send_ok (smem s) (cn s q)" "mem_step B (smem s) (smem t)"
      by (auto simp: calm_def conns_ok_def)
    then show "recv_ok (smem t) q (cn t q) \<and> send_ok (smem t) (cn t q)"
      using conn_kept [OF pool(5) A _ _ q _ B [OF q]] by blast
  qed
qed (rule seq cnt | erule sq rq hs)+

end
