(* ===== verification/QcSteps.thy ===== *)
theory QcSteps
  imports QcInvariant
begin

text \<open>
  Every handler and every round of a thread keeps the invariant of the worker: the timer monitor,
  the job of a pool thread, reading, writing, the sending thread, the recycling thread, accepting.
\<close>

section \<open>The timer monitor\<close>

lemma zdClose_counts [simp]:
  "m_iSendMsgQueueCount (zdClosesocketProc p now s) = m_iSendMsgQueueCount s"
  "m_iRecvMsgQueueCount (zdClosesocketProc p now s) = m_iRecvMsgQueueCount s"
  by (simp_all add: zdClosesocketProc_def Let_def zd_throw_def zd_fd_def zd_timer_def case_prod_beta)

lemma calm_procPing:
  assumes "acct (add_mset a E) s" and "current s a \<Longrightarrow> closable s (conn_of s a)"
  shows "calm {} s (procPingTimeOutChecking a cur s)
    \<and> m_iSendMsgQueueCount (procPingTimeOutChecking a cur s) = m_iSendMsgQueueCount s
    \<and> m_iRecvMsgQueueCount (procPingTimeOutChecking a cur s) = m_iRecvMsgQueueCount s
    \<and> set (timer_addrs (stimer (procPingTimeOutChecking a cur s))) \<subseteq> set (timer_addrs (stimer s))"
  using calm_trans_same [OF calm_zdClose [OF assms(1)] calm_simps(1)] timers_zdClose [OF assms(1)] assms(2)
  by (auto simp: procPing_eq)

lemma calm_procPing_fold:
  assumes "acct (mset as + E) s" and "hands_ok s as" and "t = fold (\<lambda>a. procPingTimeOutChecking a cur) as s"
  shows "calm {} s t \<and> m_iSendMsgQueueCount t = m_iSendMsgQueueCount s
    \<and> m_iRecvMsgQueueCount t = m_iRecvMsgQueueCount s
    \<and> set (timer_addrs (stimer t)) \<subseteq> set (timer_addrs (stimer s))"
  using assms
proof (induction as arbitrary: s)
  case Nil then show ?case by simp
next
  case (Cons a as)
  let ?t = "procPingTimeOutChecking a cur s"
  note o = procPing_others [OF Cons.prems(1,2), of cur]
  have "calm {} ?t t \<and> m_iSendMsgQueueCount t = m_iSendMsgQueueCount ?t
    \<and> m_iRecvMsgQueueCount t = m_iRecvMsgQueueCount ?t
    \<and> set (timer_addrs (stimer t)) \<subseteq> set (timer_addrs (stimer ?t))"
    using Cons.prems(3) by (intro Cons.IH [OF o(1,2)]) simp
  moreover have "acct (add_mset a (mset as + E)) s" "current s a \<Longrightarrow> closable s (conn_of s a)"
    using Cons.prems(1,2) by (simp_all add: hands_ok_def)
  ultimately show ?case using calm_procPing [of a "mset as + E" s cur] calm_trans_same [of "{}" s ?t t] by auto
qed

lemma worker_inv_monitor:
  assumes W: "worker_inv n s" and n: "n < 2 ^ 64"
  shows "\<exists>t. ServerTimerQueueMonitorThread cur s = Some t
    \<and> inv_step n (length (timer_addrs (stimer s))) s t"
proof -
  have A: "acct {#} s" and w: "0 < m_iWaitTime (m_timerconf (sconf s))" and Q: "queues_ok s"
    using W by (simp_all add: worker_inv_def)
  obtain T m where c: "monitor_collect (m_timerconf (sconf s)) cur (stimer s, smem s) = Some (due_headers cur s, T, m)"
    and A1: "acct (mset (due_headers cur s) + {#}) (s\<lparr>stimer := T, smem := m\<rparr>)"
    and rd: "\<forall>b \<in> live (smem s). read_obj b m = read_obj b (smem s)" and mem: "mem_step {} (smem s) m"
    and src: "\<forall>a \<in> set (timer_addrs T). \<exists>b \<in> set (timer_addrs (stimer s)). hdr m a = hdr (smem s) b"
    using monitor_collect_spec [OF A w] by blast
  let ?s = "s\<lparr>stimer := T, smem := m\<rparr>"
  have due: "b \<in> msgs s" "b \<in> live (smem s)" if "b \<in> set (due_headers cur s)" for b
    using that due_headers_sub acct_timer_live [OF A] by (force simp: msgs_def timer_live_def)+
  have same: "conn_of ?s b = conn_of s b" "current ?s b = current s b" if "b \<in> set (due_headers cur s)" for b
    using due(2) [OF that] rd by (simp_all add: conn_of_def current_def hdr_def)
  have hands: "hands_ok ?s (due_headers cur s)"
    unfolding hands_ok_def
  proof (intro ballI impI)
    fix a assume a: "a \<in> set (due_headers cur s)" and cur: "current ?s a"
    then have "conn_of s a \<in> in_use (spool s)" using current_in_use [OF W n due(1) [OF a]] same by simp
    then show "closable ?s (conn_of ?s a)" using same [OF a] by (simp add: closable_def)
  qed
  let ?t = "fold (\<lambda>a. procPingTimeOutChecking a cur) (due_headers cur s) ?s"
  note f = procPing_fold [OF A1 hands refl, of cur] and g = calm_procPing_fold [OF A1 hands refl, of cur]
  have At: "acct {#} ?t" using f by blast
  have rd': "read_obj a (smem ?t) = read_obj a m" if "a \<in> set (timer_addrs (stimer ?t))" for a
  proof -
    have "a \<in> set (timer_addrs (stimer ?s))" using g that by blast
    then have a: "a \<in> msgs ?s" "a \<in> msgs ?t" using that by (simp_all add: msgs_def)
    have "mem_step {} (smem ?s) (smem ?t)" using f by simp
    from acct_read_kept [OF A1 At this _ msgs_owned [OF a(1)] msgs_owned [OF a(2)]] show ?thesis by simp
  qed
  have len: "length (due_headers cur s) \<le> length (timer_addrs (stimer s))"
    by (simp add: due_headers_def expired_def timer_addrs_def)
  have "inv_step n (length (timer_addrs (stimer s))) s ?t"
  proof (rule worker_inv_calm [OF W At])
    have "calm {} s ?s" using mem by (simp add: calm_def)
    from calm_trans_same [OF this] g show "calm {} s ?t" by blast
    have "seq_step 0 s ?s" by (rule seq_step_frame) simp_all
    from seq_step_trans [OF this] f have "seq_step (0 + length (due_headers cur s)) s ?t" by blast
    then show "seq_step (length (timer_addrs (stimer s))) s ?t" using len by (simp add: seq_step_mono)
    have q: "m_MsgSendQueue ?t = m_MsgSendQueue s" "m_MsgRecvQueue ?t = m_MsgRecvQueue s" using f by simp_all
    show "m_iSendMsgQueueCount ?t = int (length (m_MsgSendQueue ?t))"
      "m_iRecvMsgQueueCount ?t = int (length (m_MsgRecvQueue ?t))"
      using g Q unfolding q by (simp_all add: queues_ok_def)
    show "a \<in> set (m_MsgSendQueue s) \<and> a \<notin> {} \<or> pkg_ok (smem ?t) a" if "a \<in> set (m_MsgSendQueue ?t)" for a
      using that by (simp add: q)
    show "a \<in> set (m_MsgRecvQueue s) \<and> a \<notin> {} \<or> complete_pkg (smem ?t) a" if "a \<in> set (m_MsgRecvQueue ?t)" for a
      using that by (simp add: q)
    show "a \<in> msgs s \<and> a \<notin> {} \<or> hdr_from s ?t (hdr (smem ?t) a)" if "a \<in> msgs ?t" for a
    proof (cases "a \<in> set (timer_addrs (stimer ?t))")
      case True
      then have "a \<in> set (timer_addrs T)" using g by auto
      with src obtain b where "b \<in> set (timer_addrs (stimer s))" "hdr m a = hdr (smem s) b" by blast
      with rd' [OF True] have "hdr_from s ?t (hdr (smem ?t) a)" by (auto simp: hdr_from_def hdr_def msgs_def)
      then show ?thesis ..
    next
      case False
      with that show ?thesis by (auto simp: msgs_def q)
    qed
  qed simp
  then show ?thesis by (auto simp: ServerTimerQueueMonitorThread_def c)
qed

section \<open>The job of a pool thread\<close>

lemma seq_step_same: "cn t = cn s \<Longrightarrow> in_use (spool t) = in_use (spool s) \<Longrightarrow> seq_step j s t"
  by (rule seq_step_frame) simp_all

lemma calm_msgSend:
  assumes A: "acct (add_mset r E) s" and cl: "closable s (conn_of s r)" and t: "t = msgSend r now s"
  shows "calm {} s t \<and> seq_step 1 s t \<and> m_MsgRecvQueue t = m_MsgRecvQueue s
    \<and> m_iRecvMsgQueueCount t = m_iRecvMsgQueueCount s
    \<and> set (timer_addrs (stimer t)) \<subseteq> set (timer_addrs (stimer s))
    \<and> (m_MsgSendQueue t = m_MsgSendQueue s \<and> m_iSendMsgQueueCount t = m_iSendMsgQueueCount s
       \<or> m_MsgSendQueue t = m_MsgSendQueue s @ [r] \<and> m_iSendMsgQueueCount t = m_iSendMsgQueueCount s + 1
         \<and> smem t = smem s)"
proof -
  let ?p = "conn_of s r"
  let ?d = "free_buf (Some r) (s\<lparr>m_iDiscardSendPkgCount := m_iDiscardSendPkgCount s + 1\<rparr>)"
  have d: "calm {} s ?d" by (rule calm_trans_same [OF calm_simps(6) calm_simps(1)])
  have sd: "seq_step 0 s ?d" by (rule seq_step_same) simp_all
  consider "m_iSendMsgQueueCount s > 50000" | "m_iSendMsgQueueCount s \<le> 50000" "iSendCount (cn s ?p) > 400"
    | "m_iSendMsgQueueCount s \<le> 50000" "iSendCount (cn s ?p) \<le> 400" by linarith
  then show ?thesis
  proof cases
    case 1
    then have "t = ?d" by (simp add: t msgSend_def)
    with d seq_step_mono [OF sd, of 1] show ?thesis by simp
  next
    case 2
    have Ad: "acct E ?d" using A by (intro acct_free_buf) simp
    have cd: "closable ?d ?p" using cl by (simp add: closable_def)
    have "t = zdClosesocketProc ?p now ?d" using 2 by (simp add: t msgSend_def conn_of_def Let_def)
    with calm_trans_same [OF d calm_zdClose [OF Ad cd]] seq_step_trans [OF sd seq_step_zdClose [OF Ad cd, of now]]
      timers_zdClose [OF Ad, of ?p now]
    show ?thesis by simp
  next
    case 3
    let ?u = "upd_cn ?p (\<lambda>c. c\<lparr>iSendCount := iSendCount c + 1\<rparr>) s"
    have "acct (add_mset r E) s" by (rule A)
    then have "?p \<in> set (m_connectionList (spool s))" using cl closable_listed by (auto simp: acct_def)
    then have u: "calm {} s ?u" by (rule calm_upd_cn) (simp_all add: conn_core_def)
    have "calm {} s t"
      unfolding t msgSend_accepts [OF 3]
      by (rule calm_trans_same [OF u], rule calm_trans_same [OF calm_simps(4) calm_simps(2)])
    moreover have "seq_step 1 s t"
      unfolding t msgSend_accepts [OF 3] by (rule seq_step_frame) simp_all
    ultimately show ?thesis unfolding t msgSend_accepts [OF 3] by simp
  qed
qed

lemma calm_cmd_pre:
  assumes "a \<in> live (smem s)" and "p \<in> set (m_connectionList (spool s))"
  shows "calm {a} s (cmd_pre c p a now s)"
proof (cases c)
  case HandlePing
  have "calm {a} s (upd_cn p (\<lambda>c. c\<lparr>lastPingTime := now\<rparr>) s)"
    by (rule calm_upd_cn [OF assms(2)]) (simp_all add: conn_core_def)
  with HandlePing show ?thesis by simp
qed (simp_all add: calm_def)

lemma good_packet_pkg_ok: "good_packet k body (queued_pkg m r) \<Longrightarrow> pkg_ok m r"
  by (simp add: good_packet_def pkg_ok_def)

text \<open>The common end of the two cases: the message \<open>a\<close> is gone.\<close>

lemma worker_inv_job_frame:
  assumes W: "worker_inv n s" and q: "m_MsgRecvQueue s = a # as" and A: "acct {#} t"
    and C: "calm {a} s t" and seq: "seq_step 1 s t" and gone: "a \<notin> live (smem t)"
    and rq: "m_MsgRecvQueue t = as" "m_iRecvMsgQueueCount t = m_iRecvMsgQueueCount s - 1"
    and ti: "set (timer_addrs (stimer t)) \<subseteq> set (timer_addrs (stimer s))"
    and sq: "m_iSendMsgQueueCount t = int (length (m_MsgSendQueue t))"
      "\<And>b. b \<in> set (m_MsgSendQueue t) \<Longrightarrow>
        b \<in> set (m_MsgSendQueue s) \<or> pkg_ok (smem t) b \<and> hdr (smem t) b = hdr (smem s) a"
  shows "inv_step n 1 s t"
proof (rule worker_inv_calm [OF W A C seq])
  have As: "acct {#} s" and Q: "queues_ok s" using W by (simp_all add: worker_inv_def)
  have ne: "b \<noteq> a" if "b \<in> msgs t" for b
    using acct_live [OF A msgs_owned [OF that]] gone by auto
  show "set (conn_bufs (cn s p)) \<inter> {a} = {}" if "p \<in> in_use (spool t)" for p
  proof -
    have "p \<in> set (m_connectionList (spool s))" using C that by (auto simp: calm_def in_use_def)
    then show ?thesis using acct_recvq_conn [OF As, of p a] q by auto
  qed
  show "m_iSendMsgQueueCount t = int (length (m_MsgSendQueue t))" by (rule sq)
  show "m_iRecvMsgQueueCount t = int (length (m_MsgRecvQueue t))" using rq Q q by (simp add: queues_ok_def)
  show "b \<in> set (m_MsgSendQueue s) \<and> b \<notin> {a} \<or> pkg_ok (smem t) b" if "b \<in> set (m_MsgSendQueue t)" for b
    using sq(2) [OF that] ne [of b] that by (auto simp: msgs_def)
  show "b \<in> set (m_MsgRecvQueue s) \<and> b \<notin> {a} \<or> complete_pkg (smem t) b" if "b \<in> set (m_MsgRecvQueue t)" for b
    using ne [of b] that rq(1) q by (auto simp: msgs_def)
  show "b \<in> msgs s \<and> b \<notin> {a} \<or> hdr_from s t (hdr (smem t) b)" if b: "b \<in> msgs t" for b
  proof (cases "b \<in> set (m_MsgSendQueue t) \<and> b \<notin> set (m_MsgSendQueue s)")
    case True
    with sq(2) [of b] q have "hdr_from s t (hdr (smem t) b)"
      by (auto simp: hdr_from_def msgs_def intro: exI [of _ a])
    then show ?thesis ..
  next
    case False
    with b ne [OF b] ti rq(1) q show ?thesis by (auto simp: msgs_def)
  qed
qed

lemma worker_inv_job:
  assumes W: "worker_inv n s" and n: "n < 2 ^ 64"
  shows "inv_step n 1 s (worker_job now s)"
proof (cases "m_MsgRecvQueue s")
  case Nil
  with W show ?thesis by (simp add: worker_job_def)
next
  case (Cons a as)
  have A: "acct {#} s" and Q: "queues_ok s" using W by (simp_all add: worker_inv_def)
  let ?t = "worker_job now s"
  have am: "a \<in> msgs s" using Cons by (simp add: msgs_def)
  have ok: "complete_pkg (smem s) a" using Q Cons by (simp add: queues_ok_def)
  show ?thesis
  proof (cases "current s a \<and> (\<exists>c. request c (queued_pkg (smem s) a))")
    case False
    then have "\<not> current s a \<or> (\<forall>c. \<not> request c (queued_pkg (smem s) a))" by blast
    note d = job_drop [OF A Cons ok this refl, of now]
    let ?e = "s\<lparr>m_MsgRecvQueue := as, m_iRecvMsgQueueCount := m_iRecvMsgQueueCount s - 1, smem := smem ?t\<rparr>"
    have "calm {a} s ?e" "seq_step 1 s ?e" using d(4) by (simp_all add: calm_def seq_step_same)
    then have cs: "calm {a} s ?t" "seq_step 1 s ?t" using d(1) by metis+
    have f: "m_MsgRecvQueue ?t = as" "m_iRecvMsgQueueCount ?t = m_iRecvMsgQueueCount s - 1"
      "stimer ?t = stimer s" "m_MsgSendQueue ?t = m_MsgSendQueue s" "m_iSendMsgQueueCount ?t = m_iSendMsgQueueCount s"
      by (subst d(1), simp)+
    show ?thesis
      using d(2) Q by (intro worker_inv_job_frame [OF W Cons d(3) cs]) (simp_all add: f queues_ok_def)
  next
    case True
    then obtain c where cur: "current s a" and req: "request c (queued_pkg (smem s) a)" by blast
    let ?s = "s\<lparr>m_MsgRecvQueue := as, m_iRecvMsgQueueCount := m_iRecvMsgQueueCount s - 1\<rparr>"
    let ?p = "conn_of s a"
    have p: "?p \<in> in_use (spool s)" by (rule current_in_use [OF W n am cur])
    then have pl: "?p \<in> set (m_connectionList (spool s))" by (rule in_use_listed)
    have A1: "acct {#a#} ?s" using acct_dequeue_recv [OF A Cons] by simp
    have a: "a \<in> live (smem ?s)" by (rule acct_live [OF A1]) simp
    have "request c (queued_pkg (smem ?s) a)" "current ?s a" using req cur by simp_all
    from threadRecv_request [OF A1 a this, of now] obtain r s1 s2 where
      s1: "s1 = ?s\<lparr>smem := smem s1\<rparr>" "live (smem s1) = live (smem s)" "hdr (smem s1) a = hdr (smem s) a"
        "mem_step {a} (smem s) (smem s1)"
      and rr: "reply_ready {#a#} (cmd_code c) (stale_body s r (cmd_size c)) a (cmd_pre c ?p a now s1) r s2"
      and run: "threadRecvProcFunc a now ?s = msgSend r now s2" by auto
    let ?s2 = "cmd_pre c ?p a now s1"
    have s2: "s2 = ?s2\<lparr>smem := smem s2\<rparr>" "acct (add_mset r {#a#}) s2" "hdr (smem s2) r = hdr (smem ?s2) a"
      "good_packet (cmd_code c) (stale_body s r (cmd_size c)) (queued_pkg (smem s2) r)"
      "mem_step {} (smem ?s2) (smem s2)" "r \<notin> live (smem s1)"
      using rr by (simp_all add: reply_ready_def)
    have a1: "a \<in> live (smem s1)" using a s1(2) by simp
    have h2: "hdr (smem s2) r = hdr (smem s) a" using s2(3) s1(3) by (simp add: cmd_pre_hdr [OF a1])
    have c1: "calm {a} s s1" using s1(4) by (subst s1(1)) (simp add: calm_def)
    have "?p \<in> set (m_connectionList (spool s1))" using pl by (subst s1(1)) simp
    from calm_cmd_pre [OF a1 this] have c2: "calm {a} s1 ?s2" .
    have c3: "calm {} ?s2 s2" using s2(5) by (subst s2(1)) (simp add: calm_mem)
    have c4: "calm {a} s s2"
      by (rule calm_trans_same [OF calm_trans_same [OF c1 c2] calm_mono [OF c3]]) simp
    have cn2: "cseq (cn s2 q) = cseq (cn s q)" for q
      by (subst s2(1), cases c) (simp_all, (subst s1(1), simp)+)
    have u2: "in_use (spool s2) = in_use (spool s)"
      by (subst s2(1), cases c) (simp_all add: upd_pkg_def Let_def, (subst s1(1), simp)+)
    have qs: "m_MsgSendQueue s2 = m_MsgSendQueue s" "m_iSendMsgQueueCount s2 = m_iSendMsgQueueCount s"
      "m_MsgRecvQueue s2 = as" "m_iRecvMsgQueueCount s2 = m_iRecvMsgQueueCount s - 1" "stimer s2 = stimer s"
      by (subst s2(1), cases c, simp_all, (subst s1(1), simp)+)+
    have "conn_of s2 r = ?p" by (simp add: conn_of_def h2)
    then have cl: "closable s2 (conn_of s2 r)" using p u2 by (simp add: closable_def)
    let ?m = "msgSend r now s2"
    note ms = calm_msgSend [OF s2(2) cl refl, of now]
    have t: "?t = free_buf (Some a) ?m" by (simp add: worker_job_def Cons run)
    have Am: "acct {#a#} ?m" using acct_msgSend [OF s2(2), of now] cl by (simp add: conn_of_def)
    have At: "acct {#} ?t" unfolding t using Am by (intro acct_free_buf) simp
    have "calm {a} s2 ?t"
      unfolding t using calm_trans_same [OF calm_mono [of "{}" s2 ?m "{a}"] calm_simps(1)] ms by blast
    from calm_trans_same [OF c4 this] have C: "calm {a} s ?t" .
    have "seq_step 0 s s2" by (rule seq_step_frame [OF cn2 u2])
    moreover have "seq_step 0 ?m ?t" unfolding t by (rule seq_step_same) simp_all
    ultimately have seq: "seq_step 1 s ?t" using ms seq_step_trans [of 0 s s2 1 ?m] seq_step_trans [of 1 s ?m 0 ?t] by simp
    have ra: "r \<noteq> a" using s2(6) a1 by auto
    have rd: "read_obj r (smem ?t) = read_obj r (smem ?m)" unfolding t using ra by (simp add: read_obj_Free_other)
    show ?thesis
    proof (rule worker_inv_job_frame [OF W Cons At C seq])
      show "a \<notin> live (smem ?t)" by (simp add: t)
      show "m_MsgRecvQueue ?t = as" "m_iRecvMsgQueueCount ?t = m_iRecvMsgQueueCount s - 1"
        using ms qs by (simp_all add: t)
      show "set (timer_addrs (stimer ?t)) \<subseteq> set (timer_addrs (stimer s))" using ms qs(5) by (simp add: t)
      show "m_iSendMsgQueueCount ?t = int (length (m_MsgSendQueue ?t))"
        using ms qs(1,2) Q by (auto simp: t queues_ok_def)
      show "b \<in> set (m_MsgSendQueue s) \<or> pkg_ok (smem ?t) b \<and> hdr (smem ?t) b = hdr (smem s) a"
        if "b \<in> set (m_MsgSendQueue ?t)" for b
      proof (cases "b \<in> set (m_MsgSendQueue s)")
        case False
        with that ms qs(1) have b: "b = r" and m: "smem ?m = smem s2" by (auto simp: t)
        have "pkg_ok (smem s2) r" by (rule good_packet_pkg_ok [OF s2(4)])
        with rd m h2 b show ?thesis by (simp add: pkg_ok_def queued_pkg_def hdr_def)
      qed simp
    qed
  qed
qed

section \<open>Where a buffer is not\<close>

lemma acct_msgs_conn:
  assumes "acct E s" and "p \<in> set (m_connectionList (spool s))"
    and "a \<in> msgs s" and "b \<in> set (conn_bufs (cn s p))"
  shows "a \<noteq> b"
proof -
  have "mset (m_MsgSendQueue s) + mset (m_MsgRecvQueue s) + mset (timer_addrs (stimer s))
      + mset (conn_bufs (cn s p)) \<subseteq># owned s + E"
    using pool_bufs_sub [OF assms(2)]
    by (auto simp: owned_def subset_mset.add_increasing2 intro!: subset_mset.add_mono)
  from acct_disjoint [OF assms(1) this] assms(3,4) show ?thesis by (auto simp: msgs_def)
qed

lemma acct_bufs_distinct:
  assumes "acct E s"
  shows "distinct (concat (map (\<lambda>p. conn_bufs (cn s p)) (m_connectionList (spool s))))"
proof (rule mset_subset_live(1))
  show "mem_wf (smem s)" using assms by (simp add: acct_def)
  have "pool_bufs (spool s) \<subseteq># owned s + E"
    by (simp add: owned_def subset_mset.add_increasing2 subset_mset.add_increasing)
  then show "mset (concat (map (\<lambda>p. conn_bufs (cn s p)) (m_connectionList (spool s)))) \<subseteq># live_mset (smem s)"
    using assms by (simp add: acct_def pool_bufs_def)
qed

lemma acct_bufs_disjoint:
  assumes "acct E s" and "p \<in> set (m_connectionList (spool s))" and "q \<in> set (m_connectionList (spool s))"
    and "p \<noteq> q"
  shows "set (conn_bufs (cn s p)) \<inter> set (conn_bufs (cn s q)) = {}"
proof -
  obtain xs ys where l: "m_connectionList (spool s) = xs @ p # ys"
    using assms(2) by (auto simp: in_set_conv_decomp)
  with assms(3,4) have q: "q \<in> set xs \<or> q \<in> set ys" by auto
  from acct_bufs_distinct [OF assms(1)] q show ?thesis unfolding l by auto
qed

lemma acct_bufs_two:
  assumes "acct E s" and "p \<in> set (m_connectionList (spool s))"
  shows "distinct (conn_bufs (cn s p))"
  using acct_bufs_distinct [OF assms(1)] assms(2) by (auto simp: in_set_conv_decomp)

section \<open>Closing and receiving\<close>

lemma worker_inv_close:
  assumes W: "worker_inv n s" and cl: "closable s p"
  shows "inv_step n 1 s (zdClosesocketProc p now s)"
proof -
  have A: "acct {#} s" and Q: "queues_ok s" using W by (simp_all add: worker_inv_def)
  let ?t = "zdClosesocketProc p now s"
  have At: "acct {#} ?t" by (rule acct_zdClose [OF A cl])
  have sub: "msgs ?t \<subseteq> msgs s" using timers_zdClose [OF A, of p now] by (auto simp: msgs_def)
  show ?thesis
    by (rule worker_inv_calm [OF W At calm_zdClose [OF A cl, of "{}"] seq_step_zdClose [OF A cl]])
      (use Q sub in \<open>auto simp: queues_ok_def\<close>)
qed

lemma recv_erase_fields:
  assumes "recv_erase c = recv_erase d"
  shows "cseq c = cseq d" "fd c = fd d" "psendMemPointer c = psendMemPointer d"
    "psendbuf c = psendbuf d" "isendlen c = isendlen d" "iThrowsendCount c = iThrowsendCount d"
  using arg_cong [OF assms, of cseq] arg_cong [OF assms, of fd] arg_cong [OF assms, of psendMemPointer]
    arg_cong [OF assms, of psendbuf] arg_cong [OF assms, of isendlen] arg_cong [OF assms, of iThrowsendCount]
  by (simp_all add: recv_erase_def)

lemma worker_inv_recv:
  assumes W: "worker_inv n s" and p: "p \<in> in_use (spool s)"
    and O: "recv_outcome p {#} bs s flood t"
    and mem: "mem_step (set_option (precvMemPointer (cn s p))) (smem s) (smem t)"
  shows "inv_step n 0 s t"
proof -
  have A: "acct {#} s" and Q: "queues_ok s" and pool: "free_clean (spool s)" "unused_init (spool s)"
    "fds_ok s" "conns_ok s" "\<And>p. length (dataHeadInfo (cn s p)) = DATA_BUFSIZE"
    "m_onlineUserCount (spool s) \<le> max 0 (m_worker_connections (sconf s))"
    using W by (simp_all add: worker_inv_def)
  let ?B = "set_option (precvMemPointer (cn s p))"
  have At: "acct {#} t" and fr: "recv_frame p s t" and rok: "recv_ok (smem t) p (cn t p)"
    using O by (simp_all add: recv_outcome_def)
  have sh: "pool_shape (spool t) = pool_shape (spool s)" and er: "recv_erase (cn t p) = recv_erase (cn s p)"
    using fr by (simp_all add: recv_frame_def)
  have other: "cn t q = cn s q" if "q \<noteq> p" for q using fr that by (simp add: recv_frame_def)
  note sh = pool_shapeD [OF sh]
  note er = recv_erase_fields [OF er]
  have pl: "p \<in> set (m_connectionList (spool s))" "p \<notin> set (m_freeconnectionList (spool s))"
    using p by (simp_all add: in_use_def)
  have Bsub: "?B \<subseteq> set (conn_bufs (cn s p))" by (auto simp: conn_bufs_def)
  have notB: "a \<notin> ?B" if "a \<in> msgs s" for a using acct_msgs_conn [OF A pl(1) that] Bsub by blast
  have fdq: "fd (cn t q) = fd (cn s q)" "cseq (cn t q) = cseq (cn s q)" for q
    by (cases "q = p"; simp add: er other)+
  have new: "m_MsgRecvQueue t = m_MsgRecvQueue s \<and> m_iRecvMsgQueueCount t = m_iRecvMsgQueueCount s
    \<or> (\<exists>a. m_MsgRecvQueue t = m_MsgRecvQueue s @ [a] \<and> m_iRecvMsgQueueCount t = m_iRecvMsgQueueCount s + 1
         \<and> complete_pkg (smem t) a \<and> hdr (smem t) a = \<lparr>pConn = p, iCurrsequence = cseq (cn s p)\<rparr>)"
  proof (cases "fst (parse bs) = [] \<or> flood")
    case True
    with O show ?thesis unfolding recv_outcome_def by simp
  next
    case False
    with O obtain a where "m_MsgRecvQueue t = m_MsgRecvQueue s @ [a]"
      "m_iRecvMsgQueueCount t = m_iRecvMsgQueueCount s + 1"
      "hdr (smem t) a = \<lparr>pConn = p, iCurrsequence = cseq (cn s p)\<rparr>"
      "length (queued_pkg (smem t) a) = e_pkgLen (queued_pkg (smem t) a)"
      "valid_len (e_pkgLen (queued_pkg (smem t) a))"
      unfolding recv_outcome_def if_not_P [OF False] by blast
    then show ?thesis by (intro disjI2 exI [of _ a]) (simp add: complete_pkg_def valid_len_def)
  qed
  have qs: "m_MsgSendQueue t = m_MsgSendQueue s" "m_iSendMsgQueueCount t = m_iSendMsgQueueCount s"
    "stimer t = stimer s" "sconf t = sconf s" using fr by (simp_all add: recv_frame_def)
  show "inv_step n 0 s t"
  proof (rule worker_inv_frame [OF W At _ _ _ _ qs(4) _ _ mem])
    show "free_clean (spool t)" using pool(1) pl other unfolding free_clean_def by (metis sh(2))
    show "unused_init (spool t)" using pool(2) pl other unfolding unused_init_def by (metis sh(1))
    show "length (dataHeadInfo (cn t q)) = DATA_BUFSIZE" for q
      using pool(5) [of q] other [of q] rok by (cases "q = p") (auto simp: recv_ok_def)
    show "fds_ok t" using pool(3) unfolding fds_ok_def fdq sh(1,6) .
    show "m_onlineUserCount (spool t) \<le> max 0 (m_worker_connections (sconf s))" using pool(6) by (simp only: sh(4))
    show "seq_step 0 s t" by (rule seq_step_frame [OF fdq(2) sh(6)])
    show "conns_ok t"
      unfolding conns_ok_def
    proof
      fix q assume q: "q \<in> in_use (spool t)"
      then have qs: "q \<in> in_use (spool s)" using sh(6) by simp
      then have ok: "recv_ok (smem s) q (cn s q)" "send_ok (smem s) (cn s q)" using pool(4) by (auto simp: conns_ok_def)
      show "recv_ok (smem t) q (cn t q) \<and> send_ok (smem t) (cn t q)"
      proof (cases "q = p")
        case False
        then have "set (conn_bufs (cn s q)) \<inter> set (conn_bufs (cn s p)) = {}"
          using acct_bufs_disjoint [OF A in_use_listed [OF qs] pl(1)] by simp
        with Bsub have "set (conn_bufs (cn s q)) \<inter> ?B = {}" by blast
        then show ?thesis using conn_kept [OF A At mem qs q _ _ ok] other [OF False] by simp
      next
        case True
        have "read_obj b (smem t) = read_obj b (smem s)" if b: "psendMemPointer (cn s p) = Some b" for b
        proof (rule acct_read_kept [OF A At mem])
          show "b \<notin> ?B" using acct_bufs_two [OF A pl(1)] b by (auto simp: conn_bufs_def)
          show "b \<in># owned s + {#}" using b p by (intro bufs_owned) (auto simp: conn_bufs_def)
          show "b \<in># owned t + {#}" using b q True er(3) by (intro bufs_owned [of p]) (auto simp: conn_bufs_def)
        qed
        from send_ok_cong(1) [OF ok(2) [unfolded True] this] have "send_ok (smem t) (cn s p)" .
        moreover have "send_ok m (cn t p) = send_ok m (cn s p)" for m
          unfolding send_ok_def er by (rule refl)
        ultimately show ?thesis using rok True by simp
      qed
    qed
    show "m_iSendMsgQueueCount t = int (length (m_MsgSendQueue t))" using Q by (simp add: qs queues_ok_def)
    show "m_iRecvMsgQueueCount t = int (length (m_MsgRecvQueue t))" using Q new by (auto simp: queues_ok_def)
    show "a \<in> set (m_MsgSendQueue s) \<and> a \<notin> ?B \<or> pkg_ok (smem t) a" if "a \<in> set (m_MsgSendQueue t)" for a
      using that notB [of a] by (simp add: qs msgs_def)
    show "a \<in> set (m_MsgRecvQueue s) \<and> a \<notin> ?B \<or> complete_pkg (smem t) a" if "a \<in> set (m_MsgRecvQueue t)" for a
      using that notB [of a] new by (auto simp: msgs_def)
    show "a \<in> msgs s \<and> a \<notin> ?B \<or> hdr_from s t (hdr (smem t) a)" if "a \<in> msgs t" for a
      using that notB [of a] new p by (auto simp: msgs_def qs hdr_from_def)
  qed
qed

lemma worker_inv_read:
  assumes W: "worker_inv n s" and cl: "closable s p"
  shows "inv_step n 1 s (qc_read_request_handler p r now ms s)"
proof (cases rule: read_handler_cases [where s = s and p = p and r = r and ms = ms and now = now])
  case (data bs)
  let ?bs = "take (irecvlen (cn s p)) bs"
  have A: "acct {#} s" and F: "fds_ok s" and C: "conns_ok s" using W by (simp_all add: worker_inv_def)
  have pl: "p \<in> set (m_connectionList (spool s))" using A cl closable_listed by (auto simp: acct_def)
  with data(1) F have p: "p \<in> in_use (spool s)" by (auto simp: fds_ok_def)
  then have ok: "recv_ok (smem s) p (cn s p)" using C by (simp add: conns_ok_def)
  obtain flood t where run: "recv_state p (length ?bs) ms (store_recv p (precvbuf (cn s p)) ?bs s) = (flood, t)"
    by (cases "recv_state p (length ?bs) ms (store_recv p (precvbuf (cn s p)) ?bs s)")
  have "length ?bs \<le> irecvlen (cn s p)" by simp
  note o = recv_data_outcome [OF A pl ok data(3) this run]
  from o have St: "inv_step n 0 s t" using worker_inv_recv [OF W p] by blast
  have Wt: "worker_inv (n + 0) t" by (rule inv_step_inv [OF St])
  have "pool_shape (spool t) = pool_shape (spool s)" using o by (simp add: recv_outcome_def recv_frame_def del: length_take)
  from pool_shapeD(6) [OF this] have "closable t p" using p by (simp add: closable_def)
  from inv_step_trans [OF St worker_inv_close [OF Wt this, of now]] inv_step_mono [OF St, of 1]
  show ?thesis unfolding data(2) read_handler_data [OF data(1,3) run] by simp
next
  case idle
  with W show ?thesis by simp
next
  case close
  with worker_inv_close [OF W cl] show ?thesis by simp
qed

section \<open>Recycling\<close>

lemma worker_inv_recycle:
  assumes W: "worker_inv n s"
  shows "inv_step n 1 s (recycle_round now stop s)"
proof -
  have A: "acct {#} s" and Q: "queues_ok s" and pool: "free_clean (spool s)" "unused_init (spool s)"
    "fds_ok s" "conns_ok s" "\<And>p. length (dataHeadInfo (cn s p)) = DATA_BUFSIZE"
    "m_onlineUserCount (spool s) \<le> max 0 (m_worker_connections (sconf s))"
    using W by (simp_all add: worker_inv_def)
  obtain P m where t: "recycle_round now stop s = s\<lparr>spool := P, smem := m\<rparr>" and R: "recy_rel {#} s (P, m)"
    using recycle_round_rel [OF A pool(1)] by metis
  let ?t = "s\<lparr>spool := P, smem := m\<rparr>"
  have At: "acct {#} ?t" and mem: "mem_step {} (smem s) (smem ?t)"
    and lists: "m_connectionList P = m_connectionList (spool s)" "in_use P = in_use (spool s)"
      "free_clean P" "m_onlineUserCount P = m_onlineUserCount (spool s)"
    and cq: "conns P q = cn s q \<or> q \<in> set (m_recyconnectionList (spool s)) \<and> conns P q = released (cn s q)" for q
    using R by (auto simp: recy_rel_def)
  have recyl: "set (m_recyconnectionList (spool s)) \<subseteq> set (m_connectionList (spool s))"
    using A by (simp add: acct_def pool_inv_defs)
  have fdq: "fd (conns P q) = fd (cn s q)" "dataHeadInfo (conns P q) = dataHeadInfo (cn s q)" for q
    using cq [of q] by (auto simp: released_def)
  have used: "conns P q = cn s q" if "q \<in> in_use (spool s)" for q
    using cq [of q] that by (auto simp: in_use_def)
  have "inv_step n 1 s ?t"
  proof (rule worker_inv_frame [OF W At _ _ _ _ _ _ seq_step_recycle [OF R] mem])
    show "unused_init (spool ?t)" using pool(2) cq recyl unfolding unused_init_def by (simp add: lists) (metis subsetD)
    show "fds_ok ?t" using pool(3) by (simp add: fds_ok_def fdq lists)
    show "conns_ok ?t"
      unfolding conns_ok_def
    proof
      fix q assume "q \<in> in_use (spool ?t)"
      then have q: "q \<in> in_use (spool s)" by (simp add: lists)
      with pool(4) have "recv_ok (smem s) q (cn s q)" "send_ok (smem s) (cn s q)" by (simp_all add: conns_ok_def)
      then show "recv_ok (smem ?t) q (cn ?t q) \<and> send_ok (smem ?t) (cn ?t q)"
        using q used [OF q] by (intro conn_kept [OF A At mem q]) (simp_all add: lists)
    qed
  qed (use Q pool(5,6) lists in \<open>auto simp: queues_ok_def fdq msgs_def\<close>)
  then show ?thesis by (simp add: t)
qed

section \<open>Sending\<close>

lemma recv_ok_send_erase: "send_erase c = send_erase d \<Longrightarrow> recv_ok m p c = recv_ok m p d"
proof -
  assume e: "send_erase c = send_erase d"
  show ?thesis unfolding recv_ok_def body_ok_def send_erase_eqD [OF e] by (rule refl)
qed

lemma worker_inv_sending:
  assumes W: "worker_inv n s" and At: "acct {#} t" and C: "conns_send_ok t"
    and sub: "set (m_MsgSendQueue t) \<subseteq> set (m_MsgSendQueue s)"
    and cnt: "m_iSendMsgQueueCount t = int (length (m_MsgSendQueue t))"
    and qs: "m_MsgRecvQueue t = m_MsgRecvQueue s" "m_iRecvMsgQueueCount t = m_iRecvMsgQueueCount s"
      "stimer t = stimer s" "sconf t = sconf s"
    and sh: "pool_shape (spool t) = pool_shape (spool s)" and mem: "mem_step {} (smem s) (smem t)"
    and er: "\<And>q. send_erase (cn t q) = send_erase (cn s q)"
    and other: "\<And>q. \<not> closable s q \<Longrightarrow> cn t q = cn s q"
  shows "inv_step n 0 s t"
proof -
  have A: "acct {#} s" and Q: "queues_ok s" and pool: "free_clean (spool s)" "unused_init (spool s)"
    "fds_ok s" "conns_ok s" "\<And>p. length (dataHeadInfo (cn s p)) = DATA_BUFSIZE"
    "m_onlineUserCount (spool s) \<le> max 0 (m_worker_connections (sconf s))"
    using W by (simp_all add: worker_inv_def)
  have pl: "\<not> closable s q" if "q \<in> set (m_freeconnectionList (spool s)) \<or> q \<notin> set (m_connectionList (spool s))" for q
    using that A by (auto simp: closable_def in_use_def acct_def pool_inv_defs)
  note sh = pool_shapeD [OF sh]
  show "inv_step n 0 s t"
  proof (rule worker_inv_frame [OF W At _ _ _ _ qs(4) _ _ mem])
    show "free_clean (spool t)"
      unfolding free_clean_def
    proof
      fix q assume "q \<in> set (m_freeconnectionList (spool t))"
      then have "q \<in> set (m_freeconnectionList (spool s))" using sh(2) by simp
      with other [of q] pl [of q] pool(1) show "conn_bufs (cn t q) = []" by (simp add: free_clean_def)
    qed
    show "unused_init (spool t)"
      unfolding unused_init_def
    proof (intro allI impI)
      fix q assume "q \<notin> set (m_connectionList (spool t))"
      then have "q \<notin> set (m_connectionList (spool s))" using sh(1) by simp
      with other [of q] pl [of q] pool(2) show "cn t q = qc_connection_init" by (simp add: unused_init_def)
    qed
    show "length (dataHeadInfo (cn t q)) = DATA_BUFSIZE" for q
      using pool(5) [of q] send_erase_eqD(4) [OF er, of q] by simp
    show "fds_ok t" using pool(3) by (simp add: fds_ok_def sh(1,6) send_erase_eqD(1) [OF er])
    show "m_onlineUserCount (spool t) \<le> max 0 (m_worker_connections (sconf s))" using pool(6) by (simp only: sh(4))
    show "seq_step 0 s t" by (rule seq_step_frame [OF send_erase_eqD(2) [OF er] sh(6)])
    show "conns_ok t"
      unfolding conns_ok_def
    proof
      fix q assume q: "q \<in> in_use (spool t)"
      then have qs: "q \<in> in_use (spool s)" using sh(6) by simp
      then have rok: "recv_ok (smem s) q (cn s q)" using pool(4) by (simp add: conns_ok_def)
      have pt: "precvMemPointer (cn t q) = precvMemPointer (cn s q)" by (rule send_erase_eqD(7) [OF er])
      have "read_obj b (smem t) = read_obj b (smem s)" if b: "precvMemPointer (cn s q) = Some b" for b
        using b q qs pt by (intro acct_read_kept [OF A At mem] bufs_owned [of q]) (auto simp: conn_bufs_def)
      from recv_ok_kept [OF this] rok have "recv_ok (smem t) q (cn s q)" by blast
      then have "recv_ok (smem t) q (cn t q)" by (simp only: recv_ok_send_erase [OF er])
      then show "recv_ok (smem t) q (cn t q) \<and> send_ok (smem t) (cn t q)"
        using C q by (simp add: conns_send_ok_def)
    qed
  qed (use Q sub cnt in \<open>auto simp: queues_ok_def qs msgs_def\<close>)
qed

lemma worker_inv_send_frame:
  assumes "worker_inv n s" and "acct {#} t" and F: "send_frame_all s t" and "conns_send_ok t"
    and "set (m_MsgSendQueue t) \<subseteq> set (m_MsgSendQueue s)"
    and "m_iSendMsgQueueCount t = int (length (m_MsgSendQueue t))"
  shows "inv_step n 0 s t"
  by (rule worker_inv_sending [OF assms(1,2,4-6)]) (use F in \<open>auto simp: send_frame_all_def closable_def\<close>)

lemma worker_inv_msgs_ok: "worker_inv n s \<Longrightarrow> n < 2 ^ 64 \<Longrightarrow> msgs_ok s (m_MsgSendQueue s)"
  unfolding msgs_ok_def using current_in_use by (auto simp: worker_inv_def queues_ok_def msgs_def)

lemma worker_inv_conns: "worker_inv n s \<Longrightarrow> conns_send_ok s"
  by (simp add: worker_inv_def conns_ok_def conns_send_ok_def)

lemma send_one_queue [simp]: "m_MsgSendQueue (send_one a p s) = m_MsgSendQueue s"
  by (simp add: send_one_def Let_def case_prod_beta sendproc_def start_send_def)

lemma send_pass_queue:
  "m_MsgSendQueue s = kept @ rest \<Longrightarrow> set (m_MsgSendQueue (send_pass kept rest s)) \<subseteq> set (kept @ rest)"
proof (induction kept rest s rule: send_pass.induct)
  case (1 kept s)
  then show ?case by simp
next
  case (2 kept a rest s)
  let ?s1 = "s\<lparr>m_MsgSendQueue := kept @ rest, m_iSendMsgQueueCount := m_iSendMsgQueueCount s - 1\<rparr>"
  consider "cseq (cn s (pConn (hdr (smem s) a))) \<noteq> iCurrsequence (hdr (smem s) a)"
    | "cseq (cn s (pConn (hdr (smem s) a))) = iCurrsequence (hdr (smem s) a)"
        "iThrowsendCount (cn s (pConn (hdr (smem s) a))) > 0"
    | "cseq (cn s (pConn (hdr (smem s) a))) = iCurrsequence (hdr (smem s) a)"
        "\<not> iThrowsendCount (cn s (pConn (hdr (smem s) a))) > 0" by blast
  then show ?case
  proof cases
    case 1
    have "set (m_MsgSendQueue (send_pass kept rest (free_buf (Some a) ?s1))) \<subseteq> set (kept @ rest)"
      using 1 by (intro "2.IH"(1) [OF refl refl refl]) simp_all
    with 1 show ?thesis by (auto simp: Let_def)
  next
    case 2
    have "set (m_MsgSendQueue (send_pass (kept @ [a]) rest s)) \<subseteq> set ((kept @ [a]) @ rest)"
      using 2 "2.prems" by (intro "2.IH"(2) [OF refl refl refl]) simp_all
    with 2 show ?thesis by (simp add: Let_def)
  next
    case 3
    have "set (m_MsgSendQueue (send_pass kept rest (send_one a (pConn (hdr (smem s) a)) ?s1))) \<subseteq> set (kept @ rest)"
      using 3 by (intro "2.IH"(3) [OF refl refl refl]) simp_all
    with 3 show ?thesis by (auto simp: Let_def)
  qed
qed

lemma send_thread_queue:
  assumes run: "ServerSendQueueThread 0 intr s = Some (t, stop)"
  shows "set (m_MsgSendQueue t) \<subseteq> set (m_MsgSendQueue s)"
proof -
  obtain s1 where s1: "sem_wait intr s = Some s1"
    using run by (cases "sem_wait intr s") (simp_all add: ServerSendQueueThread_def)
  then have q: "m_MsgSendQueue s1 = m_MsgSendQueue s" by (auto simp: sem_wait_def split: if_splits)
  have "t = s1 \<or> t = send_pass [] (m_MsgSendQueue s1) s1"
    using run s1 by (auto simp: ServerSendQueueThread_def split: if_splits)
  then show ?thesis using send_pass_queue [of s1 "[]" "m_MsgSendQueue s1"] q by auto
qed

lemma worker_inv_send:
  assumes W: "worker_inv n s" and n: "n < 2 ^ 64" and run: "ServerSendQueueThread 0 intr s = Some (t, stop)"
  shows "inv_step n 0 s t"
proof -
  have A: "acct {#} s" and cnt: "m_iSendMsgQueueCount s = int (length (m_MsgSendQueue s))"
    using W by (simp_all add: worker_inv_def queues_ok_def)
  from send_thread_inv [OF A cnt worker_inv_msgs_ok [OF W n] worker_inv_conns [OF W] run]
  obtain left where "pass_inv {#} left [] t" "send_frame_all s t" by blast
  then show ?thesis
    using send_thread_queue [OF run] by (intro worker_inv_send_frame [OF W]) (simp_all add: pass_inv_def)
qed

lemma worker_inv_write:
  assumes W: "worker_inv n s" and p: "p \<in> in_use (spool s)" and a: "psendMemPointer (cn s p) = Some a"
  shows "inv_step n 0 s (qc_write_request_handler p s)"
proof -
  let ?t = "qc_write_request_handler p s"
  have A: "acct {#} s" and cnt: "m_iSendMsgQueueCount s = int (length (m_MsgSendQueue s))"
    and C: "conns_send_ok s" using W worker_inv_conns by (simp_all add: worker_inv_def queues_ok_def)
  then have ok: "send_ok (smem s) (cn s p)" using p by (simp add: conns_send_ok_def)
  note o = write_handler_outcome [OF A in_use_listed [OF p] ok a refl]
  have fr: "send_frame_all s ?t" by (rule send_frame_allI [OF o(2) disjI1 [OF p]])
  have "conns_send_ok ?t"
    unfolding conns_send_ok_def
  proof
    fix q assume "q \<in> in_use (spool ?t)"
    then have q: "q \<in> in_use (spool s)" using send_frame_all_cn(4) [OF fr] by simp
    show "send_ok (smem ?t) (cn ?t q)"
    proof (cases "q = p")
      case False
      then have c: "cn ?t q = cn s q" using o(2) by (simp add: send_frame_def)
      have "read_obj b (smem ?t) = read_obj b (smem s)" if "psendMemPointer (cn s q) = Some b" for b
        by (rule conn_read_same [OF A o(1) fr q that]) (simp add: c that)
      from send_ok_cong(1) [OF _ this] C q show ?thesis by (simp add: c conns_send_ok_def)
    qed (simp add: o(3))
  qed
  then show ?thesis using o(1,4) fr cnt by (intro worker_inv_send_frame [OF W]) simp_all
qed

text \<open>
  An \<open>EPOLLOUT\<close> for a connection that has been closed in the meantime: the kernel refuses the
  descriptor, and the rest of the packet is dropped.
\<close>

lemma write_handler_closed:
  assumes "fd (cn s p) = -1"
  shows "qc_write_request_handler p s =
    upd_cn p (\<lambda>c. c\<lparr>psendMemPointer := None, iThrowsendCount := iThrowsendCount c - 1\<rparr>)
      (free_buf (psendMemPointer (cn s p)) (sem_post (s\<lparr>skern := (skern s)\<lparr>k_send := tl (k_send (skern s))\<rparr>\<rparr>)))"
  using assms by (simp add: qc_write_request_handler_def sendproc_closed)

lemma worker_inv_late_write:
  assumes W: "worker_inv n s" and cl: "closable s p" and p: "p \<notin> in_use (spool s)"
  shows "inv_step n 0 s (qc_write_request_handler p s)"
proof -
  let ?s = "sem_post (s\<lparr>skern := (skern s)\<lparr>k_send := tl (k_send (skern s))\<rparr>\<rparr>)"
  let ?f = "\<lambda>c. c\<lparr>psendMemPointer := None, iThrowsendCount := iThrowsendCount c - 1\<rparr>"
  let ?t = "upd_cn p ?f (free_buf (psendMemPointer (cn s p)) ?s)"
  have A: "acct {#} s" and Q: "queues_ok s" and F: "fds_ok s" and C: "conns_send_ok s"
    using W worker_inv_conns by (simp_all add: worker_inv_def)
  have pl: "p \<in> set (m_connectionList (spool s))" using A cl closable_listed by (auto simp: acct_def)
  with F p have "fd (cn s p) = -1" by (simp add: fds_ok_def)
  from write_handler_closed [OF this] have t: "qc_write_request_handler p s = ?t" .
  have "acct {#} (upd_cn p ?f (free_buf (psendMemPointer (cn ?s p)) ?s))"
    by (rule acct_release_send) (use A pl in simp_all)
  then have At: "acct {#} ?t" by simp
  have mem: "mem_step {} (smem s) (smem ?t)" by simp
  have use: "in_use (spool ?t) = in_use (spool s)" by simp
  have "conns_send_ok ?t"
    unfolding conns_send_ok_def
  proof
    fix q assume "q \<in> in_use (spool ?t)"
    then have q: "q \<in> in_use (spool s)" by simp
    with p have c: "cn ?t q = cn s q" by auto
    have "read_obj b (smem ?t) = read_obj b (smem s)" if b: "psendMemPointer (cn s q) = Some b" for b
      using b q p use by (intro acct_read_kept [OF A At mem] bufs_owned [of q]) (auto simp: conn_bufs_def c)
    from send_ok_cong(1) [OF _ this] C q have "send_ok (smem ?t) (cn s q)" by (simp add: conns_send_ok_def)
    then show "send_ok (smem ?t) (cn ?t q)" by (simp only: c)
  qed
  then show ?thesis
    unfolding t using At mem cl Q
    by (intro worker_inv_sending [OF W])
      (auto simp: queues_ok_def pool_shape_upd send_erase_def sem_post_def)
qed

text \<open>The same with an error bit.\<close>

lemma worker_inv_late_out:
  assumes W: "worker_inv n s" and cl: "closable s p" and p: "p \<notin> in_use (spool s)"
  shows "inv_step n 0 s (upd_cn p (\<lambda>c. c\<lparr>iThrowsendCount := iThrowsendCount c - 1\<rparr>) s)"
proof -
  let ?t = "upd_cn p (\<lambda>c. c\<lparr>iThrowsendCount := iThrowsendCount c - 1\<rparr>) s"
  have A: "acct {#} s" and Q: "queues_ok s" using W by (simp_all add: worker_inv_def)
  have pl: "p \<in> set (m_connectionList (spool s))" using A cl closable_listed by (auto simp: acct_def)
  have "calm {} s ?t" using p pl by (auto simp: calm_def conn_bufs_def)
  moreover have "acct {#} ?t" using A by (simp add: acct_upd_cn conn_bufs_def)
  moreover have "seq_step 0 s ?t" by (rule seq_step_frame) simp_all
  ultimately show ?thesis
    using Q by (intro worker_inv_calm [OF W, of ?t "{}"]) (auto simp: queues_ok_def msgs_def)
qed

section \<open>Accepting\<close>

lemma worker_inv_accept_base:
  assumes W: "worker_inv n s" and B: "accept_base {#} p s t" and seq: "seq_step j s t"
    and use: "in_use (spool t) \<subseteq> insert p (in_use (spool s))"
    and fds: "fds_ok t" and on: "m_onlineUserCount (spool t) = m_onlineUserCount (spool s)"
    and ready: "p \<in> in_use (spool t) \<Longrightarrow> recv_ok (smem t) p (cn t p) \<and> send_ok (smem t) (cn t p)"
    and ti: "\<And>a. a \<in> set (timer_addrs (stimer t)) \<Longrightarrow>
      a \<in> set (timer_addrs (stimer s)) \<or> hdr_from s t (hdr (smem t) a)"
  shows "inv_step n j s t"
proof -
  have A: "acct {#} s" and Q: "queues_ok s" and C: "conns_ok s"
    and len: "\<And>p. length (dataHeadInfo (cn s p)) = DATA_BUFSIZE"
    and ons: "m_onlineUserCount (spool s) \<le> max 0 (m_worker_connections (sconf s))"
    using W by (simp_all add: worker_inv_def)
  have At: "acct {#} t" and pool: "free_clean (spool t)" "unused_init (spool t)" and conf: "sconf t = sconf s"
    and other: "\<And>q. q \<noteq> p \<Longrightarrow> cn t q = cn s q" and mem: "mem_step {} (smem s) (smem t)"
    and lp: "length (dataHeadInfo (cn t p)) = DATA_BUFSIZE"
    and qs: "m_MsgSendQueue t = m_MsgSendQueue s" "m_MsgRecvQueue t = m_MsgRecvQueue s"
      "m_iSendMsgQueueCount t = m_iSendMsgQueueCount s" "m_iRecvMsgQueueCount t = m_iRecvMsgQueueCount s"
    using B by (simp_all add: accept_base_def)
  show ?thesis
  proof (rule worker_inv_frame [OF W At pool _ fds conf _ seq mem])
    show "length (dataHeadInfo (cn t q)) = DATA_BUFSIZE" for q
      using lp len [of q] other [of q] by (cases "q = p") simp_all
    show "m_onlineUserCount (spool t) \<le> max 0 (m_worker_connections (sconf s))" using ons on by simp
    show "conns_ok t"
      unfolding conns_ok_def
    proof
      fix q assume q: "q \<in> in_use (spool t)"
      show "recv_ok (smem t) q (cn t q) \<and> send_ok (smem t) (cn t q)"
      proof (cases "q = p")
        case True with q ready show ?thesis by simp
      next
        case False
        with q use have qs: "q \<in> in_use (spool s)" by auto
        with C have "recv_ok (smem s) q (cn s q)" "send_ok (smem s) (cn s q)" by (simp_all add: conns_ok_def)
        then show ?thesis using False by (intro conn_kept [OF A At mem qs q]) (simp_all add: other)
      qed
    qed
    show "a \<in> msgs s \<and> a \<notin> {} \<or> hdr_from s t (hdr (smem t) a)" if "a \<in> msgs t" for a
      using that ti [of a] by (auto simp: msgs_def qs)
  qed (use Q in \<open>simp_all add: queues_ok_def qs\<close>)
qed

lemma seq_step_one:
  assumes "\<And>q. q \<noteq> p \<Longrightarrow> cseq (cn t q) = cseq (cn s q)" and "cseq (cn t p) = cseq (cn s p) + of_nat i"
    and "i \<le> j" and "in_use (spool s) \<subseteq> in_use (spool t)"
  shows "seq_step j s t"
  unfolding seq_step_def
proof
  fix q
  show "\<exists>k \<le> j. cseq (cn t q) = cseq (cn s q) + of_nat k \<and> (k = 0 \<longrightarrow> q \<in> in_use (spool s) \<longrightarrow> q \<in> in_use (spool t))"
    using assms by (cases "q = p") (auto intro: exI [of _ i] exI [of _ 0])
qed

lemma fds_ok_base:
  assumes F: "fds_ok s" and B: "accept_base E p s t"
    and fd: "in_use (spool t) = insert p (in_use (spool s)) \<and> sock_fresh s (fd (cn t p))
      \<or> in_use (spool t) = in_use (spool s) \<and> fd (cn t p) = -1"
  shows "fds_ok t"
proof -
  have other: "cn t q = cn s q" if "q \<noteq> p" for q using B that by (simp add: accept_base_def)
  have pl: "p \<notin> in_use (spool s)" and ls: "set (m_connectionList (spool t)) = insert p (set (m_connectionList (spool s)))"
    using B by (simp_all add: accept_base_def)
  have ne: "q \<noteq> p" if "q \<in> in_use (spool s)" for q using that pl by auto
  from fd show ?thesis
  proof
    assume o: "in_use (spool t) = insert p (in_use (spool s)) \<and> sock_fresh s (fd (cn t p))"
    have "inj_on (\<lambda>q. fd (cn t q)) (in_use (spool s))"
      using F other ne by (auto simp: fds_ok_def inj_on_def)
    moreover have "fd (cn t p) \<notin> (\<lambda>q. fd (cn t q)) ` (in_use (spool s) - {p})"
      using o other ne by (auto simp: sock_fresh_def)
    ultimately have "inj_on (\<lambda>q. fd (cn t q)) (in_use (spool t))" using o by simp
    moreover have "fd (cn t q) \<noteq> -1" if "q \<in> in_use (spool t)" for q
      using that o F other by (cases "q = p") (auto simp: fds_ok_def sock_fresh_def)
    moreover have "fd (cn t q) = -1" if "q \<in> set (m_connectionList (spool t)) - in_use (spool t)" for q
      using that o F other [of q] ls by (auto simp: fds_ok_def)
    ultimately show ?thesis by (simp add: fds_ok_def)
  next
    assume o: "in_use (spool t) = in_use (spool s) \<and> fd (cn t p) = -1"
    have "inj_on (\<lambda>q. fd (cn t q)) (in_use (spool t))"
      using F o other ne by (auto simp: fds_ok_def inj_on_def)
    moreover have "fd (cn t q) \<noteq> -1" if "q \<in> in_use (spool t)" for q
      using that o F other ne by (auto simp: fds_ok_def)
    moreover have "fd (cn t q) = -1" if "q \<in> set (m_connectionList (spool t)) - in_use (spool t)" for q
      using that o F other [of q] ls by (cases "q = p") (auto simp: fds_ok_def)
    ultimately show ?thesis by (simp add: fds_ok_def)
  qed
qed

lemma worker_inv_accept_open:
  assumes W: "worker_inv n s" and O: "accept_open {#} p sock s t" and f: "sock_fresh s sock"
  shows "inv_step n 2 s t"
proof (rule worker_inv_accept_base [OF W])
  show B: "accept_base {#} p s t" using O by (simp add: accept_open_def)
  have pp: "in_use (spool t) = insert p (in_use (spool s))" "fd (cn t p) = sock" "cseq (cn t p) = cseq (cn s p) + 1"
    and ti: "stimer t = stimer s \<or> timer_added p s t" using O by (simp_all add: accept_open_def)
  show "seq_step 2 s t" using B pp by (intro seq_step_one [where i = 1]) (auto simp: accept_base_def)
  show "in_use (spool t) \<subseteq> insert p (in_use (spool s))" using pp by simp
  show "fds_ok t" using W pp f by (intro fds_ok_base [OF _ B]) (simp_all add: worker_inv_def)
  show "m_onlineUserCount (spool t) = m_onlineUserCount (spool s)"
    "recv_ok (smem t) p (cn t p) \<and> send_ok (smem t) (cn t p)" using O by (simp_all add: accept_open_def)
  show "a \<in> set (timer_addrs (stimer s)) \<or> hdr_from s t (hdr (smem t) a)" if "a \<in> set (timer_addrs (stimer t))" for a
    using ti
  proof
    assume "timer_added p s t"
    then obtain b where b: "mset (timer_addrs (stimer t)) = add_mset b (mset (timer_addrs (stimer s)))"
      "hdr (smem t) b = \<lparr>pConn = p, iCurrsequence = cseq (cn t p)\<rparr>" by (auto simp: timer_added_def)
    have "set (timer_addrs (stimer t)) = insert b (set (timer_addrs (stimer s)))"
      using arg_cong [OF b(1), of set_mset] by simp
    with that b(2) pp(1) show ?thesis by (auto simp: hdr_from_def)
  qed (use that in simp)
qed

lemma worker_inv_accept_closed:
  assumes W: "worker_inv n s" and O: "accept_closed {#} p s t"
  shows "inv_step n 2 s t"
proof (rule worker_inv_accept_base [OF W])
  show B: "accept_base {#} p s t" using O by (simp add: accept_closed_def)
  have pp: "in_use (spool t) = in_use (spool s)" "fd (cn t p) = -1" "cseq (cn t p) = cseq (cn s p) + 2"
    "p \<notin> in_use (spool s)" using O by (simp_all add: accept_closed_def accept_base_def)
  show "seq_step 2 s t" using B pp by (intro seq_step_one [where i = 2]) (auto simp: accept_base_def)
  show "fds_ok t" using W pp by (intro fds_ok_base [OF _ B]) (simp_all add: worker_inv_def)
qed (use O in \<open>auto simp: accept_closed_def accept_base_def\<close>)

lemma worker_inv_count:
  assumes I: "inv_step n j s u" and on: "m_onlineUserCount (spool u) < m_worker_connections (sconf u)"
  shows "inv_step n j s (count_user u)"
proof -
  have "worker_inv (n + j) (count_user u)"
    using inv_step_inv [OF I] on by (auto simp: worker_inv_def fds_ok_def conns_ok_def queues_ok_def msgs_def fresh_def)
  moreover have "seq_step j s (count_user u)" using I by (simp add: inv_step_def seq_step_def)
  ultimately show ?thesis using I by (simp add: inv_step_def)
qed

lemma worker_inv_field [simp]:
  "worker_inv n (s\<lparr>use_accept4 := b\<rparr>) = worker_inv n s" "worker_inv n (s\<lparr>skern := K\<rparr>) = worker_inv n s"
  "worker_inv n (s\<lparr>m_lastprintTime := now\<rparr>) = worker_inv n s"
  by (simp_all add: worker_inv_def fds_ok_def conns_ok_def queues_ok_def msgs_def fresh_def)

lemma inv_step_field [simp]:
  "inv_step n j s (t\<lparr>use_accept4 := b\<rparr>) = inv_step n j s t" "inv_step n j s (t\<lparr>skern := K\<rparr>) = inv_step n j s t"
  "inv_step n j (s\<lparr>use_accept4 := b\<rparr>) t = inv_step n j s t"
  "inv_step n j s (t\<lparr>m_lastprintTime := now\<rparr>) = inv_step n j s t"
  by (simp_all add: inv_step_def seq_step_def)

lemma worker_inv_accept:
  assumes W: "worker_inv n s" and fresh: "\<And>b sock addr. acc b = Accepted sock addr \<Longrightarrow> sock_fresh s sock"
  shows "inv_step n 2 s (qc_event_accept oldc acc ok now s)"
proof (rule event_accept_cases [of oldc acc ok now s])
  fix b assume "qc_event_accept oldc acc ok now s = s\<lparr>use_accept4 := b\<rparr>"
  with W show ?thesis by simp
next
  fix b sock addr
  let ?s = "s\<lparr>use_accept4 := b\<rparr>"
  let ?c = "accept_conn oldc sock addr ok now ?s"
  assume acc: "acc b = Accepted sock addr"
    and run: "qc_event_accept oldc acc ok now s = accept_new oldc sock addr ok now ?s"
  have Ws: "worker_inv n ?s" and fs: "sock_fresh ?s sock" using W fresh [OF acc] by (simp_all add: sock_fresh_def)
  then have pre: "acct {#} ?s" "free_clean (spool ?s)" "unused_init (spool ?s)"
    "\<forall>p. length (dataHeadInfo (cn ?s p)) = DATA_BUFSIZE" "sock \<noteq> -1"
    by (simp_all add: worker_inv_def sock_fresh_def)
  have "inv_step n 2 ?s (accept_new oldc sock addr ok now ?s)"
  proof (cases rule: accept_new_cases [of oldc sock addr ok now ?s])
    case refused
    with Ws show ?thesis by simp
  next
    case taken
    show ?thesis
      unfolding taken(1)
    proof (rule accept_conn_outcome [OF pre refl, where oldc = oldc and addr = addr and ok = ok and now = now])
      assume "accept_open {#} (got_conn sock now ?s) sock ?s ?c"
      then show "inv_step n 2 ?s ?c" by (rule worker_inv_accept_open [OF Ws _ fs])
    next
      assume "accept_closed {#} (got_conn sock now ?s) ?s ?c"
      then show "inv_step n 2 ?s ?c" by (rule worker_inv_accept_closed [OF Ws])
    next
      fix u
      assume u: "?c = count_user u" "accept_open {#} (got_conn sock now ?s) sock ?s u"
      have "m_onlineUserCount (spool u) < m_worker_connections (sconf u)"
        using u(2) taken(2) by (simp add: accept_open_def accept_base_def)
      then show "inv_step n 2 ?s ?c"
        unfolding u(1) by (rule worker_inv_count [OF worker_inv_accept_open [OF Ws u(2) fs]])
    qed
  qed
  then show ?thesis by (simp add: run)
qed

end
