(* ===== verification/QcSystem.thy ===== *)
theory QcSystem
  imports QcSteps
begin

text \<open>
  The worker process as a whole: a step relation with one rule per thing that can happen (an event
  of \<open>epoll_wait\<close>, a round of the sending, recycling and timer threads, a job of the thread
  pool), the runs of it, and what holds in every state a worker can reach.
\<close>

section \<open>Steps and runs\<close>

text \<open>
  \<open>worker_step d j s t\<close>: a step from \<open>s\<close> to \<open>t\<close> that raises no sequence number by more than \<open>j\<close>.
  The threads of the worker take the locks of the data they share, so a step is a whole critical
  section or event handler. The conditions of the event rules say what the kernel and the program
  guarantee: an event for an object that has not been recycled yet, with the handler it was
  registered for, and a new descriptor that is not open.

  Two events find the code unprepared (\<open>out_defect\<close>): \<open>EPOLLOUT\<close> with an error bit on an open
  connection, and \<open>EPOLLOUT\<close> for an open connection that has no packet pending, which stays
  registered after a failed send or a failed \<open>epoll_ctl\<close>. With \<open>d = True\<close> they happen like any
  other event; with \<open>d = False\<close> the relation is without them.
\<close>

abbreviation out_error :: "u32 \<Rightarrow> bool" where
  "out_error revents \<equiv> revents AND (EPOLLERR OR EPOLLHUP OR EPOLLRDHUP) \<noteq> 0"

definition out_defect :: "u32 \<Rightarrow> connptr \<Rightarrow> server \<Rightarrow> bool" where
  "out_defect revents p s \<longleftrightarrow> p \<in> in_use (spool s) \<and> (out_error revents \<or> psendMemPointer (cn s p) = None)"

definition out_event :: "u32 \<Rightarrow> connptr \<Rightarrow> server \<Rightarrow> bool" where
  "out_event revents p s \<longleftrightarrow> closable s p \<and> (\<not> out_error revents \<longrightarrow> whandler (cn s p) = Some H_write_request)"

inductive worker_step :: "bool \<Rightarrow> nat \<Rightarrow> server \<Rightarrow> server \<Rightarrow> bool" for d where
  accept: "rhandler (cn s p) = Some H_event_accept \<Longrightarrow>
    (\<And>b sock addr. io_acc io b = Accepted sock addr \<Longrightarrow> sock_fresh s sock) \<Longrightarrow>
    worker_step d 2 s (event_in io p s)"
| read: "rhandler (cn s p) = Some H_read_request \<Longrightarrow> closable s p \<Longrightarrow> worker_step d 1 s (event_in io p s)"
| writable: "out_event revents p s \<Longrightarrow> d \<or> \<not> out_defect revents p s \<Longrightarrow>
    worker_step d 0 s (event_out revents io p s)"
| send: "ServerSendQueueThread 0 interrupted s = Some (t, stop) \<Longrightarrow> worker_step d 0 s t"
| recycle: "worker_step d 1 s (recycle_round now stop s)"
| monitor: "ServerTimerQueueMonitorThread now s = Some t \<Longrightarrow>
    worker_step d (length (timer_addrs (stimer s))) s t"
| job: "worker_step d 1 s (worker_job now s)"
| statistics: "worker_step d 0 s (snd (printTDInfo now s))"

inductive worker_run :: "bool \<Rightarrow> nat \<Rightarrow> server \<Rightarrow> server \<Rightarrow> bool" for d where
  stay: "worker_run d 0 s s"
| step: "worker_run d n s t \<Longrightarrow> worker_step d j t u \<Longrightarrow> worker_run d (n + j) s u"

lemma worker_run_one: "worker_step d j s t \<Longrightarrow> worker_run d j s t"
  using worker_run.step [OF worker_run.stay, of d j s t] by simp

lemma worker_run_trans:
  assumes "worker_run d i s t" and "worker_run d j t u"
  shows "worker_run d (i + j) s u"
  using assms(2,1)
proof (induction rule: worker_run.induct)
  case (step n t u j v)
  then show ?case using worker_run.step [of d "i + n" s u j v] by (simp add: add.assoc)
qed simp

lemma worker_step_mono: "worker_step False j s t \<Longrightarrow> worker_step d j s t"
  by (induction rule: worker_step.induct) (auto intro: worker_step.intros simp del: One_nat_def)

lemma worker_run_mono: "worker_run False n s t \<Longrightarrow> worker_run d n s t"
  by (induction rule: worker_run.induct) (auto intro: worker_run.intros worker_step_mono)

text \<open>A run that has met one of the two events: up to the first of them it was a run without.\<close>

definition after_defect :: "server \<Rightarrow> server \<Rightarrow> bool" where
  "after_defect s t \<longleftrightarrow> (\<exists>i j u revents io p. worker_run False i s u \<and> out_event revents p u
     \<and> out_defect revents p u \<and> worker_run True j (event_out revents io p u) t)"

lemma worker_step_split:
  "worker_step d j s t \<Longrightarrow> worker_step False j s t
     \<or> d \<and> (\<exists>revents io p. out_event revents p s \<and> out_defect revents p s \<and> t = event_out revents io p s)"
  by (induction rule: worker_step.induct) (auto intro: worker_step.intros simp del: One_nat_def)

lemma run_first_defect: "worker_run d n s t \<Longrightarrow> worker_run False n s t \<or> d \<and> after_defect s t"
proof (induction rule: worker_run.induct)
  case (stay s)
  show ?case using worker_run.stay by blast
next
  case (step n s t j u)
  from step.IH show ?case
  proof
    assume r: "worker_run False n s t"
    from worker_step_split [OF step.hyps(2)] show ?thesis
    proof
      assume "worker_step False j t u"
      with worker_run.step [OF r] show ?thesis by blast
    next
      assume "d \<and> (\<exists>revents io p. out_event revents p t \<and> out_defect revents p t \<and> u = event_out revents io p t)"
      with r worker_run.stay [of True u] show ?thesis unfolding after_defect_def by blast
    qed
  next
    assume a: "d \<and> after_defect s t"
    then have "worker_step True j t u" using step.hyps(2) by simp
    with a worker_run.step [of True] show ?thesis unfolding after_defect_def by blast
  qed
qed

lemma worker_step_inv:
  assumes "worker_step False j s t" and W: "worker_inv n s" and n: "n < 2 ^ 64"
  shows "inv_step n j s t"
  using assms(1)
proof (cases rule: worker_step.cases)
  case (accept p io)
  have "inv_step n 2 s (qc_event_accept p (io_acc io) (io_ioctl io) (io_now io) s)"
    by (rule worker_inv_accept [OF W]) (rule accept(4))
  then show ?thesis using accept(1-3) by (simp add: event_in_def call_ev_handler_def)
next
  case (read p io)
  then show ?thesis using worker_inv_read [OF W read(4)] by (simp add: event_in_def call_ev_handler_def)
next
  case (writable revents p io)
  then have w: "closable s p" "\<not> out_error revents \<Longrightarrow> whandler (cn s p) = Some H_write_request"
    "p \<in> in_use (spool s) \<Longrightarrow> \<not> out_error revents \<and> psendMemPointer (cn s p) \<noteq> None"
    by (auto simp: out_event_def out_defect_def)
  show ?thesis
  proof (cases "p \<in> in_use (spool s)")
    case True
    with w obtain a where "\<not> out_error revents" "psendMemPointer (cn s p) = Some a" by auto
    with w(2) worker_inv_write [OF W True] writable(1,2) show ?thesis by (simp add: event_out_def call_ev_handler_def)
  next
    case False
    with w(1,2) worker_inv_late_out [OF W _ False] worker_inv_late_write [OF W _ False] writable(1,2) show ?thesis
      by (simp add: event_out_def call_ev_handler_def)
  qed
next
  case (send interrupted stop)
  then show ?thesis using worker_inv_send [OF W n] by simp
next
  case (recycle now stop)
  then show ?thesis using worker_inv_recycle [OF W] by simp
next
  case (monitor now)
  then show ?thesis using worker_inv_monitor [OF W n, of now] by simp
next
  case (job now)
  then show ?thesis using worker_inv_job [OF W n] by simp
next
  case (statistics now)
  then show ?thesis using inv_step_refl [OF W] by (simp add: printTDInfo_def)
qed

lemma worker_run_inv:
  assumes "worker_run False n s t" and "worker_inv m s" and "m + n < 2 ^ 64"
  shows "inv_step m n s t"
  using assms
proof (induction rule: worker_run.induct)
  case (step n s t j u)
  then have I: "inv_step m n s t" by simp
  have "m + n < 2 ^ 64" using step.prems(2) by simp
  from worker_step_inv [OF step.hyps(2) inv_step_inv [OF I] this] show ?case by (rule inv_step_trans [OF I])
qed simp


section \<open>Starting a worker\<close>

text \<open>The pool of a worker that has created its connection objects but uses none.\<close>

definition idle_pool :: "pool \<Rightarrow> bool" where
  "idle_pool P \<longleftrightarrow> in_use P = {} \<and> unused_init P
     \<and> (\<forall>p. conn_bufs (conns P p) = [] \<and> length (dataHeadInfo (conns P p)) = DATA_BUFSIZE)
     \<and> (\<forall>p \<in> set (m_connectionList P). fd (conns P p) = -1)"

lemma idle_initconnection_loop:
  "idle_pool P \<Longrightarrow> m_freeconnectionList P = m_connectionList P \<Longrightarrow> m_recyconnectionList P = [] \<Longrightarrow>
   idle_pool (initconnection_loop n now P)
     \<and> m_onlineUserCount (initconnection_loop n now P) = m_onlineUserCount P"
proof (induction n arbitrary: P)
  case (Suc n)
  let ?P = "(snd (new_conn now P))\<lparr>m_freeconnectionList := m_freeconnectionList P @ [next_conn P]\<rparr>"
  have "idle_pool ?P"
    using Suc.prems
    by (auto simp: idle_pool_def new_conn_def Let_def in_use_def unused_init_def conn_bufs_def GetOneToUse_def
        qc_connection_init_def)
  with Suc.IH [of ?P] Suc.prems show ?case by (simp add: new_conn_def Let_def)
qed simp

lemma worker_inv_initconnection:
  assumes "0 < m_iWaitTime (m_timerconf cf)" and s: "s = CSocket_ctor cf (empty_memory f h) K"
  shows "worker_inv 0 (s\<lparr>spool := initconnection w now (spool s)\<rparr>)"
    and "in_use (initconnection w now (spool s)) = {}"
proof -
  let ?P = "initconnection w now empty_pool"
  have P: "spool s = empty_pool" by (simp add: s CSocket_ctor_def)
  have "idle_pool empty_pool"
    by (simp add: idle_pool_def in_use_def unused_init_def conn_bufs_def) (simp add: empty_pool_def qc_connection_init_def)
  then have i: "idle_pool (initconnection_loop (nat w) now empty_pool)"
      "m_onlineUserCount (initconnection_loop (nat w) now empty_pool) = 0"
    using idle_initconnection_loop [of empty_pool "nat w" now] by simp_all (simp add: empty_pool_def)
  then have I: "idle_pool ?P" "m_onlineUserCount ?P = 0"
    by (simp_all add: initconnection_def Let_def idle_pool_def in_use_def unused_init_def)
  then show "in_use (initconnection w now (spool s)) = {}" by (simp add: P idle_pool_def)
  have "pool_bufs ?P = {#}" using I by (simp add: idle_pool_def pool_bufs_def)
  moreover have "acct {#} s" unfolding s by (rule acct_ctor)
  moreover have "pool_bufs (spool s) = {#}" unfolding P by (simp add: pool_bufs_def)
  ultimately have "acct {#} (s\<lparr>spool := ?P\<rparr>)"
    using initconnection_inv by (simp add: acct_def owned_def)
  then show "worker_inv 0 (s\<lparr>spool := initconnection w now (spool s)\<rparr>)"
    using I assms(1) unfolding P
    by (simp add: worker_inv_def idle_pool_def free_clean_def fds_ok_def conns_ok_def queues_ok_def msgs_def)
      (simp add: s CSocket_ctor_def timer_addrs_def)
qed


text \<open>A listening socket whose connection object is registered to accept.\<close>

definition listens :: "server \<Rightarrow> qc_listening \<Rightarrow> connptr \<Rightarrow> bool" where
  "listens t l p \<longleftrightarrow> lconnection l = Some p \<and> p \<in> in_use (spool t) \<and> fd (cn t p) = lfd l
     \<and> rhandler (cn t p) = Some H_event_accept \<and> k_epoll (skern t) (lfd l) = Some (EPOLLIN OR EPOLLRDHUP, p)"

lemma oper_add_other:
  "k \<noteq> sock \<Longrightarrow> k_epoll (skern (snd (qc_epoll_oper_event sock EPOLL_CTL_ADD flag act p t))) k = k_epoll (skern t) k"
  by (simp add: qc_epoll_oper_event_def sys_epoll_ctl_def Let_def split: list.splits)

lemma init_listener_step:
  assumes W: "worker_inv n s" and f: "sock_fresh s (lfd l)"
    and g: "qc_get_connection (lfd l) now (spool s) = (p, P)"
    and op: "qc_epoll_oper_event (lfd l) EPOLL_CTL_ADD (EPOLLIN OR EPOLLRDHUP) 0 p
      (upd_cn p (\<lambda>c. c\<lparr>listening := Some i, rhandler := Some H_event_accept\<rparr>) (s\<lparr>spool := P\<rparr>)) = (r, u)"
  shows "inv_step n 2 s u" and "accept_open {#} p (lfd l) s u"
    and "r \<noteq> -1 \<Longrightarrow> listens u (l\<lparr>lconnection := Some p\<rparr>) p"
    and "k \<noteq> lfd l \<Longrightarrow> k_epoll (skern u) k = k_epoll (skern s) k"
proof -
  let ?t = "upd_cn p (\<lambda>c. c\<lparr>listening := Some i, rhandler := Some H_event_accept\<rparr>) (s\<lparr>spool := P\<rparr>)"
  have pre: "acct {#} s" "free_clean (spool s)" "unused_init (spool s)"
    "\<forall>p. length (dataHeadInfo (cn s p)) = DATA_BUFSIZE" using W by (simp_all add: worker_inv_def)
  have u: "u = snd (qc_epoll_oper_event (lfd l) EPOLL_CTL_ADD (EPOLLIN OR EPOLLRDHUP) 0 p ?t)" by (simp only: op snd_conv)
  have "accept_open {#} p (lfd l) s (s\<lparr>spool := P\<rparr>)"
    using accept_got [OF pre, of "lfd l" now] by (simp add: got_state_def g)
  then have "accept_open {#} p (lfd l) s ?t" by (rule accept_open_upd) simp_all
  then show O: "accept_open {#} p (lfd l) s u" unfolding u by (rule accept_open_oper)
  show "inv_step n 2 s u" by (rule worker_inv_accept_open [OF W O f])
  show "k_epoll (skern u) k = k_epoll (skern s) k" if "k \<noteq> lfd l" unfolding u oper_add_other [OF that] by simp
  have "rhandler (cn u p) = Some H_event_accept" by (simp add: u)
  then show "listens u (l\<lparr>lconnection := Some p\<rparr>) p" if "r \<noteq> -1"
    using O oper_add_result [OF op] that by (auto simp: listens_def accept_open_def)
qed

lemma init_listeners_spec:
  "init_listeners now i ls s = Some (ls', t) \<Longrightarrow> worker_inv n s \<Longrightarrow> distinct (map lfd ls) \<Longrightarrow>
   \<forall>l \<in> set ls. sock_fresh s (lfd l) \<Longrightarrow>
   inv_step n (2 * length ls) s t \<and> map lfd ls' = map lfd ls \<and> sconf t = sconf s
   \<and> (\<forall>l \<in> set ls'. \<exists>p. p \<notin> in_use (spool s) \<and> listens t l p)
   \<and> in_use (spool t) = in_use (spool s) \<union> {p. \<exists>l \<in> set ls'. lconnection l = Some p}
   \<and> (\<forall>q \<in> in_use (spool s). cn t q = cn s q)
   \<and> (\<forall>k. k \<notin> set (map lfd ls) \<longrightarrow> k_epoll (skern t) k = k_epoll (skern s) k)"
proof (induction now i ls s arbitrary: ls' t n rule: init_listeners.induct)
  case (2 now i l ls s)
  obtain p P where g: "qc_get_connection (lfd l) now (spool s) = (p, P)" by fastforce
  obtain r u where op: "qc_epoll_oper_event (lfd l) EPOLL_CTL_ADD (EPOLLIN OR EPOLLRDHUP) 0 p
      (upd_cn p (\<lambda>c. c\<lparr>listening := Some i, rhandler := Some H_event_accept\<rparr>) (s\<lparr>spool := P\<rparr>)) = (r, u)"
    by fastforce
  have f: "sock_fresh s (lfd l)" using "2.prems"(4) by simp
  note st = init_listener_step [OF "2.prems"(2) f g op]
  note run = "2.prems"(1) [unfolded init_listeners.simps g Let_def prod.case op]
  have r: "r \<noteq> -1" using run by auto
  with run obtain ls1 where run: "init_listeners now (Suc i) ls u = Some (ls1, t)"
    and ls': "ls' = l\<lparr>lconnection := Some p\<rparr> # ls1"
    by (auto split: option.splits)
  have acc: "in_use (spool u) = insert p (in_use (spool s))" "p \<notin> in_use (spool s)" "fd (cn u p) = lfd l"
    "\<And>q. q \<noteq> p \<Longrightarrow> cn u q = cn s q" "sconf u = sconf s"
    using st(2) by (simp_all add: accept_open_def accept_base_def)
  have "\<forall>k \<in> set ls. sock_fresh u (lfd k)"
    using "2.prems"(3,4) acc by (auto simp: sock_fresh_def image_iff) metis
  with "2.IH" [OF refl g [symmetric] refl refl op [symmetric] r run inv_step_inv [OF st(1)]] "2.prems"(3)
  have IH: "inv_step (n + 2) (2 * length ls) u t" "map lfd ls1 = map lfd ls" "sconf t = sconf u"
    "\<forall>l \<in> set ls1. \<exists>p. p \<notin> in_use (spool u) \<and> listens t l p"
    "in_use (spool t) = in_use (spool u) \<union> {p. \<exists>l \<in> set ls1. lconnection l = Some p}"
    "\<forall>q \<in> in_use (spool u). cn t q = cn u q"
    "\<forall>k. k \<notin> set (map lfd ls) \<longrightarrow> k_epoll (skern t) k = k_epoll (skern u) k" by auto
  have "listens t (l\<lparr>lconnection := Some p\<rparr>) p"
    using st(3) [OF r] IH(5-7) "2.prems"(3) by (auto simp: listens_def)
  moreover have "inv_step n (2 * length (l # ls)) s t" using inv_step_trans [OF st(1) IH(1)] by simp
  moreover have "cn t q = cn s q" if "q \<in> in_use (spool s)" for q using that IH(6) acc by (cases "q = p") auto
  ultimately show ?case
    using IH acc st(4) by (auto simp: ls')
qed simp


text \<open>
  The state a worker process starts with: the constructed object (the configuration read, the
  memory empty) after \<open>qc_epoll_init\<close> on the listening sockets \<open>ls\<close>, whose descriptors are
  distinct. \<open>fill\<close> and \<open>junk\<close> are what fresh memory happens to hold.
\<close>

definition started ::
  "sock_conf \<Rightarrow> (addr \<Rightarrow> nat \<Rightarrow> u8) \<Rightarrow> (addr \<Rightarrow> STRUC_MSG_HEADER) \<Rightarrow> kernel \<Rightarrow> int \<Rightarrow> qc_listening list
   \<Rightarrow> (qc_listening list \<times> server) option" where
  "started cf fill junk K now ls =
     (if distinct (map lfd ls) \<and> -1 \<notin> set (map lfd ls) \<and> 0 < m_iWaitTime (m_timerconf cf)
      then qc_epoll_init True now ls (CSocket_ctor cf (empty_memory fill junk) K) else None)"

lemma started_spec:
  assumes "started cf fill junk K now ls = Some (ls', s)"
  shows "worker_inv (2 * length ls) s" and "map lfd ls' = map lfd ls"
    and "\<forall>l \<in> set ls'. \<exists>p. listens s l p"
    and "in_use (spool s) = {p. \<exists>l \<in> set ls'. lconnection l = Some p}"
    and "\<forall>k. k \<notin> set (map lfd ls) \<longrightarrow> k_epoll (skern s) k = k_epoll K k" and "sconf s = cf"
proof -
  let ?c = "CSocket_ctor cf (empty_memory fill junk) K"
  let ?s = "?c\<lparr>spool := initconnection (m_worker_connections (sconf ?c)) now (spool ?c)\<rparr>"
  have ls: "distinct (map lfd ls)" "-1 \<notin> set (map lfd ls)" "0 < m_iWaitTime (m_timerconf cf)"
    and run: "init_listeners now 0 ls ?s = Some (ls', s)"
    using assms by (auto simp: started_def qc_epoll_init_def split: if_splits)
  note I = worker_inv_initconnection [OF ls(3) refl, where f = fill and h = junk and K = K and now = now
    and w = "m_worker_connections (sconf ?c)"]
  have "\<forall>l \<in> set ls. sock_fresh ?s (lfd l)" using ls(2) I(2) by (auto simp: sock_fresh_def image_iff)
  note sp = init_listeners_spec [OF run I(1) ls(1) this]
  show "worker_inv (2 * length ls) s" using sp by (simp add: inv_step_def)
  show "map lfd ls' = map lfd ls" using sp by blast
  show "\<forall>l \<in> set ls'. \<exists>p. listens s l p" using sp by blast
  show "in_use (spool s) = {p. \<exists>l \<in> set ls'. lconnection l = Some p}" using sp I(2) by simp
  show "\<forall>k. k \<notin> set (map lfd ls) \<longrightarrow> k_epoll (skern s) k = k_epoll K k"
    using sp by (simp add: CSocket_ctor_def)
  show "sconf s = cf" using sp by (simp add: CSocket_ctor_def)
qed

lemma run_inv:
  assumes "started cf fill junk K now ls = Some (ls', s)" and "worker_run False n s t"
    and "2 * length ls + n < 2 ^ 64"
  shows "inv_step (2 * length ls) n s t"
  by (rule worker_run_inv [OF assms(2) started_spec(1) [OF assms(1)] assms(3)])

text \<open>Every reachable state satisfies the invariant, unless a defect came first.\<close>

lemma run_inv_or_defect:
  assumes "started cf fill junk K now ls = Some (ls', s)" and "worker_run d n s t"
    and "2 * length ls + n < 2 ^ 64"
  shows "inv_step (2 * length ls) n s t \<or> d \<and> after_defect s t"
  using run_first_defect [OF assms(2)] run_inv [OF assms(1) _ assms(3)] by blast

section \<open>Properties\<close>

text \<open>
  After a successful \<open>qc_epoll_init\<close> exactly the listening sockets have connection objects:
  each is in use, holds the descriptor of its socket, is registered in epoll for reading and has
  the accept handler; no other descriptor was registered.
\<close>

theorem epoll_init_ready:
  assumes "started cf fill junk K now ls = Some (ls', s)"
  shows "map lfd ls' = map lfd ls
    \<and> (\<forall>l \<in> set ls'. \<exists>p. lconnection l = Some p \<and> p \<in> in_use (spool s) \<and> fd (cn s p) = lfd l
         \<and> rhandler (cn s p) = Some H_event_accept \<and> k_epoll (skern s) (lfd l) = Some (EPOLLIN OR EPOLLRDHUP, p))
    \<and> in_use (spool s) = {p. \<exists>l \<in> set ls'. lconnection l = Some p}
    \<and> (\<forall>k. k \<notin> set (map lfd ls) \<longrightarrow> k_epoll (skern s) k = k_epoll K k)"
  using started_spec [OF assms] by (simp add: listens_def)

text \<open>
  C2. In every state a worker reaches, unless one of the two defective \<open>EPOLLOUT\<close> events came before
  (\<open>after_defect\<close>; the runs with \<open>d = False\<close> are those without), no access to a released or
  foreign buffer has happened and nothing was released twice, and every live buffer has exactly one
  owner: a place in the send queue, the receive queue or the timer queue, or the receive or send
  pointer of one connection. So no buffer is leaked, whatever the order of events, jobs and rounds of
  the threads.
\<close>

theorem run_keeps_account:
  assumes "started cf fill junk K now ls = Some (ls', s)" and "worker_run d n s t"
    and "2 * length ls + n < 2 ^ 64"
  shows "mem_faults (smem t) = []
    \<and> distinct (m_MsgSendQueue t @ m_MsgRecvQueue t @ timer_addrs (stimer t)
         @ concat (map (\<lambda>p. conn_bufs (cn t p)) (m_connectionList (spool t))))
    \<and> live (smem t) = set (m_MsgSendQueue t) \<union> set (m_MsgRecvQueue t) \<union> set (timer_addrs (stimer t))
         \<union> (\<Union>p \<in> set (m_connectionList (spool t)). set (conn_bufs (cn t p)))
    \<or> d \<and> after_defect s t"
  using run_inv_or_defect [OF assms]
proof
  assume "inv_step (2 * length ls) n s t"
  then have "acct {#} t" by (simp add: inv_step_def worker_inv_def)
  then show ?thesis using acct_places [of t] by (simp add: acct_def)
qed blast

text \<open>
  C7. In every state a worker reaches, unless one of the two defective \<open>EPOLLOUT\<close> events came before,
  the connections in use have distinct open descriptors and all others have none, the receive state
  of each is one of the four states of the parser with its buffer and count to match, at most one
  packet per connection waits for \<open>EPOLLOUT\<close>, the queue counters are the lengths of the queues, and
  no more users than \<open>worker_connections\<close> are counted.
\<close>

theorem run_connections_consistent:
  assumes "started cf fill junk K now ls = Some (ls', s)" and "worker_run d n s t"
    and "2 * length ls + n < 2 ^ 64"
  shows "inj_on (\<lambda>p. fd (cn t p)) (in_use (spool t))
    \<and> (\<forall>p \<in> set (m_connectionList (spool t)). p \<in> in_use (spool t) \<longleftrightarrow> fd (cn t p) \<noteq> -1)
    \<and> (\<forall>p \<in> in_use (spool t). recv_ok (smem t) p (cn t p) \<and> send_ok (smem t) (cn t p))
    \<and> m_iSendMsgQueueCount t = int (length (m_MsgSendQueue t))
    \<and> m_iRecvMsgQueueCount t = int (length (m_MsgRecvQueue t))
    \<and> m_onlineUserCount (spool t) \<le> max 0 (m_worker_connections (sconf t))
    \<or> d \<and> after_defect s t"
  using run_inv_or_defect [OF assms]
proof
  assume "inv_step (2 * length ls) n s t"
  then have "worker_inv (2 * length ls + n) t" by (simp add: inv_step_def)
  then show ?thesis by (auto simp: worker_inv_def fds_ok_def conns_ok_def queues_ok_def)
qed blast

text \<open>
  C4. A message never reaches a later user of its connection: once the connection a message was
  stamped for has been closed, the sequence number no longer agrees, however often the object is
  reused, and every consumer of a message (sending thread, thread pool, timer) drops it. (For runs
  without the two defective events.)
\<close>

theorem closed_connection_rejected:
  assumes "started cf fill junk K now ls = Some (ls', s0)" and "worker_run False n s0 s"
    and "worker_run False i s u" and "worker_run False j u t" and "2 * length ls + (n + (i + j)) < 2 ^ 64"
    and "p \<in> in_use (spool s)" and "p \<notin> in_use (spool u)"
  shows "cseq (cn t p) \<noteq> cseq (cn s p)
    \<and> (\<forall>a. hdr (smem t) a = \<lparr>pConn = p, iCurrsequence = cseq (cn s p)\<rparr> \<longrightarrow> \<not> current t a)"
proof -
  have I: "inv_step (2 * length ls) n s0 s" using assms(5) by (intro run_inv [OF assms(1,2)]) simp
  have J: "inv_step (2 * length ls + n) i s u"
    using assms(5) by (intro worker_run_inv [OF assms(3) inv_step_inv [OF I]]) simp
  have L: "inv_step (2 * length ls + n + i) j u t"
    using assms(5) by (intro worker_run_inv [OF assms(4) inv_step_inv [OF J]]) simp
  obtain k where k: "k \<le> i" "cseq (cn u p) = cseq (cn s p) + of_nat k" "k \<noteq> 0"
    using J assms(6,7) unfolding inv_step_def seq_step_def by blast
  obtain l where l: "l \<le> j" "cseq (cn t p) = cseq (cn u p) + of_nat l"
    using L unfolding inv_step_def seq_step_def by blast
  have "cseq (cn t p) = cseq (cn s p) + of_nat (k + l)" using k(2) l(2) by (simp add: add.assoc)
  moreover have "cseq (cn s p) + of_nat (k + l) \<noteq> cseq (cn s p)"
    using k(1,3) l(1) assms(5) by (intro word_add_of_nat_neq) simp_all
  ultimately show ?thesis by (simp add: current_def conn_of_def)
qed


section \<open>The event loop\<close>

text \<open>
  What the kernel reports fits the state at the time the event is handled: the object has a
  handler for it and has not been recycled, and a new descriptor is not open. Then a call of
  \<open>qc_epoll_process_events\<close> is a run: one step for the \<open>EPOLLIN\<close> part of an event and one for its
  \<open>EPOLLOUT\<close> part.
\<close>

definition in_event :: "event_io \<Rightarrow> connptr \<Rightarrow> server \<Rightarrow> bool" where
  "in_event io p s \<longleftrightarrow>
     rhandler (cn s p) = Some H_event_accept
       \<and> (\<forall>b sock addr. io_acc io b = Accepted sock addr \<longrightarrow> sock_fresh s sock)
     \<or> rhandler (cn s p) = Some H_read_request \<and> closable s p"

fun event_fits :: "connptr \<times> u32 \<times> event_io \<Rightarrow> server \<Rightarrow> bool" where
  "event_fits (p, revents, io) s \<longleftrightarrow>
     (revents AND EPOLLIN \<noteq> 0 \<longrightarrow> in_event io p s)
     \<and> (revents AND EPOLLOUT \<noteq> 0 \<longrightarrow> out_event revents p (if revents AND EPOLLIN \<noteq> 0 then event_in io p s else s))"

fun events_fit :: "(connptr \<times> u32 \<times> event_io) list \<Rightarrow> server \<Rightarrow> bool" where
  "events_fit [] s \<longleftrightarrow> True"
| "events_fit (e # es) s \<longleftrightarrow> event_fits e s \<and> events_fit es (handle_event e s)"

lemma event_in_run: "in_event io p s \<Longrightarrow> \<exists>j \<le> 2. worker_run d j s (event_in io p s)"
  unfolding in_event_def
proof (elim disjE conjE)
  assume a: "rhandler (cn s p) = Some H_event_accept"
    "\<forall>b sock addr. io_acc io b = Accepted sock addr \<longrightarrow> sock_fresh s sock"
  then have "worker_step d 2 s (event_in io p s)" by (intro worker_step.accept) blast+
  then show ?thesis using worker_run_one by blast
next
  assume a: "rhandler (cn s p) = Some H_read_request" "closable s p"
  then have "worker_run d 1 s (event_in io p s)" by (intro worker_run_one worker_step.read)
  then show ?thesis using one_le_numeral by blast
qed

lemma event_out_run: "out_event revents p s \<Longrightarrow> worker_run True 0 s (event_out revents io p s)"
  by (rule worker_run_one) (auto intro: worker_step.writable)

lemma handle_event_run:
  assumes "event_fits e s"
  shows "\<exists>j \<le> 2. worker_run True j s (handle_event e s)"
proof -
  obtain p revents io where e: "e = (p, revents, io)" by (cases e)
  let ?s = "if revents AND EPOLLIN \<noteq> 0 then event_in io p s else s"
  have "\<exists>j \<le> 2. worker_run True j s ?s"
    using assms event_in_run [of io p s] worker_run.stay [of True s] by (auto simp: e)
  then obtain j where j: "j \<le> 2" "worker_run True j s ?s" by blast
  have "worker_run True 0 ?s (if revents AND EPOLLOUT \<noteq> 0 then event_out revents io p ?s else ?s)"
    using assms event_out_run [of revents p ?s io] worker_run.stay [of True ?s] by (simp add: e)
  from worker_run_trans [OF j(2) this] j(1) show ?thesis by (auto simp: e handle_event_def Let_def)
qed

lemma events_run: "events_fit es s \<Longrightarrow> \<exists>j \<le> 2 * length es. worker_run True j s (fold handle_event es s)"
proof (induction es arbitrary: s)
  case Nil
  show ?case using worker_run.stay by auto
next
  case (Cons e es)
  obtain i where i: "i \<le> 2" "worker_run True i s (handle_event e s)"
    using handle_event_run [of e s] Cons.prems by (simp only: events_fit.simps) blast
  obtain j where j: "j \<le> 2 * length es" "worker_run True j (handle_event e s) (fold handle_event es (handle_event e s))"
    using Cons by auto
  from worker_run_trans [OF i(2) j(2)] i(1) j(1) show ?case by (auto intro!: exI [of _ "i + j"])
qed

section \<open>An error event for a pending packet\<close>

text \<open>
  C36. The branch of the event loop for \<open>EPOLLOUT\<close> with an error bit takes \<open>iThrowsendCount\<close> down
  without looking whether a packet is pending. If one is (\<open>a\<close>) and the connection is still open,
  the next round of the sending thread overwrites the pointer with the next packet (\<open>b\<close>): the
  buffer \<open>a\<close> stays live with no owner, so it is leaked.
\<close>

theorem out_error_leaks_packet:
  assumes "acct {#} s" and "m_MsgSendQueue s = [b]" and "pkg_ok (smem s) b" and "current s b"
    and "p = conn_of s b" and "p \<in> in_use (spool s)" and "psendMemPointer (cn s p) = Some a"
    and "iThrowsendCount (cn s p) = 1" and "m_iSendMsgQueueCount s = 1" and "out_error revents"
    and "ServerSendQueueThread 0 interrupted (event_out revents io p s) = Some (t, stop)"
  shows "a \<in> live (smem t) \<and> a \<notin># owned t"
proof -
  let ?e = "event_out revents io p s"
  have e: "?e = upd_cn p (\<lambda>c. c\<lparr>iThrowsendCount := iThrowsendCount c - 1\<rparr>) s"
    using assms(10) by (simp add: event_out_def)
  obtain s1 where s1: "sem_wait interrupted ?e = Some s1"
    using assms(11) by (cases "sem_wait interrupted ?e") (simp_all add: ServerSendQueueThread_def)
  then have sw: "s1 = ?e \<or> s1 = ?e\<lparr>m_semEventSendQueue := m_semEventSendQueue ?e - 1\<rparr>"
    by (auto simp: sem_wait_def split: if_splits)
  let ?d = "s1\<lparr>m_MsgSendQueue := [], m_iSendMsgQueueCount := 0\<rparr>"
  have q: "m_MsgSendQueue s1 = [b]" "m_iSendMsgQueueCount s1 = 1" "smem s1 = smem s"
    "cn s1 p = (cn s p)\<lparr>iThrowsendCount := 0\<rparr>"
    using sw assms(2,8,9) by (auto simp: e)
  have q5: "acct {#} s1" using sw assms(1) by (auto simp: e acct_upd_cn conn_bufs_def)
  have t: "t = send_one b p ?d"
    using assms(4,5,11) q s1 by (auto simp: ServerSendQueueThread_def Let_def current_def conn_of_def)
  have A: "acct {#b#} ?d" using acct_dequeue_send [OF q5, of "[]" b "[]" 0] q(1) by simp
  have p: "p \<in> set (m_connectionList (spool ?d))" using sw in_use_listed [OF assms(6)] by (auto simp: e)
  \<comment> \<open>the pointer is overwritten before it is read, so forgetting it first changes nothing\<close>
  let ?f = "upd_cn p (\<lambda>c. c\<lparr>psendMemPointer := None\<rparr>) ?d"
  have "start_send b p ?f = start_send b p ?d"
    by (simp add: start_send_def upd_cn_def upd_conn_def)
  then have t': "t = send_one b p ?f" by (simp only: t send_one_def)
  have "pool_bufs (spool ?d) = add_mset a (pool_bufs (spool ?f))"
    using pool_bufs_upd [of "spool ?d" p "\<lambda>c. c\<lparr>psendMemPointer := None\<rparr>"] A p assms(7) q(4)
    by (simp add: acct_def conn_bufs_def upd_cn_def)
  then have A': "acct (add_mset b {#a#}) ?f" using A by (simp add: acct_def owned_def upd_cn_def)
  have At: "acct {#a#} t"
    by (rule send_one_outcome(1) [OF A' _ _ _ _ t']) (use p q assms(3) in \<open>simp_all add: send_ok_def pkg_ok_def\<close>)
  have "a \<in> live (smem t)" by (rule acct_live [OF At]) simp
  moreover have "a \<notin># owned t" using acct_disjoint [OF At, of "owned t" "{#a#}" a a] by (auto simp: subseteq_mset_def)
  ultimately show ?thesis ..
qed


section \<open>Witnesses\<close>

text \<open>
  A worker started on one listening socket; a user connects to it and then closes its connection.
\<close>

definition demo_ls :: "qc_listening list" where
  "demo_ls = [\<lparr>lport = 80, lfd = 5, lconnection = None\<rparr>]"

definition demo_start :: "(qc_listening list \<times> server) option" where
  "demo_start = started default_conf (\<lambda>_ _. 0) (\<lambda>_. \<lparr>pConn = 0, iCurrsequence = 0\<rparr>) quiet_kernel 0 demo_ls"

definition demo_io :: event_io where
  "demo_io = \<lparr>io_recv = RecvEOF, io_acc = (\<lambda>_. Accepted 7 [1, 2]), io_ioctl = True, io_now = 0, io_ms = 0\<rparr>"

lemma demo_start_facts:
  obtains s where "demo_start = Some ([\<lparr>lport = 80, lfd = 5, lconnection = Some 0\<rparr>], s)"
    "m_connectionList (spool s) = [0]" "m_freeconnectionList (spool s) = []"
    "m_recyconnectionList (spool s) = []"
    "next_conn (spool s) = 1" "m_onlineUserCount (spool s) = 0" "sconf s = default_conf" "use_accept4 s"
    "k_ctl (skern s) = []" "k_epoll (skern s) 7 = None" "rhandler (cn s 0) = Some H_event_accept"
    "fd (cn s 0) = 5"
  by (rule that [OF _ ])
    (auto simp: demo_start_def started_def demo_ls_def default_conf_def qc_epoll_init_def CSocket_ctor_def
      quiet_kernel_def initconnection_def new_conn_def empty_pool_def Let_def qc_get_connection_def
      qc_epoll_oper_event_def sys_epoll_ctl_def upd_cn_def upd_conn_def)


lemma demo_run:
  obtains s u t where "demo_start = Some ([\<lparr>lport = 80, lfd = 5, lconnection = Some 0\<rparr>], s)"
    "u = event_in demo_io 0 s" "worker_run False 2 s u" "1 \<in> in_use (spool u)" "cseq (cn u 1) = 1"
    "worker_run False 1 u t" "1 \<notin> in_use (spool t)"
proof (rule demo_start_facts)
  fix s
  assume s: "demo_start = Some ([\<lparr>lport = 80, lfd = 5, lconnection = Some 0\<rparr>], s)"
    "m_connectionList (spool s) = [0]" "m_freeconnectionList (spool s) = []" "m_recyconnectionList (spool s) = []"
    "next_conn (spool s) = 1" "m_onlineUserCount (spool s) = 0" "sconf s = default_conf" "use_accept4 s"
    "k_ctl (skern s) = []" "k_epoll (skern s) 7 = None" "rhandler (cn s 0) = Some H_event_accept" "fd (cn s 0) = 5"
  let ?u = "event_in demo_io 0 s"
  let ?t = "event_in demo_io 1 ?u"
  have use: "in_use (spool s) = {0}" using s(2,3,4) by (simp add: in_use_def)
  have "worker_step False 2 s ?u"
    using s(11) by (intro worker_step.accept) (auto simp: demo_io_def sock_fresh_def use s(12))
  then have r1: "worker_run False 2 s ?u" by (rule worker_run_one)
  have "?u = accept_conn 0 7 [1, 2] True 0 s"
    using s by (simp add: event_in_def call_ev_handler_def demo_io_def qc_event_accept.simps [of 0 _ True 0 s]
        accept_new_def default_conf_def as_size_t_def)
  then have u: "1 \<in> in_use (spool ?u)" "rhandler (cn ?u 1) = Some H_read_request" "cseq (cn ?u 1) = 1"
    using s by (simp_all add: accept_conn_def qc_get_connection_def new_conn_def Let_def setnonblocking_def
        qc_epoll_oper_event_def sys_epoll_ctl_def upd_cn_def upd_conn_def in_use_def default_conf_def
        GetOneToUse_def qc_connection_init_def)
  then have "worker_step False 1 ?u ?t" by (intro worker_step.read) (simp_all add: closable_def)
  then have r2: "worker_run False 1 ?u ?t" by (rule worker_run_one)
  have "?t = zdClosesocketProc 1 0 ?u"
    using u(2) by (simp add: event_in_def call_ev_handler_def demo_io_def qc_read_request_handler_def recvproc_def
        sys_recv_def)
  then have "1 \<notin> in_use (spool ?t)"
    by (simp add: zdClosesocketProc_def Let_def in_use_recy)
  with s(1) r1 u(1,3) r2 show thesis by (intro that [OF _ refl])
qed

theorem epoll_init_ready_witness:
  "\<exists>s. demo_start = Some ([\<lparr>lport = 80, lfd = 5, lconnection = Some 0\<rparr>], s)
     \<and> in_use (spool s) = {0} \<and> k_epoll (skern s) 5 = Some (EPOLLIN OR EPOLLRDHUP, 0)"
proof (rule demo_run)
  fix s assume s: "demo_start = Some ([\<lparr>lport = 80, lfd = 5, lconnection = Some 0\<rparr>], s)"
  from epoll_init_ready [OF s [unfolded demo_start_def]] s show ?thesis by auto
qed

theorem run_keeps_account_witness:
  "\<exists>ls s t. demo_start = Some (ls, s) \<and> worker_run False 2 s t \<and> 1 \<in> in_use (spool t) \<and> mem_faults (smem t) = []"
proof (rule demo_run)
  fix s u
  assume s: "demo_start = Some ([\<lparr>lport = 80, lfd = 5, lconnection = Some 0\<rparr>], s)" "worker_run False 2 s u"
    "1 \<in> in_use (spool u)"
  have "2 * length demo_ls + 2 < 2 ^ 64" by (simp add: demo_ls_def)
  from run_keeps_account [OF s(1) [unfolded demo_start_def] s(2) this] s show ?thesis by blast
qed

theorem run_connections_consistent_witness:
  "\<exists>ls s t. demo_start = Some (ls, s) \<and> worker_run False 2 s t \<and> 1 \<in> in_use (spool t)
     \<and> recv_ok (smem t) 1 (cn t 1) \<and> m_onlineUserCount (spool t) \<le> max 0 (m_worker_connections (sconf t))"
proof (rule demo_run)
  fix s u
  assume s: "demo_start = Some ([\<lparr>lport = 80, lfd = 5, lconnection = Some 0\<rparr>], s)" "worker_run False 2 s u"
    "1 \<in> in_use (spool u)"
  have "2 * length demo_ls + 2 < 2 ^ 64" by (simp add: demo_ls_def)
  from run_connections_consistent [OF s(1) [unfolded demo_start_def] s(2) this] s show ?thesis by blast
qed

theorem closed_connection_rejected_witness:
  "\<exists>ls s u t. demo_start = Some (ls, s) \<and> worker_run False 2 s u \<and> 1 \<in> in_use (spool u)
     \<and> worker_run False 1 u t \<and> cseq (cn t 1) \<noteq> cseq (cn u 1)"
proof (rule demo_run)
  fix s u t
  assume s: "demo_start = Some ([\<lparr>lport = 80, lfd = 5, lconnection = Some 0\<rparr>], s)" "worker_run False 2 s u"
    "worker_run False 1 u t" "1 \<in> in_use (spool u)" "1 \<notin> in_use (spool t)"
  have "2 * length demo_ls + (2 + (1 + 0)) < 2 ^ 64" by (simp add: demo_ls_def)
  from closed_connection_rejected [OF s(1) [unfolded demo_start_def] s(2,3) worker_run.stay this s(4,5)] s
  show ?thesis by blast
qed

text \<open>The connection of \<open>demo_pending\<close>, whose first packet waits, with a second packet in the queue.\<close>

definition demo_second :: server where
  "demo_second = (let (b, m) = AllocMemory 24 False (smem demo_pending)
     in demo_pending\<lparr>smem := write_obj b demo_msg m, m_MsgSendQueue := [b], m_iSendMsgQueueCount := 1,
          m_semEventSendQueue := 1\<rparr>)"

lemma demo_second_facts:
  obtains b where "acct {#} demo_second" "m_MsgSendQueue demo_second = [b]" "pkg_ok (smem demo_second) b"
    "current demo_second b" "conn_of demo_second b = 0" "0 \<in> in_use (spool demo_second)"
    "psendMemPointer (cn demo_second 0) = Some 0" "iThrowsendCount (cn demo_second 0) = 1"
    "m_iSendMsgQueueCount demo_second = 1" "m_semEventSendQueue demo_second = 1"
proof -
  obtain b m where al: "AllocMemory 24 False (smem demo_pending) = (b, m)" by fastforce
  let ?s = "demo_pending\<lparr>smem := write_obj b demo_msg m\<rparr>"
  have A1: "acct {#b#} (demo_pending\<lparr>smem := m\<rparr>)" using acct_alloc [OF demo_pending_facts(1) al] .
  have b: "b \<in> live m" using acct_live [OF A1, of b] by simp
  have As: "acct {#b#} ?s" using A1 acct_write [of b "demo_pending\<lparr>smem := m\<rparr>" "{#b#}" demo_msg] b by simp
  have d: "demo_second = ?s\<lparr>m_MsgSendQueue := [b], m_iSendMsgQueueCount := 1, m_semEventSendQueue := 1\<rparr>"
    by (simp add: demo_second_def al)
  have q: "m_MsgSendQueue demo_pending = []" by (simp add: demo_pending_def)
  have rd: "read_obj b (smem demo_second) = demo_msg" using b by (simp add: d)
  have "e_pkgLen (mb_pkg demo_msg) = 8" by (simp add: demo_msg_def e_pkgLen_def load_u16_def ntohs_def)
  then have c: "cseq (cn demo_pending 0) = 1"
    by (simp add: demo_pending_def send_one_def start_send_def sendproc_def buf_bytes_def
        send_loop_step sys_send_def GetOneToUse_def Let_def demo_msg_def qc_connection_init_def
        throttle_def qc_epoll_oper_event_def case_prod_beta)
  have "send_ok (smem demo_pending) (cn demo_pending 0)" using demo_pending_facts(2,3) by (simp add: conns_send_ok_def)
  then have "iThrowsendCount (cn demo_pending 0) = 1" by (simp add: send_ok_def demo_pending_buf)
  moreover have "acct {#} demo_second" using acct_enqueue_send [OF As, of 1] by (simp add: d q)
  moreover have "conn_of demo_second b = 0" "current demo_second b" "pkg_ok (smem demo_second) b"
    using rd c by (simp_all add: conn_of_def current_def hdr_def pkg_ok_def queued_pkg_def)
      (simp_all add: d demo_msg_def e_pkgLen_def load_u16_def ntohs_def)
  ultimately show thesis using demo_pending_buf demo_pending_facts(3) by (intro that [of b]) (simp_all add: d)
qed

theorem out_error_leaks_packet_witness:
  "\<exists>t stop. ServerSendQueueThread 0 False (event_out EPOLLERR demo_io 0 demo_second) = Some (t, stop)
     \<and> 0 \<in> live (smem t) \<and> 0 \<notin># owned t"
proof (rule demo_second_facts)
  fix b
  assume d: "acct {#} demo_second" "m_MsgSendQueue demo_second = [b]" "pkg_ok (smem demo_second) b"
    "current demo_second b" "conn_of demo_second b = 0" "0 \<in> in_use (spool demo_second)"
    "psendMemPointer (cn demo_second 0) = Some 0" "iThrowsendCount (cn demo_second 0) = 1"
    "m_iSendMsgQueueCount demo_second = 1" "m_semEventSendQueue demo_second = 1"
  have e: "out_error EPOLLERR" by (simp add: EPOLLERR_def EPOLLHUP_def EPOLLRDHUP_def)
  then obtain t stop where t: "ServerSendQueueThread 0 False (event_out EPOLLERR demo_io 0 demo_second) = Some (t, stop)"
    using d(9,10) by (simp add: ServerSendQueueThread_def sem_wait_def event_out_def)
  from out_error_leaks_packet [OF d(1-4) d(5) [symmetric] d(6-9) e t] t show ?thesis by blast
qed

end
