(* ===== verification/QcThreadPool.thy ===== *)
theory QcThreadPool
  imports QcPrelude
begin

text \<open>
  The thread pool (misc/qc\_threadpool.cc, include/qc\_threadpool.h) at the level of its mutex and
  condition variable: every worker thread and the main thread of the process is a program counter,
  and a step is what one thread does between two points where another can run.
\<close>

section \<open>State\<close>

text \<open>
  Where a thread of the pool is in \<open>ThreadFunc\<close>. \<open>T_none\<close>: not created yet; \<open>T_lock\<close>: in
  \<open>pthread_mutex_lock\<close>; \<open>T_test\<close>: at the condition of the inner \<open>while\<close>; \<open>T_sleep\<close>: about
  to call \<open>pthread_cond_wait\<close>; \<open>T_wait\<close>: blocked in it; \<open>T_wake\<close>: woken, taking the mutex
  again; \<open>T_leave\<close>: after the inner loop; \<open>T_job\<close>: has unlocked with a message taken;
  \<open>T_run\<close>: in \<open>threadRecvProcFunc\<close>; \<open>T_done\<close>: returned.
\<close>

datatype 'm thread_pc =
    T_none | T_lock | T_test | T_sleep | T_wait | T_wake | T_leave | T_job 'm | T_run 'm | T_done

text \<open>
  Where the main thread is: in \<open>Create\<close> before the \<open>i\<close>-th thread, waiting for all to run, failed,
  outside of the pool, in \<open>inMsgRecvQueueAndSignal\<close> with the mutex, in \<open>Call\<close>, in \<open>StopAll\<close>
  before the broadcast, joining the \<open>i\<close>-th thread, after \<open>StopAll\<close>.
\<close>

datatype 'm main_pc =
    M_create nat | M_await | M_failed | M_idle | M_push 'm | M_call | M_broadcast | M_join nat | M_stopped

datatype owner = Main | Worker nat

text \<open>
  \<open>pushed\<close>, \<open>taken\<close> and \<open>finished\<close> record history: the messages put in the queue, taken from it, and
  handled and freed. \<open>front_empty\<close> says that \<open>front\<close> was called on an empty list.
\<close>

record 'm tpool =
  m_iThreadNum :: nat
  m_pthreadMutex :: "owner option"
  m_shutdown :: bool
  tq_queue :: "'m list"
  tq_count :: int
  m_iRunningThreadNum :: int
  m_iLastEmgTime :: int
  thread_pc :: "nat \<Rightarrow> 'm thread_pc"
  ifrunning :: "nat \<Rightarrow> bool"
  main_pc :: "'m main_pc"
  pushed :: "'m list"
  taken :: "'m list"
  finished :: "'m list"
  front_empty :: bool

definition set_pc :: "nat \<Rightarrow> 'm thread_pc \<Rightarrow> 'm tpool \<Rightarrow> 'm tpool" where
  "set_pc i pc s = s\<lparr>thread_pc := (thread_pc s)(i := pc)\<rparr>"

text \<open>\<open>CThreadPool::CThreadPool\<close> and the entry of \<open>Create(n)\<close>.\<close>

definition CThreadPool_ctor :: "nat \<Rightarrow> 'm tpool" where
  "CThreadPool_ctor n = \<lparr>m_iThreadNum = n, m_pthreadMutex = None, m_shutdown = False, tq_queue = [],
     tq_count = 0, m_iRunningThreadNum = 0, m_iLastEmgTime = 0, thread_pc = (\<lambda>_. T_none),
     ifrunning = (\<lambda>_. False), main_pc = M_create 0, pushed = [], taken = [], finished = [],
     front_empty = False\<rparr>"

section \<open>Steps\<close>

text \<open>A step of the \<open>i\<close>-th thread of the pool; \<open>None\<close>: it is blocked or has ended.\<close>

definition ThreadFunc :: "nat \<Rightarrow> 'm tpool \<Rightarrow> 'm tpool option" where
  "ThreadFunc i s =
     (case thread_pc s i of
        T_none \<Rightarrow> None
      | T_lock \<Rightarrow> if m_pthreadMutex s = None then Some (set_pc i T_test (s\<lparr>m_pthreadMutex := Some (Worker i)\<rparr>)) else None
      | T_test \<Rightarrow>
          if tq_queue s = [] \<and> m_shutdown s = False
          then Some (set_pc i T_sleep (s\<lparr>ifrunning := (ifrunning s)(i := True)\<rparr>))
          else Some (set_pc i T_leave s)
      | T_sleep \<Rightarrow> Some (set_pc i T_wait (s\<lparr>m_pthreadMutex := None\<rparr>))
      | T_wait \<Rightarrow> None
      | T_wake \<Rightarrow> if m_pthreadMutex s = None then Some (set_pc i T_test (s\<lparr>m_pthreadMutex := Some (Worker i)\<rparr>)) else None
      | T_leave \<Rightarrow>
          if m_shutdown s then Some (set_pc i T_done (s\<lparr>m_pthreadMutex := None\<rparr>))
          else (case tq_queue s of
                  [] \<Rightarrow> Some (s\<lparr>front_empty := True\<rparr>)
                | jobbuf # rest \<Rightarrow>
                    Some (set_pc i (T_job jobbuf) (s\<lparr>tq_queue := rest, tq_count := tq_count s - 1,
                            taken := taken s @ [jobbuf], m_pthreadMutex := None\<rparr>)))
      | T_job jobbuf \<Rightarrow> Some (set_pc i (T_run jobbuf) (s\<lparr>m_iRunningThreadNum := m_iRunningThreadNum s + 1\<rparr>))
      | T_run jobbuf \<Rightarrow>
          Some (set_pc i T_lock (s\<lparr>finished := finished s @ [jobbuf],
                  m_iRunningThreadNum := m_iRunningThreadNum s - 1\<rparr>))
      | T_done \<Rightarrow> None)"

text \<open>\<open>Call\<close>: wake the thread \<open>w\<close>, if one waits, and note when all threads are busy.\<close>

definition Call :: "nat option \<Rightarrow> int \<Rightarrow> 'm tpool \<Rightarrow> 'm tpool" where
  "Call w currtime s =
     (let s1 = (case w of None \<Rightarrow> s | Some i \<Rightarrow> set_pc i T_wake s)
      in if int (m_iThreadNum s1) = m_iRunningThreadNum s1 \<and> currtime - m_iLastEmgTime s1 > 10
         then s1\<lparr>m_iLastEmgTime := currtime\<rparr> else s1)"

definition cond_broadcast :: "'m tpool \<Rightarrow> 'm tpool" where
  "cond_broadcast s =
     s\<lparr>thread_pc := (\<lambda>i. if thread_pc s i = T_wait then T_wake else thread_pc s i)\<rparr>"

text \<open>
  The steps of the pool. \<open>pthread_cond_signal\<close> wakes a thread that waits, if there is one; the
  thread it picks is not determined. A thread may also wake for no reason (\<open>spurious\<close>), which
  POSIX allows; \<open>tp_step True\<close> includes that.
\<close>

inductive tp_step :: "bool \<Rightarrow> 'm tpool \<Rightarrow> 'm tpool \<Rightarrow> bool" for sp :: bool where
  thread: "i < m_iThreadNum s \<Longrightarrow> ThreadFunc i s = Some t \<Longrightarrow> tp_step sp s t"
| spurious: "sp \<Longrightarrow> i < m_iThreadNum s \<Longrightarrow> thread_pc s i = T_wait \<Longrightarrow> tp_step sp s (set_pc i T_wake s)"
| create: "main_pc s = M_create i \<Longrightarrow> i < m_iThreadNum s \<Longrightarrow>
    tp_step sp s (set_pc i T_lock (s\<lparr>main_pc := M_create (Suc i)\<rparr>))"
| create_failed: "main_pc s = M_create i \<Longrightarrow> i < m_iThreadNum s \<Longrightarrow> tp_step sp s (s\<lparr>main_pc := M_failed\<rparr>)"
| created: "main_pc s = M_create i \<Longrightarrow> \<not> i < m_iThreadNum s \<Longrightarrow> tp_step sp s (s\<lparr>main_pc := M_await\<rparr>)"
| all_running: "main_pc s = M_await \<Longrightarrow> \<forall>i < m_iThreadNum s. ifrunning s i \<Longrightarrow>
    tp_step sp s (s\<lparr>main_pc := M_idle\<rparr>)"
| lock: "main_pc s = M_idle \<Longrightarrow> m_pthreadMutex s = None \<Longrightarrow>
    tp_step sp s (s\<lparr>m_pthreadMutex := Some Main, main_pc := M_push buf\<rparr>)"
| push: "main_pc s = M_push buf \<Longrightarrow>
    tp_step sp s (s\<lparr>tq_queue := tq_queue s @ [buf], tq_count := tq_count s + 1, pushed := pushed s @ [buf],
      m_pthreadMutex := None, main_pc := M_call\<rparr>)"
| signal: "main_pc s = M_call \<Longrightarrow> i < m_iThreadNum s \<Longrightarrow> thread_pc s i = T_wait \<Longrightarrow>
    tp_step sp s ((Call (Some i) currtime s)\<lparr>main_pc := M_idle\<rparr>)"
| signal_none: "main_pc s = M_call \<Longrightarrow> \<forall>i < m_iThreadNum s. thread_pc s i \<noteq> T_wait \<Longrightarrow>
    tp_step sp s ((Call None currtime s)\<lparr>main_pc := M_idle\<rparr>)"
| stop: "main_pc s = M_idle \<Longrightarrow> m_shutdown s = False \<Longrightarrow>
    tp_step sp s (s\<lparr>m_shutdown := True, main_pc := M_broadcast\<rparr>)"
| broadcast: "main_pc s = M_broadcast \<Longrightarrow> tp_step sp s ((cond_broadcast s)\<lparr>main_pc := M_join 0\<rparr>)"
| join: "main_pc s = M_join i \<Longrightarrow> i < m_iThreadNum s \<Longrightarrow> thread_pc s i = T_done \<Longrightarrow>
    tp_step sp s (s\<lparr>main_pc := M_join (Suc i)\<rparr>)"
| joined: "main_pc s = M_join i \<Longrightarrow> \<not> i < m_iThreadNum s \<Longrightarrow> tp_step sp s (s\<lparr>main_pc := M_stopped\<rparr>)"

text \<open>\<open>clearMsgRecvQueue\<close>: the messages left are freed in order; the count is not reset.\<close>

fun clearMsgRecvQueue :: "'m list \<Rightarrow> ('m \<Rightarrow> 'h \<Rightarrow> 'h) \<Rightarrow> 'h \<Rightarrow> 'm list \<times> 'h" where
  "clearMsgRecvQueue [] free h = ([], h)"
| "clearMsgRecvQueue (m # ms) free h = clearMsgRecvQueue ms free (free m h)"

section \<open>The invariant\<close>

definition in_lock :: "'m thread_pc \<Rightarrow> bool" where
  "in_lock pc \<longleftrightarrow> pc = T_test \<or> pc = T_sleep \<or> pc = T_leave"

text \<open>A thread that will look at the queue again without being woken.\<close>

definition awake :: "'m thread_pc \<Rightarrow> bool" where
  "awake pc \<longleftrightarrow> pc \<noteq> T_none \<and> pc \<noteq> T_sleep \<and> pc \<noteq> T_wait \<and> pc \<noteq> T_done"

primrec jobs_of :: "'m thread_pc \<Rightarrow> 'm list" where
  "jobs_of T_none = []" | "jobs_of T_lock = []" | "jobs_of T_test = []" | "jobs_of T_sleep = []"
| "jobs_of T_wait = []" | "jobs_of T_wake = []" | "jobs_of T_leave = []" | "jobs_of (T_job m) = [m]"
| "jobs_of (T_run m) = [m]" | "jobs_of T_done = []"

primrec runs_of :: "'m thread_pc \<Rightarrow> int" where
  "runs_of T_none = 0" | "runs_of T_lock = 0" | "runs_of T_test = 0" | "runs_of T_sleep = 0"
| "runs_of T_wait = 0" | "runs_of T_wake = 0" | "runs_of T_leave = 0" | "runs_of (T_job m) = 0"
| "runs_of (T_run m) = 1" | "runs_of T_done = 0"

text \<open>The messages that are being handled, and the number of threads in a handler.\<close>

definition work :: "nat \<Rightarrow> (nat \<Rightarrow> 'm thread_pc) \<Rightarrow> 'm multiset" where
  "work n g = (\<Sum>i < n. mset (jobs_of (g i)))"

definition runs :: "nat \<Rightarrow> (nat \<Rightarrow> 'm thread_pc) \<Rightarrow> int" where
  "runs n g = (\<Sum>i < n. runs_of (g i))"

abbreviation in_work :: "'m tpool \<Rightarrow> 'm multiset" where
  "in_work s \<equiv> work (m_iThreadNum s) (thread_pc s)"

definition creating :: "'m main_pc \<Rightarrow> bool" where
  "creating M \<longleftrightarrow> (\<exists>i. M = M_create i) \<or> M = M_await \<or> M = M_failed"

definition stopping :: "'m main_pc \<Rightarrow> bool" where
  "stopping M \<longleftrightarrow> M = M_broadcast \<or> (\<exists>i. M = M_join i) \<or> M = M_stopped"

definition mutex_ok :: "'m tpool \<Rightarrow> bool" where
  "mutex_ok s \<longleftrightarrow> (\<forall>i < m_iThreadNum s. in_lock (thread_pc s i) \<longleftrightarrow> m_pthreadMutex s = Some (Worker i))
     \<and> ((\<exists>b. main_pc s = M_push b) \<longleftrightarrow> m_pthreadMutex s = Some Main)
     \<and> (\<forall>i. m_pthreadMutex s = Some (Worker i) \<longrightarrow> i < m_iThreadNum s)"

definition queue_ok :: "'m tpool \<Rightarrow> bool" where
  "queue_ok s \<longleftrightarrow> pushed s = taken s @ tq_queue s \<and> tq_count s = int (length (tq_queue s))
     \<and> mset (taken s) = mset (finished s) + in_work s
     \<and> m_iRunningThreadNum s = runs (m_iThreadNum s) (thread_pc s)"

text \<open>What the counter of one thread says of the queue \<open>q\<close> and the flags.\<close>

definition thread_ok :: "'m list \<Rightarrow> bool \<Rightarrow> bool \<Rightarrow> bool \<Rightarrow> 'm thread_pc \<Rightarrow> bool" where
  "thread_ok q sd cr r pc \<longleftrightarrow> (pc = T_sleep \<longrightarrow> q = []) \<and> (pc = T_leave \<longrightarrow> q \<noteq> [] \<or> sd) \<and> (pc = T_done \<longrightarrow> sd)
     \<and> (\<not> cr \<longrightarrow> r) \<and> (r \<longrightarrow> pc \<noteq> T_none)"

definition local_ok :: "'m tpool \<Rightarrow> bool" where
  "local_ok s \<longleftrightarrow> (\<forall>i < m_iThreadNum s.
       thread_ok (tq_queue s) (m_shutdown s) (creating (main_pc s)) (ifrunning s i) (thread_pc s i))
     \<and> \<not> front_empty s"

definition phase_ok :: "'m tpool \<Rightarrow> bool" where
  "phase_ok s \<longleftrightarrow> (m_shutdown s \<longleftrightarrow> stopping (main_pc s)) \<and> (creating (main_pc s) \<longrightarrow> tq_queue s = [])
     \<and> (\<forall>j. main_pc s = M_create j \<longrightarrow> (\<forall>i. j \<le> i \<longrightarrow> thread_pc s i = T_none))"

text \<open>A message in the queue is never left to sleeping threads.\<close>

definition wake_ok :: "'m tpool \<Rightarrow> bool" where
  "wake_ok s \<longleftrightarrow> tq_queue s \<noteq> [] \<longrightarrow> \<not> m_shutdown s \<longrightarrow> 0 < m_iThreadNum s \<longrightarrow> main_pc s \<noteq> M_call
     \<longrightarrow> (\<exists>i < m_iThreadNum s. awake (thread_pc s i))"

definition tp_inv :: "'m tpool \<Rightarrow> bool" where
  "tp_inv s \<longleftrightarrow> mutex_ok s \<and> queue_ok s \<and> local_ok s \<and> phase_ok s \<and> wake_ok s"


section \<open>Preservation\<close>

lemma set_pc_simps [simp]:
  "thread_pc (set_pc i pc s) = (thread_pc s)(i := pc)" "m_iThreadNum (set_pc i pc s) = m_iThreadNum s"
  "m_pthreadMutex (set_pc i pc s) = m_pthreadMutex s" "m_shutdown (set_pc i pc s) = m_shutdown s"
  "tq_queue (set_pc i pc s) = tq_queue s" "tq_count (set_pc i pc s) = tq_count s"
  "m_iRunningThreadNum (set_pc i pc s) = m_iRunningThreadNum s" "ifrunning (set_pc i pc s) = ifrunning s"
  "main_pc (set_pc i pc s) = main_pc s" "pushed (set_pc i pc s) = pushed s" "taken (set_pc i pc s) = taken s"
  "finished (set_pc i pc s) = finished s" "front_empty (set_pc i pc s) = front_empty s"
  "m_iLastEmgTime (set_pc i pc s) = m_iLastEmgTime s"
  by (simp_all add: set_pc_def)

lemma sum_upd_same: "(i :: nat) < n \<Longrightarrow> f x = f (g i) \<Longrightarrow> (\<Sum>k < n. f ((g(i := x)) k)) = (\<Sum>k < n. f (g k))"
  by (rule sum.cong) auto

lemma work_upd:
  "i < n \<Longrightarrow> jobs_of pc = jobs_of (g i) \<Longrightarrow> work n (g(i := pc)) = work n g"
  "i < n \<Longrightarrow> jobs_of (g i) = [] \<Longrightarrow> work n (g(i := T_job m)) = add_mset m (work n g)"
  "i < n \<Longrightarrow> g i = T_run m \<Longrightarrow> add_mset m (work n (g(i := T_lock))) = work n g"
  using sum_upd_same [of i n "\<lambda>pc. mset (jobs_of pc)" pc g] sum_fun_upd(1) [of "{..<n}" i "\<lambda>pc. mset (jobs_of pc)" g "T_job m"]
    sum_fun_upd(1) [of "{..<n}" i "\<lambda>pc. mset (jobs_of pc)" g T_lock]
  by (simp_all add: work_def)

lemma runs_upd:
  "i < n \<Longrightarrow> runs_of pc = runs_of (g i) \<Longrightarrow> runs n (g(i := pc)) = runs n g"
  "i < n \<Longrightarrow> runs_of (g i) = 0 \<Longrightarrow> runs n (g(i := T_run m)) = runs n g + 1"
  "i < n \<Longrightarrow> g i = T_run m \<Longrightarrow> runs n (g(i := T_lock)) = runs n g - 1"
  using sum_upd_same [of i n runs_of pc g] sum_fun_upd(1) [of "{..<n}" i runs_of g "T_run m"] sum_fun_upd(1) [of "{..<n}" i runs_of g T_lock]
  by (simp_all add: runs_def)

lemma queue_ok_same:
  assumes "queue_ok s" and "i < m_iThreadNum s" and "jobs_of pc = jobs_of (thread_pc s i)"
    and "runs_of pc = runs_of (thread_pc s i)"
  shows "queue_ok (set_pc i pc s)"
  using assms by (simp add: queue_ok_def work_upd(1) runs_upd(1))

lemma queue_ok_fields [simp]:
  "queue_ok (s\<lparr>m_pthreadMutex := x\<rparr>) = queue_ok s" "queue_ok (s\<lparr>ifrunning := r\<rparr>) = queue_ok s"
  "queue_ok (s\<lparr>main_pc := M\<rparr>) = queue_ok s" "queue_ok (s\<lparr>m_shutdown := b\<rparr>) = queue_ok s"
  "queue_ok (s\<lparr>m_iLastEmgTime := x'\<rparr>) = queue_ok s"
  by (simp_all add: queue_ok_def)

lemma not_running [simp]: "in_lock T_test" "in_lock T_sleep" "in_lock T_leave" "\<not> in_lock T_lock"
  "\<not> in_lock T_wait" "\<not> in_lock T_wake" "\<not> in_lock T_none" "\<not> in_lock T_done" "\<not> in_lock (T_job m)"
  "\<not> in_lock (T_run m)" "awake T_lock" "awake T_test" "awake T_wake" "awake T_leave" "awake (T_job m)"
  "awake (T_run m)" "\<not> awake T_sleep" "\<not> awake T_wait" "\<not> awake T_none" "\<not> awake T_done"
  by (simp_all add: in_lock_def awake_def)

lemma main_pc_simps [simp]:
  "creating (M_create i)" "creating M_await" "creating M_failed" "\<not> creating M_idle" "\<not> creating (M_push b)"
  "\<not> creating M_call" "\<not> creating M_broadcast" "\<not> creating (M_join i)" "\<not> creating M_stopped"
  "\<not> stopping (M_create i)" "\<not> stopping M_await" "\<not> stopping M_failed" "\<not> stopping M_idle"
  "\<not> stopping (M_push b)" "\<not> stopping M_call" "stopping M_broadcast" "stopping (M_join i)" "stopping M_stopped"
  by (simp_all add: creating_def stopping_def)

lemma ThreadFunc_queue:
  assumes "queue_ok s" and i: "i < m_iThreadNum s" and run: "ThreadFunc i s = Some t"
  shows "queue_ok t"
proof (cases "thread_pc s i")
  case T_leave
  consider "m_shutdown s" | "\<not> m_shutdown s" "tq_queue s = []" | m ms where "\<not> m_shutdown s" "tq_queue s = m # ms"
    by (cases "tq_queue s") auto
  then show ?thesis
  proof cases
    case 1
    with T_leave run queue_ok_same [of "s\<lparr>m_pthreadMutex := None\<rparr>" i T_done] assms(1) i
    show ?thesis by (simp add: ThreadFunc_def)
  next
    case 2
    with T_leave run assms(1) show ?thesis by (auto simp: ThreadFunc_def queue_ok_def)
  next
    case 3
    with T_leave run assms(1) i show ?thesis
      by (auto simp: ThreadFunc_def queue_ok_def work_upd(2) runs_upd(1))
  qed
next
  case (T_job m)
  with run assms(1) i show ?thesis by (auto simp: ThreadFunc_def queue_ok_def work_upd(1) runs_upd(2))
next
  case (T_run m)
  from work_upd(3) [OF i, of "thread_pc s" m] T_run run assms(1) i show ?thesis
    by (auto simp: ThreadFunc_def queue_ok_def runs_upd(3))
qed (use run assms(1) i in \<open>auto simp: ThreadFunc_def queue_ok_same split: if_splits\<close>)

text \<open>The three ways a thread step treats the mutex.\<close>

lemma mutex_same:
  "mutex_ok s \<Longrightarrow> i < m_iThreadNum s \<Longrightarrow> in_lock pc = in_lock (thread_pc s i) \<Longrightarrow> mutex_ok (set_pc i pc s)"
  by (simp add: mutex_ok_def)

lemma mutex_acquire:
  "mutex_ok s \<Longrightarrow> i < m_iThreadNum s \<Longrightarrow> m_pthreadMutex s = None \<Longrightarrow> in_lock pc \<Longrightarrow>
   mutex_ok (set_pc i pc (s\<lparr>m_pthreadMutex := Some (Worker i)\<rparr>))"
  by (auto simp: mutex_ok_def)

lemma mutex_release:
  "mutex_ok s \<Longrightarrow> i < m_iThreadNum s \<Longrightarrow> in_lock (thread_pc s i) \<Longrightarrow> \<not> in_lock pc \<Longrightarrow>
   mutex_ok (set_pc i pc (s\<lparr>m_pthreadMutex := None\<rparr>))"
  by (auto simp: mutex_ok_def)

lemma mutex_holder:
  "mutex_ok s \<Longrightarrow> i < m_iThreadNum s \<Longrightarrow> k < m_iThreadNum s \<Longrightarrow> in_lock (thread_pc s i) \<Longrightarrow>
   in_lock (thread_pc s k) \<Longrightarrow> k = i"
  by (auto simp: mutex_ok_def)

lemma mutex_fields [simp]:
  "mutex_ok (s\<lparr>ifrunning := r\<rparr>) = mutex_ok s" "mutex_ok (s\<lparr>front_empty := b\<rparr>) = mutex_ok s"
  "mutex_ok (s\<lparr>m_iRunningThreadNum := n\<rparr>) = mutex_ok s" "mutex_ok (s\<lparr>tq_queue := q\<rparr>) = mutex_ok s"
  "mutex_ok (s\<lparr>tq_count := c\<rparr>) = mutex_ok s" "mutex_ok (s\<lparr>taken := tk\<rparr>) = mutex_ok s"
  "mutex_ok (s\<lparr>finished := f\<rparr>) = mutex_ok s" "mutex_ok (s\<lparr>pushed := p\<rparr>) = mutex_ok s"
  "mutex_ok (s\<lparr>m_shutdown := b\<rparr>) = mutex_ok s" "mutex_ok (s\<lparr>m_iLastEmgTime := x\<rparr>) = mutex_ok s"
  by (simp_all add: mutex_ok_def)

lemma thread_ok_queue:
  "thread_ok q sd cr r pc \<Longrightarrow> \<not> in_lock pc \<Longrightarrow> thread_ok q' sd cr r pc"
  by (auto simp: thread_ok_def)

lemma local_set_pc:
  "local_ok s \<Longrightarrow> thread_ok (tq_queue s) (m_shutdown s) (creating (main_pc s)) (ifrunning s i) pc \<Longrightarrow>
   local_ok (set_pc i pc s)"
  by (simp add: local_ok_def)

lemma local_fields [simp]:
  "local_ok (s\<lparr>m_pthreadMutex := x\<rparr>) = local_ok s" "local_ok (s\<lparr>m_iRunningThreadNum := n\<rparr>) = local_ok s"
  "local_ok (s\<lparr>tq_count := c\<rparr>) = local_ok s" "local_ok (s\<lparr>taken := tk\<rparr>) = local_ok s"
  "local_ok (s\<lparr>finished := f\<rparr>) = local_ok s" "local_ok (s\<lparr>pushed := p\<rparr>) = local_ok s"
  "local_ok (s\<lparr>m_iLastEmgTime := y\<rparr>) = local_ok s"
  by (simp_all add: local_ok_def)


lemma ThreadFunc_cases:
  assumes "ThreadFunc i s = Some t"
  obtains (acquire) "thread_pc s i = T_lock \<or> thread_pc s i = T_wake" "m_pthreadMutex s = None"
      "t = set_pc i T_test (s\<lparr>m_pthreadMutex := Some (Worker i)\<rparr>)"
  | (sleep) "thread_pc s i = T_test" "tq_queue s = []" "\<not> m_shutdown s"
      "t = set_pc i T_sleep (s\<lparr>ifrunning := (ifrunning s)(i := True)\<rparr>)"
  | (leave) "thread_pc s i = T_test" "tq_queue s \<noteq> [] \<or> m_shutdown s" "t = set_pc i T_leave s"
  | (wait) "thread_pc s i = T_sleep" "t = set_pc i T_wait (s\<lparr>m_pthreadMutex := None\<rparr>)"
  | (quit) "thread_pc s i = T_leave" "m_shutdown s" "t = set_pc i T_done (s\<lparr>m_pthreadMutex := None\<rparr>)"
  | (front) "thread_pc s i = T_leave" "\<not> m_shutdown s" "tq_queue s = []" "t = s\<lparr>front_empty := True\<rparr>"
  | (take) m ms where "thread_pc s i = T_leave" "\<not> m_shutdown s" "tq_queue s = m # ms"
      "t = set_pc i (T_job m) (s\<lparr>tq_queue := ms, tq_count := tq_count s - 1, taken := taken s @ [m],
         m_pthreadMutex := None\<rparr>)"
  | (start) m where "thread_pc s i = T_job m"
      "t = set_pc i (T_run m) (s\<lparr>m_iRunningThreadNum := m_iRunningThreadNum s + 1\<rparr>)"
  | (finish) m where "thread_pc s i = T_run m"
      "t = set_pc i T_lock (s\<lparr>finished := finished s @ [m], m_iRunningThreadNum := m_iRunningThreadNum s - 1\<rparr>)"
proof (cases "thread_pc s i")
  case T_lock
  with assms show thesis by (intro acquire) (simp_all add: ThreadFunc_def split: if_splits)
next
  case T_test
  show thesis
  proof (cases "tq_queue s = [] \<and> \<not> m_shutdown s")
    case True with T_test assms show thesis by (intro sleep) (simp_all add: ThreadFunc_def)
  next
    case False with T_test assms show thesis by (intro leave) (auto simp: ThreadFunc_def)
  qed
next
  case T_sleep
  with assms show thesis by (intro wait) (simp_all add: ThreadFunc_def)
next
  case T_wake
  with assms show thesis by (intro acquire) (simp_all add: ThreadFunc_def split: if_splits)
next
  case T_leave
  show thesis
  proof (cases "m_shutdown s")
    case True with T_leave assms show thesis by (intro quit) (simp_all add: ThreadFunc_def)
  next
    case False
    show thesis
    proof (cases "tq_queue s")
      case Nil with False T_leave assms show thesis by (intro front) (simp_all add: ThreadFunc_def)
    next
      case (Cons m ms)
      with False T_leave assms show thesis by (intro take [of m ms]) (auto simp: ThreadFunc_def)
    qed
  qed
next
  case (T_job m)
  with assms show thesis by (intro start [of m]) (auto simp: ThreadFunc_def)
next
  case (T_run m)
  with assms show thesis by (intro finish [of m]) (auto simp: ThreadFunc_def)
next
  case T_none with assms show thesis by (simp add: ThreadFunc_def)
next
  case T_wait with assms show thesis by (simp add: ThreadFunc_def)
next
  case T_done with assms show thesis by (simp add: ThreadFunc_def)
qed

text \<open>Changing the counter of a thread that exists keeps the phase, and a thread that is awake keeps
  the queue watched.\<close>

lemma phase_set_pc:
  "phase_ok s \<Longrightarrow> thread_pc s i \<noteq> T_none \<Longrightarrow> phase_ok (set_pc i pc s)"
  by (auto simp: phase_ok_def)

lemma wake_set_pc:
  "i < m_iThreadNum s \<Longrightarrow> awake pc \<Longrightarrow> wake_ok (set_pc i pc s)"
  by (auto simp: wake_ok_def)

lemma phase_fields [simp]:
  "phase_ok (s\<lparr>m_pthreadMutex := x\<rparr>) = phase_ok s" "phase_ok (s\<lparr>m_iRunningThreadNum := n\<rparr>) = phase_ok s"
  "phase_ok (s\<lparr>tq_count := c\<rparr>) = phase_ok s" "phase_ok (s\<lparr>taken := tk\<rparr>) = phase_ok s"
  "phase_ok (s\<lparr>finished := f\<rparr>) = phase_ok s" "phase_ok (s\<lparr>pushed := p\<rparr>) = phase_ok s"
  "phase_ok (s\<lparr>ifrunning := r\<rparr>) = phase_ok s" "phase_ok (s\<lparr>m_iLastEmgTime := y\<rparr>) = phase_ok s"
  by (simp_all add: phase_ok_def)

lemma tp_inv_thread:
  assumes I: "tp_inv s" and i: "i < m_iThreadNum s" and run: "ThreadFunc i s = Some t"
  shows "tp_inv t"
proof -
  have M: "mutex_ok s" and Q: "queue_ok s" and L: "local_ok s" and P: "phase_ok s"
    using I by (simp_all add: tp_inv_def)
  have li: "thread_ok (tq_queue s) (m_shutdown s) (creating (main_pc s)) (ifrunning s i) (thread_pc s i)"
    using L i by (simp add: local_ok_def)
  have Qt: "queue_ok t" by (rule ThreadFunc_queue [OF Q i run])
  have "mutex_ok t \<and> local_ok t \<and> phase_ok t \<and> wake_ok t"
    using run
  proof (cases rule: ThreadFunc_cases)
    case acquire
    have "mutex_ok t" unfolding acquire(3) by (rule mutex_acquire [OF M i acquire(2)]) simp
    moreover have "local_ok t" unfolding acquire(3)
      by (rule local_set_pc) (use L li acquire(1) in \<open>auto simp: thread_ok_def\<close>)
    moreover have "phase_ok t" unfolding acquire(3)
      by (rule phase_set_pc) (use P acquire(1) in auto)
    moreover have "wake_ok t" unfolding acquire(3) by (rule wake_set_pc) (simp_all add: i)
    ultimately show ?thesis by blast
  next
    case sleep
    have "local_ok (s\<lparr>ifrunning := (ifrunning s)(i := True)\<rparr>)"
      using L sleep(1) by (auto simp: local_ok_def thread_ok_def)
    with sleep M P i li show ?thesis
      by (auto simp: thread_ok_def wake_ok_def intro!: mutex_same local_set_pc phase_set_pc)
  next
    case leave
    with M L P i li show ?thesis
      by (auto simp: thread_ok_def intro!: mutex_same local_set_pc phase_set_pc wake_set_pc)
  next
    case wait
    with M L P i li show ?thesis
      by (auto simp: thread_ok_def wake_ok_def intro!: mutex_release local_set_pc phase_set_pc)
  next
    case quit
    with M L P i li show ?thesis
      by (auto simp: thread_ok_def wake_ok_def intro!: mutex_release local_set_pc phase_set_pc)
  next
    case front
    with li show ?thesis by (simp add: thread_ok_def)
  next
    case (take m ms)
    have "thread_ok ms (m_shutdown s) (creating (main_pc s)) (ifrunning s k) (thread_pc s k)"
      if "k < m_iThreadNum s" "k \<noteq> i" for k
    proof (rule thread_ok_queue)
      show "thread_ok (tq_queue s) (m_shutdown s) (creating (main_pc s)) (ifrunning s k) (thread_pc s k)"
        using L that by (simp add: local_ok_def)
      show "\<not> in_lock (thread_pc s k)" using mutex_holder [OF M i that(1)] that(2) take(1) by auto
    qed
    then have "local_ok t" using L li by (simp add: take(4) local_ok_def) (simp add: thread_ok_def take(1))
    moreover have "phase_ok t" using P take by (auto simp: phase_ok_def)
    ultimately show ?thesis using take M i by (auto intro!: mutex_release wake_set_pc)
  next
    case (start m)
    with M L P i li show ?thesis
      by (auto simp: thread_ok_def intro!: mutex_same local_set_pc phase_set_pc wake_set_pc)
  next
    case (finish m)
    with M L P i li show ?thesis
      by (auto simp: thread_ok_def intro!: mutex_same local_set_pc phase_set_pc wake_set_pc)
  qed
  with Qt show ?thesis by (simp add: tp_inv_def)
qed


lemma Call_simps [simp]:
  "tp_inv ((Call w currtime s)\<lparr>main_pc := M\<rparr>) =
     tp_inv ((case w of None \<Rightarrow> s | Some i \<Rightarrow> set_pc i T_wake s)\<lparr>main_pc := M\<rparr>)"
  by (simp add: Call_def Let_def tp_inv_def mutex_ok_def queue_ok_def local_ok_def phase_ok_def wake_ok_def)

lemma tp_inv_split:
  "mutex_ok s \<Longrightarrow> queue_ok s \<Longrightarrow> local_ok s \<Longrightarrow> phase_ok s \<Longrightarrow> wake_ok s \<Longrightarrow> tp_inv s"
  by (simp add: tp_inv_def)

text \<open>Moving the main thread between two points without the mutex.\<close>

lemma tp_inv_main:
  assumes "tp_inv s" and "\<And>b. main_pc s \<noteq> M_push b" and "\<And>b. M \<noteq> M_push b" and "M \<noteq> M_create j"
    and "creating M \<Longrightarrow> creating (main_pc s)" and "\<not> creating M \<Longrightarrow> \<forall>i < m_iThreadNum s. ifrunning s i"
    and "stopping M \<longleftrightarrow> stopping (main_pc s)" and "\<And>k. M \<noteq> M_create k"
    and "main_pc s \<noteq> M_call"
  shows "tp_inv (s\<lparr>main_pc := M\<rparr>)"
proof (rule tp_inv_split)
  show "mutex_ok (s\<lparr>main_pc := M\<rparr>)" using assms(1-3) by (auto simp: tp_inv_def mutex_ok_def)
  show "queue_ok (s\<lparr>main_pc := M\<rparr>)" using assms(1) by (simp add: tp_inv_def)
  show "local_ok (s\<lparr>main_pc := M\<rparr>)"
    using assms(1,5,6) by (auto simp: tp_inv_def local_ok_def thread_ok_def)
  show "phase_ok (s\<lparr>main_pc := M\<rparr>)" using assms(1,5,7,8) by (auto simp: tp_inv_def phase_ok_def)
  show "wake_ok (s\<lparr>main_pc := M\<rparr>)" using assms(1,9) by (auto simp: tp_inv_def wake_ok_def)
qed

lemma tp_inv_woken:
  assumes I: "tp_inv s" and "i < m_iThreadNum s" and "thread_pc s i = T_wait"
  shows "tp_inv (set_pc i T_wake s)"
  using assms
  by (intro tp_inv_split mutex_same queue_ok_same local_set_pc phase_set_pc wake_set_pc)
    (auto simp: tp_inv_def local_ok_def thread_ok_def)

lemma tp_inv_running: "tp_inv s \<Longrightarrow> \<not> creating (main_pc s) \<Longrightarrow> i < m_iThreadNum s \<Longrightarrow> ifrunning s i"
  by (auto simp: tp_inv_def local_ok_def thread_ok_def)

lemma tp_inv_step:
  assumes "tp_step sp s t" and I: "tp_inv s"
  shows "tp_inv t"
  using assms(1)
proof (cases rule: tp_step.cases)
  case (thread i)
  show ?thesis by (rule tp_inv_thread [OF I thread])
next
  case (spurious i)
  with I show ?thesis by (simp add: tp_inv_woken)
next
  case (create i)
  let ?u = "set_pc i T_lock s"
  have pc: "thread_pc s i = T_none" and q: "tq_queue s = []" using I create by (auto simp: tp_inv_def phase_ok_def)
  have n: "\<not> ifrunning s i" using I pc create(3) by (auto simp: tp_inv_def local_ok_def thread_ok_def)
  show ?thesis
    unfolding create(1)
  proof (rule tp_inv_split)
    show "mutex_ok (set_pc i T_lock (s\<lparr>main_pc := M_create (Suc i)\<rparr>))"
      using I create pc by (auto simp: tp_inv_def mutex_ok_def)
    show "queue_ok (set_pc i T_lock (s\<lparr>main_pc := M_create (Suc i)\<rparr>))"
      using I create pc by (intro queue_ok_same) (simp_all add: tp_inv_def)
    show "local_ok (set_pc i T_lock (s\<lparr>main_pc := M_create (Suc i)\<rparr>))"
      using I create pc by (auto simp: tp_inv_def local_ok_def thread_ok_def)
    show "phase_ok (set_pc i T_lock (s\<lparr>main_pc := M_create (Suc i)\<rparr>))"
      using I create by (auto simp: tp_inv_def phase_ok_def)
    show "wake_ok (set_pc i T_lock (s\<lparr>main_pc := M_create (Suc i)\<rparr>))" using q by (simp add: wake_ok_def)
  qed
next
  case (create_failed i)
  with I show ?thesis by (auto intro!: tp_inv_main)
next
  case (created i)
  with I show ?thesis by (auto intro!: tp_inv_main)
next
  case all_running
  with I show ?thesis by (auto intro!: tp_inv_main)
next
  case (lock buf)
  show ?thesis
    unfolding lock(1)
  proof (rule tp_inv_split)
    show "mutex_ok (s\<lparr>m_pthreadMutex := Some Main, main_pc := M_push buf\<rparr>)"
      using I lock by (auto simp: tp_inv_def mutex_ok_def)
    show "local_ok (s\<lparr>m_pthreadMutex := Some Main, main_pc := M_push buf\<rparr>)"
      using I lock by (auto simp: tp_inv_def local_ok_def)
    show "phase_ok (s\<lparr>m_pthreadMutex := Some Main, main_pc := M_push buf\<rparr>)"
      using I lock by (auto simp: tp_inv_def phase_ok_def)
    show "wake_ok (s\<lparr>m_pthreadMutex := Some Main, main_pc := M_push buf\<rparr>)"
      using I lock by (auto simp: tp_inv_def wake_ok_def)
  qed (use I in \<open>simp add: tp_inv_def\<close>)
next
  case (push buf)
  have out: "\<not> in_lock (thread_pc s i)" if "i < m_iThreadNum s" for i
    using I push(2) that by (auto simp: tp_inv_def mutex_ok_def)
  show ?thesis
    unfolding push(1)
  proof (rule tp_inv_split)
    let ?t = "s\<lparr>tq_queue := tq_queue s @ [buf], tq_count := tq_count s + 1, pushed := pushed s @ [buf],
      m_pthreadMutex := None, main_pc := M_call\<rparr>"
    show "mutex_ok ?t" using I push(2) out by (auto simp: tp_inv_def mutex_ok_def)
    show "queue_ok ?t" using I by (simp add: tp_inv_def queue_ok_def)
    show "local_ok ?t" using I push(2) out by (auto simp: tp_inv_def local_ok_def intro: thread_ok_queue)
    show "phase_ok ?t" using I push(2) by (auto simp: tp_inv_def phase_ok_def)
    show "wake_ok ?t" by (simp add: wake_ok_def)
  qed
next
  case (signal i currtime)
  have "tp_inv (set_pc i T_wake s)" by (rule tp_inv_woken [OF I signal(3,4)])
  moreover have "wake_ok ((set_pc i T_wake s)\<lparr>main_pc := M_idle\<rparr>)"
    using signal(3) by (auto simp: wake_ok_def)
  ultimately have "tp_inv ((set_pc i T_wake s)\<lparr>main_pc := M_idle\<rparr>)"
    using signal(2) by (auto simp: tp_inv_def mutex_ok_def local_ok_def phase_ok_def)
  then show ?thesis by (simp add: signal(1))
next
  case (signal_none currtime)
  have "awake (thread_pc s 0)" if "tq_queue s \<noteq> []" "\<not> m_shutdown s" "0 < m_iThreadNum s"
  proof -
    have "thread_ok (tq_queue s) (m_shutdown s) False (ifrunning s 0) (thread_pc s 0)"
      using I signal_none(2) that(3) by (auto simp: tp_inv_def local_ok_def)
    with that signal_none(3) show ?thesis by (auto simp: thread_ok_def awake_def)
  qed
  then have "wake_ok (s\<lparr>main_pc := M_idle\<rparr>)" by (auto simp: wake_ok_def)
  then have "tp_inv (s\<lparr>main_pc := M_idle\<rparr>)"
    using I signal_none(2) by (auto simp: tp_inv_def mutex_ok_def local_ok_def phase_ok_def)
  then show ?thesis by (simp add: signal_none(1))
next
  case stop
  with I show ?thesis
    by (auto simp: tp_inv_def mutex_ok_def local_ok_def thread_ok_def phase_ok_def wake_ok_def)
next
  case broadcast
  let ?g = "\<lambda>i. if thread_pc s i = T_wait then T_wake else thread_pc s i"
  have same: "in_lock (?g i) = in_lock (thread_pc s i)" "jobs_of (?g i) = jobs_of (thread_pc s i)"
    "runs_of (?g i) = runs_of (thread_pc s i)" "thread_ok q sd cr r (thread_pc s i) \<Longrightarrow> thread_ok q sd cr r (?g i)"
    for i q sd cr r by (auto simp: thread_ok_def)
  then have "work (m_iThreadNum s) ?g = in_work s" "runs (m_iThreadNum s) ?g = runs (m_iThreadNum s) (thread_pc s)"
    by (simp_all only: work_def runs_def)
  moreover have M: "mutex_ok s" "queue_ok s" "local_ok s" "phase_ok s" using I by (simp_all add: tp_inv_def)
  ultimately have "queue_ok (cond_broadcast s)" by (simp add: queue_ok_def cond_broadcast_def)
  moreover have "mutex_ok ((cond_broadcast s)\<lparr>main_pc := M_join 0\<rparr>)"
    using M(1) broadcast(2) unfolding mutex_ok_def cond_broadcast_def by (simp add: same(1))
  moreover have "local_ok ((cond_broadcast s)\<lparr>main_pc := M_join 0\<rparr>)"
    using M(3) broadcast(2) same(4) unfolding local_ok_def cond_broadcast_def by simp
  moreover have "phase_ok ((cond_broadcast s)\<lparr>main_pc := M_join 0\<rparr>)"
    using M(4) broadcast(2) by (simp add: phase_ok_def cond_broadcast_def)
  moreover have "m_shutdown s" using M(4) broadcast(2) by (simp add: phase_ok_def)
  then have "wake_ok ((cond_broadcast s)\<lparr>main_pc := M_join 0\<rparr>)" by (simp add: wake_ok_def cond_broadcast_def)
  ultimately show ?thesis unfolding broadcast(1) by (intro tp_inv_split) simp_all
next
  case (join i)
  with I show ?thesis by (auto intro!: tp_inv_main tp_inv_running)
next
  case (joined i)
  with I show ?thesis by (auto intro!: tp_inv_main tp_inv_running)
qed

lemma tp_inv_ctor: "tp_inv (CThreadPool_ctor n)"
  by (simp add: tp_inv_def CThreadPool_ctor_def mutex_ok_def queue_ok_def local_ok_def phase_ok_def wake_ok_def
      work_def runs_def thread_ok_def)

interpretation tp: step_system "\<lambda>s. \<exists>n. s = CThreadPool_ctor n" "tp_step sp" tp_inv for sp
  by unfold_locales (auto simp: tp_inv_ctor intro: tp_inv_step)


section \<open>Shutting down\<close>

primrec rank :: "'m thread_pc \<Rightarrow> nat" where
  "rank (T_job m) = 5" | "rank (T_run m) = 4" | "rank T_lock = 3" | "rank T_wake = 3" | "rank T_test = 2"
| "rank T_leave = 1" | "rank T_done = 0" | "rank T_none = 0" | "rank T_sleep = 0" | "rank T_wait = 0"

definition joins_left :: "'m tpool \<Rightarrow> nat" where
  "joins_left s = (case main_pc s of M_join i \<Rightarrow> m_iThreadNum s - i + 1 | _ \<Rightarrow> 0)"

definition work_left :: "'m tpool \<Rightarrow> nat" where
  "work_left s = (\<Sum>i < m_iThreadNum s. rank (thread_pc s i)) + joins_left s"

text \<open>After the broadcast, when no thread is in or about to enter \<open>pthread_cond_wait\<close>.\<close>

definition closing :: "'m tpool \<Rightarrow> bool" where
  "closing s \<longleftrightarrow> tp_inv s \<and> ((\<exists>j. main_pc s = M_join j) \<or> main_pc s = M_stopped)
     \<and> (\<forall>i < m_iThreadNum s. thread_pc s i \<noteq> T_wait \<and> thread_pc s i \<noteq> T_sleep)"

lemma closing_thread:
  assumes C: "closing s" and i: "i < m_iThreadNum s" and run: "ThreadFunc i s = Some t"
  shows "closing t \<and> work_left t < work_left s"
proof -
  have I: "tp_inv t" using C i run by (auto simp: closing_def intro: tp_inv_thread)
  have sd: "m_shutdown s" using C by (auto simp: closing_def tp_inv_def phase_ok_def)
  obtain pc where t: "thread_pc t = (thread_pc s)(i := pc)" "main_pc t = main_pc s" "m_iThreadNum t = m_iThreadNum s"
    and pc: "rank pc < rank (thread_pc s i)" "pc \<noteq> T_wait" "pc \<noteq> T_sleep"
    using run
  proof (cases rule: ThreadFunc_cases)
    case wait with C i show thesis by (simp add: closing_def)
  qed (use sd that in auto)
  have "closing t" using C I t pc(2,3) by (simp add: closing_def)
  moreover have "(\<Sum>k < m_iThreadNum t. rank (thread_pc t k)) < (\<Sum>k < m_iThreadNum s. rank (thread_pc s k))"
    using sum_fun_upd(1) [of "{..<m_iThreadNum s}" i rank "thread_pc s" pc] i pc(1) by (simp add: t del: fun_upd_apply)
  moreover have "joins_left t = joins_left s" by (simp only: joins_left_def t)
  ultimately show ?thesis by (simp add: work_left_def)
qed

lemma closing_step:
  assumes "closing s" and "tp_step sp s t"
  shows "closing t \<and> work_left t < work_left s"
  using assms(2)
proof (cases rule: tp_step.cases)
  case (thread i)
  show ?thesis by (rule closing_thread [OF assms(1) thread])
next
  case (join i)
  have "tp_inv t" by (rule tp_inv_step [OF assms(2)]) (use assms(1) in \<open>simp add: closing_def\<close>)
  with assms(1) join show ?thesis by (auto simp: closing_def work_left_def joins_left_def)
next
  case (joined i)
  have "tp_inv t" by (rule tp_inv_step [OF assms(2)]) (use assms(1) in \<open>simp add: closing_def\<close>)
  with assms(1) joined show ?thesis by (auto simp: closing_def work_left_def joins_left_def)
qed (use assms(1) in \<open>auto simp: closing_def\<close>)

interpretation closing: step_system closing "tp_step sp" closing for sp
  by unfold_locales (auto dest: closing_step)

lemma rank_le: "rank pc \<le> 5"
  by (cases pc) simp_all

lemma work_left_le: "work_left s \<le> 6 * m_iThreadNum s + 1"
proof -
  have "(\<Sum>k < m_iThreadNum s. rank (thread_pc s k)) \<le> (\<Sum>k < m_iThreadNum s. 5)"
    by (rule sum_mono) (rule rank_le)
  moreover have "joins_left s \<le> m_iThreadNum s + 1" by (cases "main_pc s") (simp_all add: joins_left_def)
  ultimately show ?thesis by (simp add: work_left_def)
qed

text \<open>A thread that is awake, or one that holds the mutex, can always step.\<close>

lemma awake_steps:
  "awake (thread_pc s i) \<Longrightarrow> m_pthreadMutex s = None \<Longrightarrow> ThreadFunc i s \<noteq> None"
  by (cases "thread_pc s i") (auto simp: ThreadFunc_def split: list.split)

lemma holder_steps: "in_lock (thread_pc s i) \<Longrightarrow> ThreadFunc i s \<noteq> None"
  by (auto simp: in_lock_def ThreadFunc_def split: list.split)

lemma someone_steps:
  assumes I: "tp_inv s" and i: "i < m_iThreadNum s" "awake (thread_pc s i)"
  shows "(\<exists>k < m_iThreadNum s. ThreadFunc k s \<noteq> None) \<or> (\<exists>b. main_pc s = M_push b)"
proof (cases "m_pthreadMutex s")
  case None
  with awake_steps [OF i(2)] i(1) show ?thesis by blast
next
  case (Some w)
  show ?thesis
  proof (cases w)
    case Main with Some I show ?thesis by (auto simp: tp_inv_def mutex_ok_def)
  next
    case (Worker k)
    with Some I have "k < m_iThreadNum s" "in_lock (thread_pc s k)" by (auto simp: tp_inv_def mutex_ok_def)
    with holder_steps show ?thesis by blast
  qed
qed

lemma closing_end:
  assumes C: "closing s" and stuck: "\<And>t. \<not> tp_step sp s t"
  shows "main_pc s = M_stopped"
proof (rule ccontr)
  assume "main_pc s \<noteq> M_stopped"
  with C obtain j where j: "main_pc s = M_join j" by (auto simp: closing_def)
  have I: "tp_inv s" using C by (simp add: closing_def)
  show False
  proof (cases "j < m_iThreadNum s")
    case False with joined [OF j] stuck show False by blast
  next
    case True
    have "thread_ok (tq_queue s) (m_shutdown s) False (ifrunning s j) (thread_pc s j)"
      using I True j by (auto simp: tp_inv_def local_ok_def)
    with C True have "thread_pc s j = T_done \<or> awake (thread_pc s j)"
      by (auto simp: awake_def closing_def thread_ok_def)
    then show False
    proof
      assume "thread_pc s j = T_done"
      with join [OF j True] stuck show False by blast
    next
      assume "awake (thread_pc s j)"
      with someone_steps [OF I True] j obtain k where "k < m_iThreadNum s" "ThreadFunc k s \<noteq> None" by auto
      with stuck thread show False by (metis not_None_eq)
    qed
  qed
qed

section \<open>Properties\<close>

text \<open>
  C8. In every state the pool reaches, with spurious wakeups: at most one thread is in its critical
  section, \<open>front\<close> is never called on an empty queue, the messages were taken in the order they
  were put in, the count is the length of the queue, every message taken is finished or with exactly
  one thread, \<open>m_iRunningThreadNum\<close> is between 0 and the number of threads, and once \<open>Create\<close>
  has returned every thread has reached \<open>pthread_cond_wait\<close>.
\<close>

theorem pool_safe:
  assumes "(tp_step True)\<^sup>*\<^sup>* (CThreadPool_ctor n) s"
  shows "(\<forall>i < m_iThreadNum s. \<forall>k < m_iThreadNum s.
        in_lock (thread_pc s i) \<and> in_lock (thread_pc s k) \<longrightarrow> i = k)
    \<and> ((\<exists>b. main_pc s = M_push b) \<longrightarrow> (\<forall>i < m_iThreadNum s. \<not> in_lock (thread_pc s i)))
    \<and> \<not> front_empty s \<and> pushed s = taken s @ tq_queue s \<and> tq_count s = int (length (tq_queue s))
    \<and> mset (taken s) = mset (finished s) + in_work s
    \<and> 0 \<le> m_iRunningThreadNum s \<and> m_iRunningThreadNum s \<le> int (m_iThreadNum s)
    \<and> (\<not> creating (main_pc s) \<longrightarrow> (\<forall>i < m_iThreadNum s. ifrunning s i))"
proof -
  have I: "tp_inv s" using tp.started_run_inv [OF _ assms] by blast
  have r: "0 \<le> runs_of pc \<and> runs_of pc \<le> 1" for pc :: "'a thread_pc" by (cases pc) simp_all
  have "0 \<le> runs n g \<and> runs n g \<le> int n" for n and g :: "nat \<Rightarrow> 'a thread_pc"
  proof -
    have "0 \<le> runs n g" unfolding runs_def by (rule sum_nonneg) (use r in auto)
    moreover have "runs n g \<le> (\<Sum>i < n. 1)" unfolding runs_def by (rule sum_mono) (use r in auto)
    ultimately show ?thesis by simp
  qed
  with I tp_inv_running [OF I] show ?thesis
    by (auto simp: tp_inv_def mutex_ok_def queue_ok_def local_ok_def)
qed

text \<open>
  C9. No wakeup is lost for a message: while the pool is not shut down and the main thread is not in
  \<open>Call\<close>, a message in the queue has a thread that will look at the queue without being woken, and
  some thread can go on, so the pool does not come to rest with messages in the queue.
\<close>

theorem pool_no_lost_message:
  assumes "(tp_step True)\<^sup>*\<^sup>* (CThreadPool_ctor n) s" and "0 < m_iThreadNum s" and "tq_queue s \<noteq> []"
    and "\<not> m_shutdown s" and "main_pc s \<noteq> M_call"
  shows "(\<exists>i < m_iThreadNum s. awake (thread_pc s i))
    \<and> ((\<exists>k < m_iThreadNum s. ThreadFunc k s \<noteq> None) \<or> (\<exists>b. main_pc s = M_push b))"
proof -
  have I: "tp_inv s" using tp.started_run_inv [OF _ assms(1)] by blast
  then obtain i where "i < m_iThreadNum s" "awake (thread_pc s i)"
    using assms by (auto simp: tp_inv_def wake_ok_def)
  with someone_steps [OF I] show ?thesis by blast
qed

text \<open>
  C18. \<open>StopAll\<close> ends if no thread is between its test of \<open>m_shutdown\<close> and \<open>pthread_cond_wait\<close>
  when the broadcast is made: after it, however the threads are scheduled, at most \<open>6 n + 1\<close> steps
  are possible, and when none is left every thread has returned and been joined.
\<close>

theorem stop_terminates:
  assumes "(tp_step True)\<^sup>*\<^sup>* (CThreadPool_ctor n) s" and "main_pc s = M_broadcast"
    and "\<forall>i < m_iThreadNum s. thread_pc s i \<noteq> T_sleep"
    and "t = (cond_broadcast s)\<lparr>main_pc := M_join 0\<rparr>"
  shows "(\<forall>k u. (tp_step True ^^ k) t u \<longrightarrow> k \<le> 6 * m_iThreadNum s + 1)
    \<and> (\<exists>u. (tp_step True)\<^sup>*\<^sup>* t u \<and> main_pc u = M_stopped)
    \<and> (\<forall>u. (tp_step True)\<^sup>*\<^sup>* t u \<and> (\<forall>v. \<not> tp_step True u v) \<longrightarrow> main_pc u = M_stopped)"
proof -
  have "tp_inv s" using tp.started_run_inv [OF _ assms(1)] by blast
  moreover have "tp_step True s t" unfolding assms(4) by (rule tp_step.broadcast [OF assms(2)])
  ultimately have "tp_inv t" by (rule tp_inv_step [rotated])
  moreover have "thread_pc t i \<noteq> T_wait \<and> thread_pc t i \<noteq> T_sleep" if "i < m_iThreadNum s" for i
    using assms(3) that by (simp add: assms(4) cond_broadcast_def)
  moreover have "main_pc t = M_join 0" "m_iThreadNum t = m_iThreadNum s" by (simp_all add: assms(4) cond_broadcast_def)
  ultimately have C: "closing t" by (simp add: closing_def)
  have n: "m_iThreadNum t = m_iThreadNum s" by (simp add: assms(4) cond_broadcast_def)
  have d: "\<And>s t. closing s \<Longrightarrow> tp_step True s t \<Longrightarrow> work_left t < work_left s" by (blast dest: closing_step)
  have "k \<le> 6 * m_iThreadNum s + 1" if "(tp_step True ^^ k) t u" for k u
    using closing.run_bounded [where m = work_left, OF that C d] work_left_le [of t] n by simp
  moreover have e: "main_pc u = M_stopped" if "(tp_step True)\<^sup>*\<^sup>* t u" "\<forall>v. \<not> tp_step True u v" for u
    using closing.steps_inv [OF that(1) C] that(2) closing_end by blast
  ultimately show ?thesis using closing.run_to_end [where m = work_left, OF C d] by blast
qed


section \<open>Runs of a pool with one thread\<close>

text \<open>After \<open>Create(1)\<close>: the thread is about to wait, or waits already.\<close>

definition demo_pool :: "owner option \<Rightarrow> nat thread_pc \<Rightarrow> nat tpool" where
  "demo_pool mx pc = \<lparr>m_iThreadNum = 1, m_pthreadMutex = mx, m_shutdown = False, tq_queue = [],
     tq_count = 0, m_iRunningThreadNum = 0, m_iLastEmgTime = 0, thread_pc = (\<lambda>_. T_none)(0 := pc),
     ifrunning = (\<lambda>_. False)(0 := True), main_pc = M_idle, pushed = [], taken = [], finished = [],
     front_empty = False\<rparr>"

lemma step_eq: "tp_step sp s t \<Longrightarrow> t = u \<Longrightarrow> tp_step sp s u"
  by simp

lemmas run_step = rtranclp.rtrancl_into_rtrancl

lemma demo_pool_sleep: "(tp_step sp)\<^sup>*\<^sup>* (CThreadPool_ctor 1) (demo_pool (Some (Worker 0)) T_sleep)"
proof -
  let ?s1 = "set_pc 0 T_lock ((CThreadPool_ctor 1 :: nat tpool)\<lparr>main_pc := M_create 1\<rparr>)"
  let ?s2 = "?s1\<lparr>main_pc := M_await\<rparr>"
  let ?s3 = "set_pc 0 T_test (?s2\<lparr>m_pthreadMutex := Some (Worker 0)\<rparr>)"
  let ?s4 = "set_pc 0 T_sleep (?s3\<lparr>ifrunning := (ifrunning ?s3)(0 := True)\<rparr>)"
  note d = CThreadPool_ctor_def ThreadFunc_def
  have "(tp_step sp)\<^sup>*\<^sup>* (CThreadPool_ctor 1) ?s1"
    by (rule r_into_rtranclp, rule step_eq, rule tp_step.create [of _ 0]) (simp_all add: d)
  then have "(tp_step sp)\<^sup>*\<^sup>* (CThreadPool_ctor 1) ?s2"
    by (rule run_step) (rule tp_step.created [of _ 1], simp_all add: d)
  then have "(tp_step sp)\<^sup>*\<^sup>* (CThreadPool_ctor 1) ?s3"
    by (rule run_step) (rule tp_step.thread [of 0], simp_all add: d)
  then have "(tp_step sp)\<^sup>*\<^sup>* (CThreadPool_ctor 1) ?s4"
    by (rule run_step) (rule tp_step.thread [of 0], simp_all add: d)
  then have "(tp_step sp)\<^sup>*\<^sup>* (CThreadPool_ctor 1) (?s4\<lparr>main_pc := M_idle\<rparr>)"
    by (rule run_step) (rule tp_step.all_running, simp_all add: d)
  moreover have "?s4\<lparr>main_pc := M_idle\<rparr> = demo_pool (Some (Worker 0)) T_sleep"
    by (simp add: demo_pool_def set_pc_def d)
  ultimately show ?thesis by simp
qed

lemma demo_pool_wait: "(tp_step sp)\<^sup>*\<^sup>* (CThreadPool_ctor 1) (demo_pool None T_wait)"
  by (rule run_step [OF demo_pool_sleep], rule tp_step.thread [of 0])
    (simp_all add: ThreadFunc_def demo_pool_def set_pc_def)

theorem pool_safe_witness:
  "(tp_step True)\<^sup>*\<^sup>* (CThreadPool_ctor 1) (demo_pool None T_wait) \<and> \<not> front_empty (demo_pool None T_wait)"
  using demo_pool_wait [of True] pool_safe by blast

theorem pool_no_lost_message_witness:
  "\<exists>s. (tp_step True)\<^sup>*\<^sup>* (CThreadPool_ctor 1) s \<and> tq_queue s = [7 :: nat]
     \<and> (\<exists>i < m_iThreadNum s. awake (thread_pc s i))"
proof -
  let ?s0 = "demo_pool None T_wait"
  let ?s1 = "?s0\<lparr>m_pthreadMutex := Some Main, main_pc := M_push 7\<rparr>"
  let ?s2 = "?s0\<lparr>tq_queue := [7], tq_count := 1, pushed := [7], main_pc := M_call\<rparr>"
  let ?s3 = "(Call (Some 0) 0 ?s2)\<lparr>main_pc := M_idle\<rparr>"
  have "(tp_step True)\<^sup>*\<^sup>* (CThreadPool_ctor 1) ?s1"
    by (rule run_step [OF demo_pool_wait], rule tp_step.lock) (simp_all add: demo_pool_def)
  then have "(tp_step True)\<^sup>*\<^sup>* (CThreadPool_ctor 1) ?s2"
    by (rule run_step) (rule step_eq, rule tp_step.push [of _ 7], simp_all add: demo_pool_def)
  then have r: "(tp_step True)\<^sup>*\<^sup>* (CThreadPool_ctor 1) ?s3"
    by (rule run_step) (rule tp_step.signal [of _ 0], simp_all add: demo_pool_def)
  have q: "tq_queue ?s3 = [7]" by (simp add: Call_def Let_def)
  have "0 < m_iThreadNum ?s3" "\<not> m_shutdown ?s3" "main_pc ?s3 \<noteq> M_call"
    by (simp_all add: Call_def Let_def demo_pool_def)
  from pool_no_lost_message [OF r this(1) _ this(2,3)] q r show ?thesis by force
qed

text \<open>
  C21. \<open>StopAll\<close> can hang: it sets \<open>m_shutdown\<close> without the mutex, so a thread that has already
  tested the flag but not yet entered \<open>pthread_cond_wait\<close> misses the broadcast and sleeps for ever,
  with \<open>StopAll\<close> in \<open>pthread_join\<close>. This happens already when \<open>StopAll\<close> follows \<open>Create(1)\<close>.
\<close>

theorem stop_can_hang:
  "\<exists>s :: nat tpool. (tp_step False)\<^sup>*\<^sup>* (CThreadPool_ctor 1) s \<and> m_shutdown s \<and> main_pc s = M_join 0
     \<and> thread_pc s 0 = T_wait \<and> (\<forall>t. \<not> tp_step False s t)"
proof -
  let ?s0 = "demo_pool (Some (Worker 0)) T_sleep"
  let ?s1 = "?s0\<lparr>m_shutdown := True, main_pc := M_broadcast\<rparr>"
  let ?s2 = "(cond_broadcast ?s1)\<lparr>main_pc := M_join 0\<rparr>"
  let ?s3 = "set_pc 0 T_wait (?s2\<lparr>m_pthreadMutex := None\<rparr>)"
  have "(tp_step False)\<^sup>*\<^sup>* (CThreadPool_ctor 1) ?s1"
    by (rule run_step [OF demo_pool_sleep], rule tp_step.stop) (simp_all add: demo_pool_def)
  then have "(tp_step False)\<^sup>*\<^sup>* (CThreadPool_ctor 1) ?s2"
    by (rule run_step) (rule tp_step.broadcast, simp add: demo_pool_def)
  then have r: "(tp_step False)\<^sup>*\<^sup>* (CThreadPool_ctor 1) ?s3"
    by (rule run_step) (rule tp_step.thread [of 0], simp_all add: demo_pool_def ThreadFunc_def cond_broadcast_def)
  have pc: "main_pc ?s3 = M_join 0" "thread_pc ?s3 0 = T_wait" "m_iThreadNum ?s3 = 1" "m_shutdown ?s3"
    by (simp_all add: demo_pool_def cond_broadcast_def)
  have "\<not> tp_step False ?s3 t" for t
  proof
    assume "tp_step False ?s3 t"
    then show False
      by (cases rule: tp_step.cases) (use pc in \<open>auto simp: ThreadFunc_def simp del: set_pc_simps\<close>)
  qed
  with r pc show ?thesis by blast
qed

theorem stop_terminates_witness:
  "\<exists>u :: nat tpool. (tp_step True)\<^sup>*\<^sup>* (CThreadPool_ctor 1) u \<and> main_pc u = M_stopped"
proof -
  let ?s = "(demo_pool None T_wait)\<lparr>m_shutdown := True, main_pc := M_broadcast\<rparr>"
  let ?t = "(cond_broadcast ?s)\<lparr>main_pc := M_join 0\<rparr>"
  have r: "(tp_step True)\<^sup>*\<^sup>* (CThreadPool_ctor 1) ?s"
    by (rule run_step [OF demo_pool_wait], rule tp_step.stop) (simp_all add: demo_pool_def)
  have "main_pc ?s = M_broadcast" "\<forall>i < m_iThreadNum ?s. thread_pc ?s i \<noteq> T_sleep"
    by (simp_all add: demo_pool_def)
  from stop_terminates [OF r this refl] obtain u where u: "(tp_step True)\<^sup>*\<^sup>* ?t u" "main_pc u = M_stopped" by blast
  have "(tp_step True)\<^sup>*\<^sup>* (CThreadPool_ctor 1) ?t" by (rule run_step [OF r], rule tp_step.broadcast) simp
  with u show ?thesis by (meson rtranclp_trans)
qed

end
