(* ===== verification/QcPrintf.thy ===== *)
theory QcPrintf
  imports QcPrelude
begin

text \<open>
  The formatter (public/qc\_printf.cc): \<open>qc_vslprintf\<close> with its own directives and
  \<open>qc_sprintf_num\<close> for numbers. A destination is what has been written and the room up to
  \<open>last\<close>; a format or string argument is the list of its characters, its end the terminator.
\<close>

section \<open>Destination and errors\<close>

text \<open>
  Reading the format past its terminator, taking an argument of another type than the directive
  asks for, writing at or behind \<open>last\<close>, and an overflow of signed arithmetic.
\<close>

datatype fmt_error = Past_end | Bad_arg | No_room | Overflow

record dest =
  written :: string
  room :: nat

text \<open>\<open>*buf++ = c\<close>\<close>

definition put :: "char \<Rightarrow> dest \<Rightarrow> fmt_error + dest" where
  "put c b = (if room b = 0 then Inl No_room else Inr (b\<lparr>written := written b @ [c], room := room b - 1\<rparr>))"

definition bind_fmt :: "fmt_error + 'a \<Rightarrow> ('a \<Rightarrow> fmt_error + 'b) \<Rightarrow> fmt_error + 'b" where
  "bind_fmt r f = (case r of Inl e \<Rightarrow> Inl e | Inr x \<Rightarrow> f x)"

section \<open>Numbers\<close>

definition digit_char :: "nat \<Rightarrow> char" where
  "digit_char n = char_of (n + 48)"

text \<open>The loops that fill \<open>temp\<close> from its end.\<close>

function dec_loop32 :: "u32 \<Rightarrow> string \<Rightarrow> string" where
  "dec_loop32 ui p =
     (let p1 = digit_char (unat (ui mod 10)) # p; ui1 = ui div 10
      in if ui1 \<noteq> 0 then dec_loop32 ui1 p1 else p1)"
  by pat_completeness auto
termination
proof (relation "measure (\<lambda>(ui, p). unat ui)")
  fix ui p1 p :: string and ui1 u :: u32
  assume "ui1 = u div 10" and "ui1 \<noteq> 0"
  then have "unat ui1 = unat u div 10" and "unat ui1 \<noteq> 0" by (simp add: unat_div, metis unat_eq_zero)
  then show "((ui1, p1), u, p) \<in> measure (\<lambda>(ui, p). unat ui)" by simp
qed simp

function dec_loop64 :: "u64 \<Rightarrow> string \<Rightarrow> string" where
  "dec_loop64 ui p =
     (let p1 = digit_char (unat (ui mod 10)) # p; ui1 = ui div 10
      in if ui1 \<noteq> 0 then dec_loop64 ui1 p1 else p1)"
  by pat_completeness auto
termination
proof (relation "measure (\<lambda>(ui, p). unat ui)")
  fix p1 p :: string and ui1 u :: u64
  assume "ui1 = u div 10" and "ui1 \<noteq> 0"
  then have "unat ui1 = unat u div 10" and "unat ui1 \<noteq> 0" by (simp add: unat_div, metis unat_eq_zero)
  then show "((ui1, p1), u, p) \<in> measure (\<lambda>(ui, p). unat ui)" by simp
qed simp

function hex_loop :: "string \<Rightarrow> u64 \<Rightarrow> string \<Rightarrow> string" where
  "hex_loop tbl ui p =
     (let p1 = tbl ! unat (ui AND 0xf) # p; ui1 = drop_bit 4 ui
      in if ui1 \<noteq> 0 then hex_loop tbl ui1 p1 else p1)"
  by pat_completeness auto
termination
proof (relation "measure (\<lambda>(tbl, ui, p). unat ui)")
  fix p1 p tbl :: string and ui1 u :: u64
  assume "ui1 = drop_bit 4 u" and "ui1 \<noteq> 0"
  then have "unat ui1 = unat u div 16" and "unat ui1 \<noteq> 0" by (simp add: drop_bit_eq_div unat_div, metis unat_eq_zero)
  then show "((tbl, ui1, p1), tbl, u, p) \<in> measure (\<lambda>(tbl, ui, p). unat ui)" by simp
qed simp

declare dec_loop32.simps [simp del] dec_loop64.simps [simp del] hex_loop.simps [simp del]

definition hex_lower :: string where "hex_lower = ''0123456789abcdef''"
definition hex_upper :: string where "hex_upper = ''0123456789ABCDEF''"

definition num_digits :: "u64 \<Rightarrow> nat \<Rightarrow> string" where
  "num_digits ui64 hexadecimal =
     (if hexadecimal = 0
      then (if ui64 \<le> 0xffffffff then dec_loop32 (ucast ui64) [] else dec_loop64 ui64 [])
      else if hexadecimal = 1 then hex_loop hex_lower ui64 [] else hex_loop hex_upper ui64 [])"

text \<open>\<open>while (len++ < width && buf < last) *buf++ = zero;\<close>\<close>

function pad_loop :: "char \<Rightarrow> nat \<Rightarrow> nat \<Rightarrow> dest \<Rightarrow> dest" where
  "pad_loop zero len width b =
     (if len < width \<and> 0 < room b
      then pad_loop zero (len + 1) width (b\<lparr>written := written b @ [zero], room := room b - 1\<rparr>) else b)"
  by pat_completeness auto
termination by (relation "measure (\<lambda>(zero, len, width, b). room b)") auto

declare pad_loop.simps [simp del]

definition qc_sprintf_num :: "dest \<Rightarrow> u64 \<Rightarrow> char \<Rightarrow> nat \<Rightarrow> u64 \<Rightarrow> dest" where
  "qc_sprintf_num b ui64 zero hexadecimal width =
     (let p = num_digits ui64 hexadecimal;
          b1 = pad_loop zero (length p) (unat width) b;
          len = (if length p \<ge> room b1 then room b1 else length p)
      in b1\<lparr>written := written b1 @ take len p, room := room b1 - len\<rparr>)"

section \<open>Directives\<close>

definition is_digit :: "char \<Rightarrow> bool" where
  "is_digit c \<longleftrightarrow> 48 \<le> (of_char c :: nat) \<and> (of_char c :: nat) \<le> 57"

fun read_num :: "u64 \<Rightarrow> string \<Rightarrow> u64 \<times> string" where
  "read_num n [] = (n, [])"
| "read_num n (c # fmt) =
     (if is_digit c then read_num (n * 10 + of_nat (of_char c - 48)) fmt else (n, c # fmt))"

record spec =
  zero :: char
  width :: u64
  sign :: bool
  hex :: nat
  frac_width :: u64

text \<open>The loop over \<open>u\<close>, \<open>X\<close>, \<open>x\<close> and the fraction after a dot, which ends it.\<close>

fun read_flags :: "spec \<Rightarrow> string \<Rightarrow> spec \<times> string" where
  "read_flags sp [] = (sp, [])"
| "read_flags sp (c # fmt) =
     (if c = CHR ''u'' then read_flags (sp\<lparr>sign := False\<rparr>) fmt
      else if c = CHR ''X'' then read_flags (sp\<lparr>hex := 2, sign := False\<rparr>) fmt
      else if c = CHR ''x'' then read_flags (sp\<lparr>hex := 1, sign := False\<rparr>) fmt
      else if c = CHR ''.'' then (let (n, rest) = read_num (frac_width sp) fmt in (sp\<lparr>frac_width := n\<rparr>, rest))
      else (sp, c # fmt))"

text \<open>
  An argument as it was passed: \<open>int\<close> and \<open>pid_t\<close>, \<open>u_int\<close>, the pointer sized and the 64 bit
  integers, a pointer, a string, a double. What the code computes with a double is a parameter:
  the test \<open>f < 0\<close>, the negation, \<open>(int64_t) f\<close>, and the rounded fraction for a scale.
\<close>

datatype 'd arg =
    A_int u32 | A_uint u32 | A_intptr u64 | A_uintptr u64 | A_int64 u64 | A_uint64 u64
  | A_ptr u64 | A_str string | A_double 'd

record 'd double_ops =
  d_negative :: "'d \<Rightarrow> bool"
  d_neg :: "'d \<Rightarrow> 'd"
  d_int64 :: "'d \<Rightarrow> u64"
  d_frac :: "'d \<Rightarrow> u64 \<Rightarrow> u64 \<Rightarrow> u64"

fun copy_str :: "string \<Rightarrow> dest \<Rightarrow> dest" where
  "copy_str [] b = b"
| "copy_str (c # p) b =
     (if 0 < room b then copy_str p (b\<lparr>written := written b @ [c], room := room b - 1\<rparr>) else b)"

text \<open>
  The number a directive prints, after its sign. The negation is one of 64 bits and undefined for
  the smallest number (\<open>Overflow\<close>).
\<close>

definition INT64_MIN :: u64 where
  "INT64_MIN = 0x8000000000000000"

definition print_num :: "spec \<Rightarrow> u64 \<Rightarrow> u64 \<Rightarrow> dest \<Rightarrow> fmt_error + dest" where
  "print_num sp i64 ui64 b =
     (if sign sp
      then (if sint i64 < 0
            then bind_fmt (put (CHR ''-'') b) (\<lambda>b1. if i64 = INT64_MIN then Inl Overflow
                   else Inr (qc_sprintf_num b1 (- i64) (zero sp) (hex sp) (width sp)))
            else Inr (qc_sprintf_num b i64 (zero sp) (hex sp) (width sp)))
      else Inr (qc_sprintf_num b ui64 (zero sp) (hex sp) (width sp)))"

definition print_double :: "'d double_ops \<Rightarrow> spec \<Rightarrow> 'd \<Rightarrow> dest \<Rightarrow> fmt_error + dest" where
  "print_double D sp f0 b0 =
     bind_fmt (if d_negative D f0 then put (CHR ''-'') b0 else Inr b0)
       (\<lambda>b. let f = (if d_negative D f0 then d_neg D f0 else f0);
                ui = d_int64 D f;
                scale = ((\<lambda>x. x * 10) ^^ unat (frac_width sp)) (1 :: u64);
                frac0 = (if frac_width sp \<noteq> 0 then d_frac D f ui scale else 0);
                (ui64, frac) = (if frac_width sp \<noteq> 0 \<and> frac0 = scale then (ui + 1, 0) else (ui, frac0));
                b1 = qc_sprintf_num b ui64 (zero sp) 0 (width sp)
            in if frac_width sp \<noteq> 0
               then (let b2 = (if 0 < room b1 then b1\<lparr>written := written b1 @ ''.'', room := room b1 - 1\<rparr> else b1)
                     in Inr (qc_sprintf_num b2 frac (CHR ''0'') 0 (frac_width sp)))
               else Inr b1)"

text \<open>One directive, with the character \<open>d\<close> that ends it.\<close>

definition convert :: "'d double_ops \<Rightarrow> char \<Rightarrow> spec \<Rightarrow> 'd arg list \<Rightarrow> dest \<Rightarrow> fmt_error + dest \<times> 'd arg list" where
  "convert D d sp args b =
     (let finish = (\<lambda>r rest. bind_fmt r (\<lambda>b1. Inr (b1, rest)))
      in if d = CHR ''%'' then finish (put (CHR ''%'') b) args
         else if d = CHR ''d'' then
           (case (sign sp, args) of
              (True, A_int i # as) \<Rightarrow> finish (print_num sp (scast i) 0 b) as
            | (False, A_uint i # as) \<Rightarrow> finish (print_num sp 0 (ucast i) b) as
            | _ \<Rightarrow> Inl Bad_arg)
         else if d = CHR ''i'' then
           (case (sign sp, args) of
              (True, A_intptr i # as) \<Rightarrow> finish (print_num sp i 0 b) as
            | (False, A_uintptr i # as) \<Rightarrow> finish (print_num sp 0 i b) as
            | _ \<Rightarrow> Inl Bad_arg)
         else if d = CHR ''L'' then
           (case (sign sp, args) of
              (True, A_int64 i # as) \<Rightarrow> finish (print_num sp i 0 b) as
            | (False, A_uint64 i # as) \<Rightarrow> finish (print_num sp 0 i b) as
            | _ \<Rightarrow> Inl Bad_arg)
         else if d = CHR ''p'' then
           (case args of
              A_ptr i # as \<Rightarrow> finish (print_num (sp\<lparr>hex := 2, sign := False, zero := CHR ''0'', width := 16\<rparr>) 0 i b) as
            | _ \<Rightarrow> Inl Bad_arg)
         else if d = CHR ''s'' then
           (case args of A_str p # as \<Rightarrow> Inr (copy_str p b, as) | _ \<Rightarrow> Inl Bad_arg)
         else if d = CHR ''P'' then
           (case args of A_int i # as \<Rightarrow> finish (print_num (sp\<lparr>sign := True\<rparr>) (scast i) 0 b) as | _ \<Rightarrow> Inl Bad_arg)
         else if d = CHR ''f'' then
           (case args of A_double f # as \<Rightarrow> finish (print_double D sp f b) as | _ \<Rightarrow> Inl Bad_arg)
         else finish (put d b) args)"

definition read_spec :: "string \<Rightarrow> spec \<times> string" where
  "read_spec fmt =
     (let z = (if fmt \<noteq> [] \<and> hd fmt = CHR ''0'' then CHR ''0'' else CHR '' '');
          (w, rest) = read_num 0 fmt
      in read_flags \<lparr>zero = z, width = w, sign = True, hex = 0, frac_width = 0\<rparr> rest)"

lemma read_num_length: "length (snd (read_num n fmt)) \<le> length fmt"
  by (induction n fmt rule: read_num.induct) (auto simp: le_SucI)

lemma read_flags_length: "length (snd (read_flags sp fmt)) \<le> length fmt"
proof (induction sp fmt rule: read_flags.induct)
  case (2 sp c fmt)
  then show ?case using read_num_length [of "frac_width sp" fmt] by (auto simp: le_SucI split: prod.split)
qed simp

lemma read_spec_length: "length (snd (read_spec fmt)) \<le> length fmt"
  unfolding read_spec_def Let_def case_prod_beta
  using read_flags_length read_num_length order_trans by blast

text \<open>
  The terminator ends the loop between directives; inside one it falls to the default case, which
  copies it and goes on behind it.
\<close>

function qc_vslprintf :: "'d double_ops \<Rightarrow> string \<Rightarrow> 'd arg list \<Rightarrow> dest \<Rightarrow> fmt_error + dest" where
  "qc_vslprintf D fmt args b =
     (case fmt of
        [] \<Rightarrow> Inr b
      | c # cs \<Rightarrow>
          if room b = 0 then Inr b
          else if c = CHR ''%'' then
            (case snd (read_spec cs) of
               [] \<Rightarrow> Inl Past_end
             | d # rest \<Rightarrow>
                 bind_fmt (convert D d (fst (read_spec cs)) args b) (\<lambda>(b1, as). qc_vslprintf D rest as b1))
          else bind_fmt (put c b) (\<lambda>b1. qc_vslprintf D cs args b1))"
  by pat_completeness auto
termination
proof (relation "measure (\<lambda>(D, fmt, args, b). length fmt)")
  fix D :: "'d double_ops" and fmt args b c cs d rest x y b1
  assume "fmt = c # cs" and "snd (read_spec cs) = d # rest"
  then show "((D, rest, y, b1), D, fmt, args, b) \<in> measure (\<lambda>(D, fmt, args, b). length fmt)"
    using read_spec_length [of cs] by simp
qed auto

declare qc_vslprintf.simps [simp del]

definition qc_snprintf :: "'d double_ops \<Rightarrow> nat \<Rightarrow> string \<Rightarrow> 'd arg list \<Rightarrow> fmt_error + dest" where
  "qc_snprintf D n fmt args = qc_vslprintf D fmt args \<lparr>written = [], room = n\<rparr>"

definition qc_slprintf :: "'d double_ops \<Rightarrow> dest \<Rightarrow> string \<Rightarrow> 'd arg list \<Rightarrow> fmt_error + dest" where
  "qc_slprintf D b fmt args = qc_vslprintf D fmt args b"


section \<open>Reference digits\<close>

text \<open>The digits of a number, most significant first, for a base and a table of digits.\<close>

fun digits :: "nat \<Rightarrow> (nat \<Rightarrow> char) \<Rightarrow> nat \<Rightarrow> string" where
  "digits base dig n =
     (if base < 2 \<or> n < base then [dig n] else digits base dig (n div base) @ [dig (n mod base)])"

declare digits.simps [simp del]

abbreviation decimal :: "nat \<Rightarrow> string" where
  "decimal \<equiv> digits 10 digit_char"

lemma dec_loop32_eq: "dec_loop32 ui p = decimal (unat ui) @ p"
proof (induction ui p rule: dec_loop32.induct)
  case (1 ui p)
  have z: "ui div 10 = 0 \<longleftrightarrow> unat ui < 10"
    by (simp add: unat_eq_zero [symmetric] unat_div div_eq_0_iff)
  show ?case
  proof (cases "ui div 10 = 0")
    case True
    with z show ?thesis by (simp add: dec_loop32.simps [of ui p] digits.simps [of 10] unat_mod)
  next
    case False
    have "dec_loop32 ui p = dec_loop32 (ui div 10) (digit_char (unat (ui mod 10)) # p)"
      using False by (simp add: dec_loop32.simps [of ui p])
    also have "\<dots> = decimal (unat (ui div 10)) @ digit_char (unat (ui mod 10)) # p"
      by (rule "1.IH" [OF refl refl False])
    also have "\<dots> = decimal (unat ui) @ p"
      using False z by (simp add: digits.simps [of 10 _ "unat ui"] unat_div unat_mod)
    finally show ?thesis .
  qed
qed

lemma dec_loop64_eq: "dec_loop64 ui p = decimal (unat ui) @ p"
proof (induction ui p rule: dec_loop64.induct)
  case (1 ui p)
  have z: "ui div 10 = 0 \<longleftrightarrow> unat ui < 10"
    by (simp add: unat_eq_zero [symmetric] unat_div div_eq_0_iff)
  show ?case
  proof (cases "ui div 10 = 0")
    case True
    with z show ?thesis by (simp add: dec_loop64.simps [of ui p] digits.simps [of 10] unat_mod)
  next
    case False
    have "dec_loop64 ui p = dec_loop64 (ui div 10) (digit_char (unat (ui mod 10)) # p)"
      using False by (simp add: dec_loop64.simps [of ui p])
    also have "\<dots> = decimal (unat (ui div 10)) @ digit_char (unat (ui mod 10)) # p"
      by (rule "1.IH" [OF refl refl False])
    also have "\<dots> = decimal (unat ui) @ p"
      using False z by (simp add: digits.simps [of 10 _ "unat ui"] unat_div unat_mod)
    finally show ?thesis .
  qed
qed

lemma hex_loop_eq: "hex_loop tbl ui p = digits 16 (\<lambda>n. tbl ! n) (unat ui) @ p"
proof (induction tbl ui p rule: hex_loop.induct)
  case (1 tbl ui p)
  have d: "unat (drop_bit 4 ui) = unat ui div 16" by (simp add: drop_bit_eq_div unat_div)
  have m: "unat (ui AND 0xf) = unat ui mod 16"
  proof -
    have "ui AND 0xf = take_bit 4 ui" by (simp add: take_bit_eq_mask mask_eq_exp_minus_1)
    then show ?thesis by (simp add: unsigned_take_bit_eq take_bit_eq_mod unat_mod)
  qed
  have z: "drop_bit 4 ui = 0 \<longleftrightarrow> unat ui < 16"
    unfolding unat_eq_zero [symmetric] d by (simp add: div_eq_0_iff)
  show ?case
  proof (cases "drop_bit 4 ui = 0")
    case True
    with z m show ?thesis by (simp add: hex_loop.simps [of tbl ui p] digits.simps [of 16])
  next
    case False
    have "hex_loop tbl ui p = hex_loop tbl (drop_bit 4 ui) (tbl ! unat (ui AND 0xf) # p)"
      using False by (simp add: hex_loop.simps [of tbl ui p])
    also have "\<dots> = digits 16 (\<lambda>n. tbl ! n) (unat (drop_bit 4 ui)) @ tbl ! unat (ui AND 0xf) # p"
      by (rule "1.IH" [OF refl refl False])
    also have "\<dots> = digits 16 (\<lambda>n. tbl ! n) (unat ui) @ p"
      using False z d m by (simp add: digits.simps [of 16 _ "unat ui"])
    finally show ?thesis .
  qed
qed

lemma num_digits_eq:
  "num_digits ui 0 = decimal (unat ui)"
  "num_digits ui 1 = digits 16 (\<lambda>n. hex_lower ! n) (unat ui)"
  "num_digits ui 2 = digits 16 (\<lambda>n. hex_upper ! n) (unat ui)"
proof -
  have "unat (ucast ui :: u32) = unat ui" if "ui \<le> 0xffffffff"
    using that by (simp add: unsigned_ucast_eq take_bit_eq_mod word_le_nat_alt)
  then show "num_digits ui 0 = decimal (unat ui)"
    by (simp add: num_digits_def dec_loop32_eq dec_loop64_eq)
qed (simp_all add: num_digits_def hex_loop_eq)

text \<open>The buffer \<open>temp\<close> of 20 characters is enough.\<close>

lemma digits_length: "2 \<le> base \<Longrightarrow> n < base ^ k \<Longrightarrow> 0 < k \<Longrightarrow> length (digits base dig n) \<le> k"
proof (induction k arbitrary: n)
  case (Suc k)
  show ?case
  proof (cases "n < base")
    case False
    with Suc.prems have "n div base < base ^ k" by (simp add: less_mult_imp_div_less mult.commute)
    moreover have "0 < k" using False Suc.prems by (cases k) simp_all
    ultimately have "length (digits base dig (n div base)) \<le> k" using Suc.IH Suc.prems(1) by blast
    with False show ?thesis by (simp add: digits.simps [of base _ n])
  qed (simp add: digits.simps [of base _ n])
qed simp

lemma num_digits_length: "length (num_digits ui h) \<le> 20"
proof -
  have l: "unat ui < 2 ^ 64"
    using unsigned_less [of ui] by simp
  then have "length (decimal (unat ui)) \<le> 20" by (intro digits_length) simp_all
  moreover have "length (digits 16 dig (unat ui)) \<le> 20" for dig using l by (intro digits_length) simp_all
  moreover have "num_digits ui h = decimal (unat ui) \<or> (\<exists>dig. num_digits ui h = digits 16 dig (unat ui))"
    using num_digits_eq(1) [of ui] by (cases "h = 0") (auto simp: num_digits_def hex_loop_eq)
  ultimately show ?thesis by auto
qed


section \<open>Writing as much as fits\<close>

definition emit :: "string \<Rightarrow> dest \<Rightarrow> dest" where
  "emit s b = b\<lparr>written := written b @ take (room b) s, room := room b - length s\<rparr>"

lemma emit_Nil [simp]: "emit [] b = b"
  by (simp add: emit_def)

lemma emit_simps [simp]:
  "room (emit s b) = room b - length s" "written (emit s b) = written b @ take (room b) s"
  by (simp_all add: emit_def)

lemma emit_append [simp]: "emit t (emit s b) = emit (s @ t) b"
  by (simp add: emit_def)

lemma emit_full [simp]: "room b = 0 \<Longrightarrow> emit s b = b"
  by (simp add: emit_def)

lemma put_emit: "0 < room b \<Longrightarrow> put c b = Inr (emit [c] b)"
  by (cases "room b") (simp_all add: put_def emit_def)

lemma bind_fmt_simps [simp]: "bind_fmt (Inr x) f = f x" "bind_fmt (Inl e) f = Inl e"
  by (simp_all add: bind_fmt_def)

lemma put_eq: "0 < room b \<Longrightarrow> b\<lparr>written := written b @ [c], room := room b - 1\<rparr> = emit [c] b"
  by (cases "room b") (simp_all add: emit_def)

lemma copy_str_emit: "copy_str p b = emit p b"
proof (induction p b rule: copy_str.induct)
  case (2 c p b)
  show ?case
  proof (cases "0 < room b")
    case True
    then have "copy_str (c # p) b = copy_str p (b\<lparr>written := written b @ [c], room := room b - 1\<rparr>)" by simp
    also have "\<dots> = emit p (b\<lparr>written := written b @ [c], room := room b - 1\<rparr>)" by (rule 2 [OF True])
    finally show ?thesis by (simp only: put_eq [OF True] emit_append append_Cons append_Nil)
  qed simp
qed simp

lemma pad_loop_emit: "pad_loop z len w b = emit (replicate (w - len) z) b"
proof (induction z len w b rule: pad_loop.induct)
  case (1 z len w b)
  show ?case
  proof (cases "len < w \<and> 0 < room b")
    case True
    have "pad_loop z len w b = pad_loop z (len + 1) w (b\<lparr>written := written b @ [z], room := room b - 1\<rparr>)"
      using True by (simp add: pad_loop.simps [of z len w b])
    also have "\<dots> = emit (replicate (w - (len + 1)) z) (b\<lparr>written := written b @ [z], room := room b - 1\<rparr>)"
      by (rule 1 [OF True])
    also have "\<dots> = emit ([z] @ replicate (w - (len + 1)) z) b"
      using True by (simp only: put_eq emit_append)
    also have "[z] @ replicate (w - (len + 1)) z = replicate (w - len) z"
      using True by (metis Suc_diff_Suc Suc_eq_plus1 append_Cons append_Nil replicate_Suc)
    finally show ?thesis .
  next
    case False
    then show ?thesis by (auto simp: pad_loop.simps [of z len w b])
  qed
qed

text \<open>A number right aligned in its field.\<close>

definition field :: "char \<Rightarrow> nat \<Rightarrow> u64 \<Rightarrow> u64 \<Rightarrow> string" where
  "field z h w ui = replicate (unat w - length (num_digits ui h)) z @ num_digits ui h"

lemma sprintf_num_emit: "qc_sprintf_num b ui z h w = emit (field z h w ui) b"
proof -
  let ?p = "num_digits ui h" and ?b = "emit (replicate (unat w - length (num_digits ui h)) z) b"
  have "qc_sprintf_num b ui z h w = emit ?p ?b"
    by (simp add: qc_sprintf_num_def Let_def pad_loop_emit emit_def)
  then show ?thesis by (simp add: field_def)
qed

section \<open>What a format stands for\<close>

text \<open>The text of a directive and of a format, without a limit on the room.\<close>

definition num_text :: "spec \<Rightarrow> u64 \<Rightarrow> u64 \<Rightarrow> string" where
  "num_text sp i64 ui64 =
     (if sign sp then (if sint i64 < 0 then ''-'' @ field (zero sp) (hex sp) (width sp) (- i64)
                       else field (zero sp) (hex sp) (width sp) i64)
      else field (zero sp) (hex sp) (width sp) ui64)"

definition double_text :: "'d double_ops \<Rightarrow> spec \<Rightarrow> 'd \<Rightarrow> string" where
  "double_text D sp f0 =
     (let f = (if d_negative D f0 then d_neg D f0 else f0);
          ui = d_int64 D f;
          scale = ((\<lambda>x. x * 10) ^^ unat (frac_width sp)) (1 :: u64);
          frac0 = (if frac_width sp \<noteq> 0 then d_frac D f ui scale else 0);
          (ui64, frac) = (if frac_width sp \<noteq> 0 \<and> frac0 = scale then (ui + 1, 0) else (ui, frac0))
      in (if d_negative D f0 then ''-'' else []) @ field (zero sp) 0 (width sp) ui64
         @ (if frac_width sp \<noteq> 0 then ''.'' @ field (CHR ''0'') 0 (frac_width sp) frac else []))"

definition directive_text :: "'d double_ops \<Rightarrow> char \<Rightarrow> spec \<Rightarrow> 'd arg list \<Rightarrow> fmt_error + string \<times> 'd arg list" where
  "directive_text D d sp args =
     (if d = CHR ''d'' then
        (case (sign sp, args) of (True, A_int i # as) \<Rightarrow> Inr (num_text sp (scast i) 0, as)
         | (False, A_uint i # as) \<Rightarrow> Inr (num_text sp 0 (ucast i), as) | _ \<Rightarrow> Inl Bad_arg)
      else if d = CHR ''i'' then
        (case (sign sp, args) of (True, A_intptr i # as) \<Rightarrow> if i = INT64_MIN then Inl Overflow else Inr (num_text sp i 0, as)
         | (False, A_uintptr i # as) \<Rightarrow> Inr (num_text sp 0 i, as) | _ \<Rightarrow> Inl Bad_arg)
      else if d = CHR ''L'' then
        (case (sign sp, args) of (True, A_int64 i # as) \<Rightarrow> if i = INT64_MIN then Inl Overflow else Inr (num_text sp i 0, as)
         | (False, A_uint64 i # as) \<Rightarrow> Inr (num_text sp 0 i, as) | _ \<Rightarrow> Inl Bad_arg)
      else if d = CHR ''p'' then
        (case args of A_ptr i # as \<Rightarrow> Inr (field (CHR ''0'') 2 16 i, as) | _ \<Rightarrow> Inl Bad_arg)
      else if d = CHR ''s'' then (case args of A_str p # as \<Rightarrow> Inr (p, as) | _ \<Rightarrow> Inl Bad_arg)
      else if d = CHR ''P'' then
        (case args of A_int i # as \<Rightarrow> Inr (num_text (sp\<lparr>sign := True\<rparr>) (scast i) 0, as) | _ \<Rightarrow> Inl Bad_arg)
      else if d = CHR ''f'' then
        (case args of A_double f # as \<Rightarrow> Inr (double_text D sp f, as) | _ \<Rightarrow> Inl Bad_arg)
      else Inr ([d], args))"

function render :: "'d double_ops \<Rightarrow> string \<Rightarrow> 'd arg list \<Rightarrow> fmt_error + string" where
  "render D fmt args =
     (case fmt of
        [] \<Rightarrow> Inr []
      | c # cs \<Rightarrow>
          if c = CHR ''%'' then
            (case snd (read_spec cs) of
               [] \<Rightarrow> Inl Past_end
             | d # rest \<Rightarrow>
                 bind_fmt (directive_text D d (fst (read_spec cs)) args)
                   (\<lambda>(s, as). bind_fmt (render D rest as) (\<lambda>t. Inr (s @ t))))
          else bind_fmt (render D cs args) (\<lambda>t. Inr (c # t)))"
  by pat_completeness auto
termination
proof (relation "measure (\<lambda>(D, fmt, args). length fmt)")
  fix D :: "'d double_ops" and fmt args c cs d rest x y
  assume "fmt = c # cs" and "snd (read_spec cs) = d # rest"
  then show "((D, rest, y), D, fmt, args) \<in> measure (\<lambda>(D, fmt, args). length fmt)"
    using read_spec_length [of cs] by simp
qed auto

declare render.simps [simp del]

lemma print_num_emit:
  assumes "0 < room b"
  shows "print_num sp i64 ui64 b =
    (if sign sp \<and> i64 = INT64_MIN then Inl Overflow else Inr (emit (num_text sp i64 ui64) b))"
proof -
  have "sint INT64_MIN < 0" by (simp add: INT64_MIN_def)
  then show ?thesis using assms by (auto simp: print_num_def num_text_def put_emit sprintf_num_emit)
qed

lemma scast_not_min [simp]: "scast (i :: u32) \<noteq> INT64_MIN"
proof
  assume "scast i = INT64_MIN"
  then have "sint (scast i :: u64) = - (2 ^ 63)" by (simp add: INT64_MIN_def)
  moreover have "sint (scast i :: u64) = sint i"
    using sint_ge [of i] sint_lt [of i] by (simp add: signed_scast_eq signed_take_bit_int_eq_self)
  ultimately show False using sint_ge [of i] by simp
qed

lemma dot_emit: "(if 0 < room b then b\<lparr>written := written b @ ''.'', room := room b - 1\<rparr> else b) = emit ''.'' b"
  by (cases "room b") (simp_all add: emit_def)

lemma print_double_emit: "0 < room b \<Longrightarrow> print_double D sp f b = Inr (emit (double_text D sp f) b)"
  unfolding print_double_def double_text_def Let_def dot_emit sprintf_num_emit case_prod_beta
  by (simp add: put_emit)

lemma convert_emit:
  assumes "0 < room b"
  shows "convert D d sp args b =
    (case directive_text D d sp args of Inl e \<Rightarrow> Inl e | Inr (s, as) \<Rightarrow> Inr (emit s b, as))"
proof -
  have p: "put c b = Inr (emit [c] b)" for c by (rule put_emit [OF assms])
  have n: "print_num sp' i u b = (if sign sp' \<and> i = INT64_MIN then Inl Overflow else Inr (emit (num_text sp' i u) b))"
    for sp' i u by (rule print_num_emit [OF assms])
  have f: "print_double D sp x b = Inr (emit (double_text D sp x) b)" for x by (rule print_double_emit [OF assms])
  show ?thesis
    unfolding convert_def directive_text_def Let_def p n f copy_str_emit bind_fmt_simps
    by (cases args; cases "hd args"; cases "sign sp") (simp_all add: num_text_def)
qed


lemma vslprintf_step:
  "qc_vslprintf D [] args b = Inr b"
  "room b = 0 \<Longrightarrow> qc_vslprintf D fmt args b = Inr b"
  "0 < room b \<Longrightarrow> c \<noteq> CHR ''%'' \<Longrightarrow> qc_vslprintf D (c # cs) args b = qc_vslprintf D cs args (emit [c] b)"
  "0 < room b \<Longrightarrow> snd (read_spec cs) = [] \<Longrightarrow> qc_vslprintf D (CHR ''%'' # cs) args b = Inl Past_end"
  "0 < room b \<Longrightarrow> snd (read_spec cs) = d # rest \<Longrightarrow>
   qc_vslprintf D (CHR ''%'' # cs) args b =
     (case directive_text D d (fst (read_spec cs)) args of
        Inl e \<Rightarrow> Inl e | Inr (s, as) \<Rightarrow> qc_vslprintf D rest as (emit s b))"
  by (simp_all add: qc_vslprintf.simps [of D "[]"] qc_vslprintf.simps [of D "_ # _"] qc_vslprintf.simps [of D fmt]
      put_emit convert_emit split: list.split sum.split prod.split)

lemma render_step:
  "render D [] args = Inr []"
  "c \<noteq> CHR ''%'' \<Longrightarrow> render D (c # cs) args = bind_fmt (render D cs args) (\<lambda>t. Inr (c # t))"
  "snd (read_spec cs) = [] \<Longrightarrow> render D (CHR ''%'' # cs) args = Inl Past_end"
  "snd (read_spec cs) = d # rest \<Longrightarrow>
   render D (CHR ''%'' # cs) args =
     bind_fmt (directive_text D d (fst (read_spec cs)) args)
       (\<lambda>(s, as). bind_fmt (render D rest as) (\<lambda>t. Inr (s @ t)))"
  by (simp_all add: render.simps [of D "[]"] render.simps [of D "_ # _"])

lemma render_trunc:
  "render D fmt args = Inr s \<Longrightarrow> qc_vslprintf D fmt args b = Inr (emit s b)"
proof (induction D fmt args b arbitrary: s rule: qc_vslprintf.induct)
  case (1 D fmt args b)
  show ?case
  proof (cases "room b = 0")
    case True
    then show ?thesis by (simp add: vslprintf_step(2))
  next
    case False
    then have rm: "0 < room b" by simp
    show ?thesis
    proof (cases fmt)
      case Nil
      with "1.prems" show ?thesis by (simp add: vslprintf_step render_step)
    next
      case (Cons c cs)
      show ?thesis
      proof (cases "c = CHR ''%''")
        case nc: False
        obtain t where t: "render D cs args = Inr t" "s = c # t"
          using "1.prems" nc by (auto simp: Cons render_step(2) bind_fmt_def split: sum.splits)
        have "qc_vslprintf D cs args (emit [c] b) = Inr (emit t (emit [c] b))"
          using "1.IH"(2) [OF Cons False nc] put_emit [OF rm, of c] t(1) by blast
        with rm nc t(2) show ?thesis by (simp add: Cons vslprintf_step(3))
      next
        case c: True
        then obtain d rest where sp: "snd (read_spec cs) = d # rest"
          using "1.prems" by (cases "snd (read_spec cs)") (auto simp: Cons render_step(3))
        obtain u as t where u: "directive_text D d (fst (read_spec cs)) args = Inr (u, as)"
            "render D rest as = Inr t" "s = u @ t"
          using "1.prems" by (auto simp: Cons c render_step(4) [OF sp] bind_fmt_def split: sum.splits)
        have "convert D d (fst (read_spec cs)) args b = Inr (emit u b, as)"
          by (simp add: convert_emit [OF rm] u(1))
        then have "qc_vslprintf D rest as (emit u b) = Inr (emit t (emit u b))"
          using "1.IH"(1) [OF Cons False c sp] u(2) by blast
        with rm c sp u(1,3) show ?thesis by (simp add: Cons vslprintf_step(5))
      qed
    qed
  qed
qed

lemma vslprintf_grows:
  "case qc_vslprintf D fmt args b of Inl e \<Rightarrow> e \<noteq> No_room | Inr b' \<Rightarrow> \<exists>s. b' = emit s b"
proof (induction D fmt args b rule: qc_vslprintf.induct)
  case (1 D fmt args b)
  show ?case
  proof (cases "room b = 0")
    case True
    then show ?thesis by (auto simp: vslprintf_step(2) intro: exI [of _ "[]"])
  next
    case False
    then have rm: "0 < room b" by simp
    show ?thesis
    proof (cases fmt)
      case Nil
      then show ?thesis by (auto simp: vslprintf_step intro: exI [of _ "[]"])
    next
      case (Cons c cs)
      show ?thesis
      proof (cases "c = CHR ''%''")
        case nc: False
        have "case qc_vslprintf D cs args (emit [c] b) of Inl e \<Rightarrow> e \<noteq> No_room | Inr b' \<Rightarrow> \<exists>s. b' = emit s (emit [c] b)"
          using "1.IH"(2) [OF Cons False nc] put_emit [OF rm, of c] by blast
        with rm nc show ?thesis
          by (auto simp: Cons vslprintf_step(3) simp del: emit_def split: sum.splits)
      next
        case c: True
        show ?thesis
        proof (cases "snd (read_spec cs)")
          case Nil
          with rm c show ?thesis by (simp add: Cons vslprintf_step(4))
        next
          case sp: (Cons d rest)
          show ?thesis
          proof (cases "directive_text D d (fst (read_spec cs)) args")
            case (Inl e)
            then have "e \<noteq> No_room"
              by (auto simp: directive_text_def split: if_splits list.splits arg.splits bool.splits)
            with Inl rm c sp show ?thesis by (simp add: Cons vslprintf_step(5))
          next
            case (Inr r)
            obtain u as where u: "r = (u, as)" by fastforce
            have "convert D d (fst (read_spec cs)) args b = Inr (emit u b, as)"
              by (simp add: convert_emit [OF rm] Inr u)
            then have "case qc_vslprintf D rest as (emit u b) of Inl e \<Rightarrow> e \<noteq> No_room | Inr b' \<Rightarrow> \<exists>s. b' = emit s (emit u b)"
              using "1.IH"(1) [OF Cons False c sp] by blast
            with rm c sp Inr u show ?thesis by (auto simp: Cons vslprintf_step(5) split: sum.splits)
          qed
        qed
      qed
    qed
  qed
qed


section \<open>Numbers can be read back\<close>

lemma digit_char_value: "k < 10 \<Longrightarrow> of_char (digit_char k) = k + 48"
  by (simp add: digit_char_def)

lemma digit_char_is_digit: "k < 10 \<Longrightarrow> is_digit (digit_char k)"
  by (simp add: is_digit_def digit_char_value)

lemma decimal_simps:
  "n < 10 \<Longrightarrow> decimal n = [digit_char n]"
  "\<not> n < 10 \<Longrightarrow> decimal n = decimal (n div 10) @ [digit_char (n mod 10)]"
  by (simp_all add: digits.simps [of 10 _ n])

lemma decimal_induct [case_names digit more]:
  assumes "\<And>n :: nat. n < 10 \<Longrightarrow> P n" and "\<And>n. \<not> n < 10 \<Longrightarrow> P (n div 10) \<Longrightarrow> P n"
  shows "P n"
  by (induction n rule: less_induct) (metis assms div_less_dividend less_numeral_extra(4) linorder_neqE_nat
      not_numeral_less_one one_less_numeral_iff semiring_norm(76) zero_less_numeral not_less_zero)

lemma decimal_digits: "c \<in> set (decimal n) \<Longrightarrow> is_digit c"
  by (induction n rule: decimal_induct) (auto simp: decimal_simps digit_char_is_digit)

lemma read_num_decimal:
  "read_num a (decimal n @ rest) = read_num (a * 10 ^ length (decimal n) + of_nat n) rest"
proof (induction n arbitrary: rest rule: less_induct)
  case (less n)
  show ?case
  proof (cases "n < 10")
    case True
    then show ?thesis by (simp add: digits.simps [of 10 _ n] digit_char_is_digit digit_char_value)
  next
    case False
    have d: "decimal n = decimal (n div 10) @ [digit_char (n mod 10)]"
      using False by (simp add: digits.simps [of 10 _ n])
    have n: "(of_nat n :: u64) = of_nat (n div 10) * 10 + of_nat (n mod 10)"
      by (metis div_mult_mod_eq of_nat_add of_nat_mult of_nat_numeral)
    have "read_num a (decimal n @ rest) = read_num a (decimal (n div 10) @ digit_char (n mod 10) # rest)"
      by (simp add: d)
    also have "\<dots> = read_num (a * 10 ^ length (decimal (n div 10)) + of_nat (n div 10)) (digit_char (n mod 10) # rest)"
      using False by (intro less) simp
    also have "\<dots> = read_num (a * 10 ^ length (decimal n) + of_nat n) rest"
      by (simp add: digit_char_is_digit digit_char_value d n algebra_simps)
    finally show ?thesis .
  qed
qed

lemma decimal_no_zero: "n \<noteq> 0 \<Longrightarrow> hd (decimal n) \<noteq> CHR ''0''"
proof (induction n rule: less_induct)
  case (less n)
  show ?case
  proof (cases "n < 10")
    case True
    have "(of_char (digit_char n) :: nat) \<noteq> of_char CHR ''0''"
      using True less.prems by (simp add: digit_char_value)
    with True show ?thesis by (auto simp: digits.simps [of 10 _ n])
  next
    case False
    have "decimal (n div 10) \<noteq> []" by (subst digits.simps) simp
    moreover have "hd (decimal (n div 10)) \<noteq> CHR ''0''" using False by (intro less.IH) simp_all
    ultimately show ?thesis using False by (simp add: digits.simps [of 10 _ n])
  qed
qed

lemma decimal_zero: "decimal 0 = ''0''"
proof -
  have "(of_char (digit_char 0) :: nat) = of_char CHR ''0''" by (simp add: digit_char_value)
  then have "digit_char 0 = CHR ''0''" by (simp only: of_char_eq_iff)
  then show ?thesis by (simp add: digits.simps)
qed

section \<open>Properties\<close>

text \<open>
  C12. \<open>qc_vslprintf\<close> writes what its format and arguments stand for, cut off at \<open>last\<close>: the text is
  that of the reference \<open>render\<close>, which knows no buffer, and nothing of it is lost or written twice
  when the room runs out in the middle of a directive.
\<close>

theorem vslprintf_truncates_rendering:
  assumes "render D fmt args = Inr s"
  shows "qc_vslprintf D fmt args b =
    Inr (b\<lparr>written := written b @ take (room b) s, room := room b - length s\<rparr>)"
  using render_trunc [OF assms, of b] by (simp add: emit_def)

text \<open>
  C31. For every format, also one that does not fit its arguments, \<open>qc_vslprintf\<close> never writes at
  \<open>last\<close> or behind it: what it appends and the room it leaves make up the room it had.
\<close>

theorem vslprintf_bounded:
  "case qc_vslprintf D fmt args b of
     Inl e \<Rightarrow> e \<noteq> No_room
   | Inr b' \<Rightarrow> \<exists>out. written b' = written b @ out \<and> length out + room b' = room b"
proof (cases "qc_vslprintf D fmt args b")
  case (Inl e)
  then show ?thesis using vslprintf_grows [where D = D and fmt = fmt and args = args and b = b] by simp
next
  case (Inr b')
  then obtain s where "b' = emit s b" using vslprintf_grows [where D = D and fmt = fmt and args = args and b = b] by auto
  with Inr show ?thesis by (auto intro: exI [of _ "take (room b) s"])
qed

text \<open>
  C30. \<open>qc_sprintf_num\<close> in decimal prints the number right aligned in its field, with no leading
  zeros of its own, in at most 20 digits (the size of its buffer), and the digits read by the loop
  that parses widths give the number back. Numbers up to 32 bits take the 32 bit loop.
\<close>

theorem sprintf_num_reads_back:
  assumes "20 \<le> room b" and "unat w \<le> room b"
  shows "\<exists>ds. written (qc_sprintf_num b ui z 0 w) = written b @ replicate (unat w - length ds) z @ ds
    \<and> length ds \<le> 20 \<and> read_num 0 ds = (ui, []) \<and> (hd ds = CHR ''0'' \<longrightarrow> ds = ''0'')"
proof (intro exI [of _ "decimal (unat ui)"] conjI)
  have l: "length (decimal (unat ui)) \<le> 20" using num_digits_length [of ui 0] by (simp add: num_digits_eq(1))
  then show "length (decimal (unat ui)) \<le> 20" .
  have "length (field z 0 w ui) \<le> room b" using l assms by (simp add: field_def num_digits_eq(1))
  then show "written (qc_sprintf_num b ui z 0 w) =
      written b @ replicate (unat w - length (decimal (unat ui))) z @ decimal (unat ui)"
    by (simp add: sprintf_num_emit) (simp add: field_def num_digits_eq(1))
  show "read_num 0 (decimal (unat ui)) = (ui, [])" using read_num_decimal [of 0 "unat ui" "[]"] by simp
  show "hd (decimal (unat ui)) = CHR ''0'' \<longrightarrow> decimal (unat ui) = ''0''"
    using decimal_no_zero [of "unat ui"] decimal_zero by (cases "unat ui = 0") auto
qed

theorem sprintf_num_reads_back_witness:
  "\<exists>ds. written (qc_sprintf_num \<lparr>written = ''x='', room = 30\<rparr> 1234567 (CHR '' '') 0 10) =
      ''x='' @ replicate (10 - length ds) (CHR '' '') @ ds \<and> read_num 0 ds = (1234567, [])"
  using sprintf_num_reads_back [of "\<lparr>written = ''x='', room = 30\<rparr>" 10 1234567 "CHR '' ''"] by fastforce

lemma percent_d_render:
  "render D ''%d'' [A_int i] =
     Inr (if sint i < 0 then CHR ''-'' # decimal (nat (- sint i)) else decimal (nat (sint i)))"
proof -
  let ?i = "scast i :: u64"
  have sp: "read_spec ''d'' = (\<lparr>zero = CHR '' '', width = 0, sign = True, hex = 0, frac_width = 0\<rparr>, ''d'')"
    by (simp add: read_spec_def is_digit_def)
  have b: "- (2 ^ 31) \<le> sint i" "sint i < 2 ^ 31" using sint_ge [of i] sint_lt [of i] by simp_all
  have w: "?i = word_of_int (sint i)" by (rule scast_eq)
  have u: "unat (word_of_int k :: u64) = nat k" if "0 \<le> k" "k < 2 ^ 64" for k
    using that by (simp add: unat_eq_nat_uint uint_word_of_int_eq take_bit_eq_mod)
  have s: "sint ?i = sint i" using b by (simp add: signed_scast_eq signed_take_bit_int_eq_self)
  have p: "unat ?i = nat (sint i)" if "0 \<le> sint i" unfolding w using that b by (intro u) simp_all
  have "- ?i = word_of_int (- sint i)" unfolding w by (rule of_int_minus [symmetric])
  then have n: "unat (- ?i) = nat (- sint i)" if "sint i < 0" using that b u [of "- sint i"] by simp
  have "num_text \<lparr>zero = CHR '' '', width = 0, sign = True, hex = 0, frac_width = 0\<rparr> ?i 0 =
    (if sint i < 0 then CHR ''-'' # decimal (nat (- sint i)) else decimal (nat (sint i)))"
    using p n by (simp add: num_text_def s field_def num_digits_eq(1))
  then show ?thesis by (simp add: render_step(4) [of "''d''" "CHR ''d''" "[]"] sp directive_text_def render_step(1))
qed

text \<open>
  The directive for a signed integer prints its value for every \<open>int\<close>, the smallest included,
  whose negation is taken in 64 bits.
\<close>

theorem percent_d_prints_value:
  "render D ''%d'' [A_int i] =
     Inr (if sint i < 0 then CHR ''-'' # decimal (nat (- sint i)) else decimal (nat (sint i)))"
  by (rule percent_d_render)


lemma render_literal: "CHR ''%'' \<notin> set lit \<Longrightarrow> render D lit args = Inr lit"
  by (induction lit) (auto simp: render_step)

lemma vslprintf_literal:
  "CHR ''%'' \<notin> set lit \<Longrightarrow> length lit < room b \<Longrightarrow>
   qc_vslprintf D (lit @ fmt) args b = qc_vslprintf D fmt args (emit lit b)"
proof (induction lit arbitrary: b)
  case (Cons c lit)
  then have "qc_vslprintf D (lit @ fmt) args (emit [c] b) = qc_vslprintf D fmt args (emit lit (emit [c] b))"
    by (intro Cons.IH) simp_all
  with Cons.prems show ?case by (auto simp: vslprintf_step(3))
qed simp

text \<open>Doubles that are whole numbers.\<close>

definition whole_ops :: "int double_ops" where
  "whole_ops = \<lparr>d_negative = (\<lambda>f. f < 0), d_neg = uminus, d_int64 = of_int, d_frac = (\<lambda>f ui scale. 0)\<rparr>"

theorem vslprintf_truncates_rendering_witness:
  "qc_vslprintf whole_ops ''pid %d'' [A_int 42] \<lparr>written = [], room = 5\<rparr> = Inr \<lparr>written = ''pid 4'', room = 0\<rparr>"
proof -
  have "decimal 42 = ''42''"
  proof -
    have d: "digit_char 4 = CHR ''4''" "digit_char 2 = CHR ''2''"
      by (simp_all only: of_char_eq_iff [symmetric, where 'a = nat]) (simp_all add: digit_char_value)
    show ?thesis by (simp add: digits.simps [of 10 _ 42] digits.simps [of 10 _ 4] d)
  qed
  then have "render whole_ops ''%d'' [A_int 42] = Inr ''42''" by (simp add: percent_d_render)
  then have "render whole_ops ''pid %d'' [A_int 42] = Inr ''pid 42''"
    by (simp add: render_step(2))
  from vslprintf_truncates_rendering [OF this, of "\<lparr>written = [], room = 5\<rparr>"] show ?thesis by simp
qed

text \<open>
  A format that ends in a single percent sign makes \<open>qc_vslprintf\<close> copy the terminator and go
  on reading behind it, provided there is room for the text before the sign.
\<close>

theorem trailing_percent_reads_past_end:
  assumes "CHR ''%'' \<notin> set lit" and "length lit < n"
  shows "qc_snprintf D n (lit @ ''%'') args = Inl Past_end"
proof -
  have "read_spec [] = (\<lparr>zero = CHR '' '', width = 0, sign = True, hex = 0, frac_width = 0\<rparr>, [])"
    by (simp add: read_spec_def)
  with assms show ?thesis by (simp add: qc_snprintf_def vslprintf_literal vslprintf_step(4))
qed

theorem trailing_percent_reads_past_end_witness: "qc_snprintf whole_ops 100 ''load: 90%'' [] = Inl Past_end"
  using trailing_percent_reads_past_end [of "''load: 90''" 100 whole_ops "[]"] by simp

end
