(* ===== verification/QcConf.thy ===== *)
theory QcConf
  imports QcPrintf
begin

text \<open>
  Reading the configuration file: public/qc\_conf.cc with the trimming of public/qc\_public.cc. A
  character array is the list of its cells; the string in it ends before the first null character
  (\<open>c_string\<close>). A file is what \<open>fgets\<close> finds in it, and whether reading fails where it ends.
  The loop of \<open>Load\<close> ends with the end of file flag only, so it is a partial function.
\<close>

section \<open>Arrays of characters\<close>

abbreviation (input) NUL :: char where "NUL \<equiv> CHR 0x00"

definition c_string :: "string \<Rightarrow> string" where
  "c_string m = takeWhile (\<lambda>c. c \<noteq> NUL) m"

text \<open>\<open>while (len > 0 && string[len-1] == ' ') string[--len] = 0;\<close>\<close>

fun Rtrim_loop :: "nat \<Rightarrow> string \<Rightarrow> string" where
  "Rtrim_loop 0 m = m"
| "Rtrim_loop (Suc len) m = (if m ! len = CHR '' '' then Rtrim_loop len (m[len := NUL]) else m)"

definition Rtrim :: "string \<Rightarrow> string" where
  "Rtrim m = Rtrim_loop (length (c_string m)) m"

text \<open>The search for the first character that is no space, and the copy to the front, in place.\<close>

function Ltrim_skip :: "string \<Rightarrow> nat \<Rightarrow> nat" where
  "Ltrim_skip m p =
     (if p < length m \<and> m ! p \<noteq> NUL \<and> m ! p = CHR '' '' then Ltrim_skip m (Suc p) else p)"
  by pat_completeness auto
termination by (relation "measure (\<lambda>(m, p). length m - p)") auto

function Ltrim_copy :: "string \<Rightarrow> nat \<Rightarrow> nat \<Rightarrow> string" where
  "Ltrim_copy m p q =
     (if p < length m \<and> m ! p \<noteq> NUL then Ltrim_copy (m[q := m ! p]) (Suc p) (Suc q) else m[q := NUL])"
  by pat_completeness auto
termination by (relation "measure (\<lambda>(m, p, q). length m - p)") auto

declare Ltrim_skip.simps [simp del] Ltrim_copy.simps [simp del]

definition Ltrim :: "string \<Rightarrow> string" where
  "Ltrim m =
     (if m ! 0 \<noteq> CHR '' '' then m
      else (let p = Ltrim_skip m 0
            in if m ! p = NUL then m[0 := NUL] else Ltrim_copy m p 0))"

section \<open>Files\<close>

record stream =
  content :: string
  eof :: bool
  io_error :: bool

text \<open>At most \<open>n\<close> characters, up to a newline: the line, the rest, whether the end was met.\<close>

fun get_line :: "nat \<Rightarrow> string \<Rightarrow> string \<times> string \<times> bool" where
  "get_line 0 s = ([], s, False)"
| "get_line (Suc n) [] = ([], [], True)"
| "get_line (Suc n) (c # s) =
     (if c = CHR 0x0A then ([c], s, False)
      else (let (l, r, e) = get_line n s in (c # l, r, e)))"

text \<open>\<open>fgets(data, n, fp)\<close>: a failing read sets no end of file flag and gives no line.\<close>

definition fgets :: "nat \<Rightarrow> stream \<Rightarrow> string option \<times> stream" where
  "fgets n f =
     (let (l, r, e) = get_line (n - 1) (content f)
      in if e \<and> io_error f then (None, f\<lparr>content := r\<rparr>)
         else (if l = [] then None else Some l, f\<lparr>content := r, eof := eof f \<or> e\<rparr>))"

section \<open>Load\<close>

record CConfItem =
  ItemName :: string
  ItemContent :: string

datatype conf_error = Name_overflow

function strip_end :: "string \<Rightarrow> string" where
  "strip_end s =
     (if s \<noteq> [] \<and> last s \<in> {CHR 0x0A, CHR 0x0D, CHR 0x20} then strip_end (butlast s) else s)"
  by pat_completeness auto
termination by (relation "measure length") auto

declare strip_end.simps [simp del]

definition strchr :: "string \<Rightarrow> char \<Rightarrow> nat option" where
  "strchr s c = (if c \<in> set s then Some (length (takeWhile (\<lambda>d. d \<noteq> c) s)) else None)"

text \<open>
  The two arrays of a new item are zero; a name that leaves no room for its terminator is written
  over the content that follows it, which C leaves undefined.
\<close>

definition new_item :: "string \<Rightarrow> nat \<Rightarrow> conf_error + CConfItem" where
  "new_item data item =
     (if 50 \<le> item then Inl Name_overflow
      else (let name = take item data @ replicate (50 - item) NUL;
                cont = drop (item + 1) data @ replicate (500 - length (drop (item + 1) data)) NUL
            in Inr \<lparr>ItemName = Ltrim (Rtrim name), ItemContent = Ltrim (Rtrim cont)\<rparr>))"

definition is_comment :: "char \<Rightarrow> bool" where
  "is_comment c \<longleftrightarrow> c \<in> {CHR '';'', CHR ''#'', CHR '' '', CHR 0x09, CHR 0x0A}"

text \<open>One turn of the loop, on the line \<open>fgets\<close> has stored.\<close>

definition load_line :: "string \<Rightarrow> conf_error + CConfItem option" where
  "load_line data =
     (let s = c_string data
      in if s = [] then Inr None
         else if is_comment (hd s) then Inr None
         else (let t = strip_end s
               in if t = [] \<or> hd t = CHR ''['' then Inr None
                  else (case strchr t (CHR ''='') of
                          None \<Rightarrow> Inr None
                        | Some item \<Rightarrow> map_sum id Some (new_item t item))))"

partial_function (option) Load_loop :: "stream \<Rightarrow> CConfItem list \<Rightarrow> (conf_error + CConfItem list) option" where
  "Load_loop f items =
     (if eof f then Some (Inr items)
      else (case fgets 500 f of
              (None, f') \<Rightarrow> Load_loop f' items
            | (Some data, f') \<Rightarrow>
                (case load_line data of
                   Inl e \<Rightarrow> Some (Inl e)
                 | Inr None \<Rightarrow> Load_loop f' items
                 | Inr (Some i) \<Rightarrow> Load_loop f' (items @ [i]))))"

definition Load :: "stream option \<Rightarrow> CConfItem list \<Rightarrow> (conf_error + bool \<times> CConfItem list) option" where
  "Load fp m_ConfigItemList =
     (case fp of
        None \<Rightarrow> Some (Inr (False, m_ConfigItemList))
      | Some f \<Rightarrow> map_option (map_sum id (\<lambda>items. (True, items))) (Load_loop f m_ConfigItemList))"

section \<open>Queries\<close>

definition to_lower :: "char \<Rightarrow> char" where
  "to_lower c = (let n = of_char c :: nat in if 65 \<le> n \<and> n \<le> 90 then char_of (n + 32) else c)"

definition strcasecmp :: "string \<Rightarrow> string \<Rightarrow> bool" where
  "strcasecmp a b \<longleftrightarrow> map to_lower (c_string a) = map to_lower (c_string b)"

fun GetString :: "CConfItem list \<Rightarrow> string \<Rightarrow> string option" where
  "GetString [] p_itemname = None"
| "GetString (it # items) p_itemname =
     (if strcasecmp p_itemname (ItemName it) then Some (ItemContent it) else GetString items p_itemname)"

text \<open>\<open>atoi\<close>, whose value outside the range of \<open>int\<close> is undefined.\<close>

fun atoi_digits :: "nat \<Rightarrow> string \<Rightarrow> nat" where
  "atoi_digits n [] = n"
| "atoi_digits n (c # s) =
     (if 48 \<le> (of_char c :: nat) \<and> (of_char c :: nat) \<le> 57
      then atoi_digits (n * 10 + (of_char c - 48)) s else n)"

definition isspace :: "char \<Rightarrow> bool" where
  "isspace c \<longleftrightarrow> c = CHR '' '' \<or> (9 \<le> (of_char c :: nat) \<and> (of_char c :: nat) \<le> 13)"

definition atoi :: "string \<Rightarrow> int option" where
  "atoi m =
     (let s = dropWhile isspace (c_string m);
          v = (case s of
                 [] \<Rightarrow> 0
               | c # r \<Rightarrow> if c = CHR ''-'' then - int (atoi_digits 0 r)
                          else if c = CHR ''+'' then int (atoi_digits 0 r)
                          else int (atoi_digits 0 s))
      in if - (2 ^ 31) \<le> v \<and> v < 2 ^ 31 then Some v else None)"

fun GetIntDefault :: "CConfItem list \<Rightarrow> string \<Rightarrow> int \<Rightarrow> int option" where
  "GetIntDefault [] p_itemname def = Some def"
| "GetIntDefault (it # items) p_itemname def =
     (if strcasecmp (ItemName it) p_itemname then atoi (ItemContent it)
      else GetIntDefault items p_itemname def)"

section \<open>Trimming in place\<close>

definition rtrim :: "string \<Rightarrow> string" where
  "rtrim s = rev (dropWhile (\<lambda>c. c = CHR '' '') (rev s))"

definition ltrim :: "string \<Rightarrow> string" where
  "ltrim s = dropWhile (\<lambda>c. c = CHR '' '') s"

lemma rtrim_snoc [simp]: "rtrim (s @ [c]) = (if c = CHR '' '' then rtrim s else s @ [c])"
  by (simp add: rtrim_def)

lemma rtrim_Nil [simp]: "rtrim [] = []"
  by (simp add: rtrim_def)

lemma rtrim_length: "length (rtrim s) \<le> length s"
  using length_dropWhile_le [of _ "rev s"] by (simp add: rtrim_def)

lemma set_rtrim: "set (rtrim s) \<subseteq> set s"
  using set_dropWhileD [of _ _ "rev s"] by (auto simp: rtrim_def)

lemma set_ltrim: "set (ltrim s) \<subseteq> set s"
  using set_dropWhileD [of _ _ s] by (auto simp: ltrim_def)

lemma c_string_append: "NUL \<notin> set s \<Longrightarrow> c_string (s @ NUL # z) = s"
  by (induction s) (auto simp: c_string_def)

lemma c_string_id: "NUL \<notin> set s \<Longrightarrow> c_string s = s"
  by (auto simp: c_string_def takeWhile_eq_all_conv)

lemma c_string_clean: "NUL \<notin> set (c_string s)"
  using set_takeWhileD [of NUL _ s] by (auto simp: c_string_def)

lemma cells_split: "NUL \<in> set m \<Longrightarrow> \<exists>z. m = c_string m @ NUL # z"
proof (induction m)
  case (Cons c m)
  then show ?case by (cases "c = NUL") (auto simp: c_string_def)
qed simp

lemma Rtrim_loop_eq:
  "Rtrim_loop (length s) (s @ replicate k NUL @ z) =
     rtrim s @ replicate (length s - length (rtrim s) + k) NUL @ z"
proof (induction s arbitrary: k rule: rev_induct)
  case (snoc c s)
  have "(s @ [c] @ replicate k NUL @ z)[length s := NUL] = s @ replicate (Suc k) NUL @ z"
    by (simp add: list_update_append)
  with snoc.IH [of "Suc k"] rtrim_length [of s] show ?case
    by (auto simp: nth_append Suc_diff_le)
qed simp

lemma Rtrim_eq:
  assumes "NUL \<notin> set s" and "0 < k"
  shows "Rtrim (s @ replicate k NUL) = rtrim s @ replicate (length s - length (rtrim s) + k) NUL"
proof -
  have "c_string (s @ replicate k NUL) = s"
    using c_string_append [OF assms(1)] assms(2) by (cases k) auto
  with Rtrim_loop_eq [of s k "[]"] show ?thesis by (simp add: Rtrim_def)
qed

lemma Ltrim_skip_eq:
  "NUL \<notin> set t \<Longrightarrow> Ltrim_skip (a @ t @ NUL # z) (length a) = length a + (length t - length (ltrim t))"
proof (induction t arbitrary: a)
  case Nil
  then show ?case by (simp add: Ltrim_skip.simps ltrim_def)
next
  case (Cons c t)
  have l: "length (ltrim t) \<le> length t" using length_dropWhile_le [of _ t] by (simp add: ltrim_def)
  from Cons.IH [of "a @ [c]"] Cons.prems l show ?case
    by (subst Ltrim_skip.simps) (auto simp: ltrim_def nth_append Suc_diff_le)
qed

lemma Ltrim_copy_eq:
  "q \<le> length a \<Longrightarrow> NUL \<notin> set t \<Longrightarrow>
   \<exists>w. Ltrim_copy (a @ t @ NUL # z) (length a) q = take q a @ t @ NUL # w
     \<and> q + length w = length a + length z"
proof (induction t arbitrary: a q)
  case Nil
  then have "(a @ NUL # z)[q := NUL] = take q a @ NUL # drop (Suc q) (a @ NUL # z)"
    by (subst upd_conv_take_nth_drop) auto
  with Nil show ?case
    by (subst Ltrim_copy.simps) (auto intro!: exI [of _ "drop (Suc q) (a @ NUL # z)"])
next
  case (Cons c t)
  let ?a = "(a @ [c])[q := c]"
  have u: "(a @ (c # t) @ NUL # z)[q := c] = ?a @ t @ NUL # z"
    using Cons.prems(1) by (simp add: list_update_append)
  have tk: "take (Suc q) ?a = take q a @ [c]"
    using Cons.prems(1) by (simp add: take_Suc_conv_app_nth)
  from Cons.IH [of "Suc q" ?a] Cons.prems tk obtain w where
    "Ltrim_copy (?a @ t @ NUL # z) (length ?a) (Suc q) = take q a @ [c] @ t @ NUL # w"
    "q + length w = length a + length z" by auto
  with Cons.prems u show ?case by (subst Ltrim_copy.simps) (auto simp: nth_append)
qed

text \<open>
  The string in the array loses its leading spaces and the array keeps its length; what lies behind
  the new terminator is left as the copy found it.
\<close>

lemma Ltrim_eq:
  assumes "NUL \<notin> set s"
  shows "\<exists>w. Ltrim (s @ NUL # z) = ltrim s @ NUL # w \<and> length (ltrim s) + length w = length s + length z"
proof (cases s)
  case Nil
  then show ?thesis by (simp add: Ltrim_def ltrim_def)
next
  case (Cons c t)
  define p where "p = length s - length (ltrim s)"
  have lt: "ltrim s = drop p s"
    unfolding p_def ltrim_def dropWhile_eq_drop by (simp add: min_def length_takeWhile_le)
  have ps: "p \<le> length s" by (simp add: p_def)
  have sk: "Ltrim_skip (s @ NUL # z) 0 = p" using Ltrim_skip_eq [OF assms, of "[]" z] by (simp add: p_def)
  show ?thesis
  proof (cases "c = CHR '' ''")
    case False
    with Cons show ?thesis by (simp add: Ltrim_def ltrim_def)
  next
    case sp: True
    show ?thesis
    proof (cases "p = length s")
      case True
      with sk sp Cons lt show ?thesis by (auto simp: Ltrim_def Let_def)
    next
      case False
      with ps have pl: "p < length s" by simp
      have "s ! p \<in> set s" using pl by (rule nth_mem)
      with assms have "s ! p \<noteq> NUL" by metis
      with pl have nn: "(s @ NUL # z) ! p \<noteq> NUL" by (simp add: nth_append)
      have sp2: "s @ NUL # z = take p s @ ltrim s @ NUL # z" by (simp add: lt)
      have "NUL \<notin> set (ltrim s)" using assms set_ltrim [of s] by auto
      from Ltrim_copy_eq [of 0 "take p s", OF _ this, of z] obtain w where
        "Ltrim_copy (s @ NUL # z) p 0 = ltrim s @ NUL # w" "length w = p + length z"
        using pl sp2 by auto
      moreover have "length (ltrim s) = length s - p" by (simp add: lt)
      ultimately show ?thesis using sk nn sp Cons pl by (auto simp: Ltrim_def Let_def nth_append)
    qed
  qed
qed

lemma trim_array:
  assumes "NUL \<notin> set s" and "length s < n"
  shows "\<exists>w. Ltrim (Rtrim (s @ replicate (n - length s) NUL)) = ltrim (rtrim s) @ NUL # w
    \<and> length (ltrim (rtrim s)) + 1 + length w = n"
proof -
  let ?k = "length s - length (rtrim s) + (n - length s)"
  have k: "?k = Suc (?k - 1)" using assms(2) by simp
  have r: "Rtrim (s @ replicate (n - length s) NUL) = rtrim s @ NUL # replicate (?k - 1) NUL"
    using Rtrim_eq [OF assms(1), of "n - length s"] assms(2) k
    by (metis replicate_Suc zero_less_diff)
  have "NUL \<notin> set (rtrim s)" using assms(1) set_rtrim [of s] by auto
  from Ltrim_eq [OF this, of "replicate (?k - 1) NUL"] r rtrim_length [of s] assms(2) show ?thesis by auto
qed

section \<open>A line and a file\<close>

text \<open>What a configuration file stands for: a list of names with their values.\<close>

definition line_end :: "char set" where "line_end = {CHR 0x0A, CHR 0x0D, CHR 0x20}"

definition strip :: "string \<Rightarrow> string" where
  "strip s = rev (dropWhile (\<lambda>c. c \<in> line_end) (rev s))"

fun split_lines :: "string \<Rightarrow> string list" where
  "split_lines [] = []"
| "split_lines (c # s) =
     (if c = CHR 0x0A then [] # split_lines s
      else (case split_lines s of [] \<Rightarrow> [[c]] | l # ls \<Rightarrow> (c # l) # ls))"

definition item_line :: "string \<Rightarrow> bool" where
  "item_line l \<longleftrightarrow> l \<noteq> [] \<and> \<not> is_comment (hd l) \<and> hd l \<noteq> CHR ''['' \<and> CHR ''='' \<in> set l"

definition raw_name :: "string \<Rightarrow> string" where
  "raw_name l = takeWhile (\<lambda>c. c \<noteq> CHR ''='') l"

definition spec_line :: "string \<Rightarrow> (string \<times> string) list" where
  "spec_line l =
     (if item_line l
      then [(ltrim (rtrim (raw_name l)), ltrim (strip (tl (dropWhile (\<lambda>c. c \<noteq> CHR ''='') l))))]
      else [])"

definition spec_file :: "string \<Rightarrow> (string \<times> string) list" where
  "spec_file s = concat (map spec_line (split_lines s))"

definition item_of :: "CConfItem \<Rightarrow> string \<times> string" where
  "item_of it = (c_string (ItemName it), c_string (ItemContent it))"

definition line_ok :: "string \<Rightarrow> bool" where
  "line_ok l \<longleftrightarrow> NUL \<notin> set l \<and> length l < 499 \<and> (item_line l \<longrightarrow> length (raw_name l) < 50)"

lemma strip_end_eq: "strip_end s = strip s"
proof (induction s rule: strip_end.induct)
  case (1 s)
  then show ?case
    by (subst strip_end.simps, cases s rule: rev_cases) (auto simp: strip_def line_end_def)
qed

lemma strip_snoc [simp]: "strip (s @ [c]) = (if c \<in> line_end then strip s else s @ [c])"
  by (simp add: strip_def)

lemma strip_Nil [simp]: "strip [] = []"
  by (simp add: strip_def)

lemma strip_append: "c \<notin> line_end \<Longrightarrow> strip (s @ c # t) = s @ c # strip t"
proof (induction t rule: rev_induct)
  case (snoc d t)
  then show ?case using strip_snoc [of "s @ c # t" d] by auto
qed simp

lemma set_strip: "set (strip s) \<subseteq> set s"
  using set_dropWhileD [of _ _ "rev s"] by (auto simp: strip_def)

lemma strip_length: "length (strip s) \<le> length s"
  using length_dropWhile_le [of _ "rev s"] by (simp add: strip_def)

lemma rtrim_strip: "rtrim (strip s) = strip s"
  by (induction s rule: rev_induct) (auto simp: line_end_def)

lemma new_item_eq:
  assumes "NUL \<notin> set n" "NUL \<notin> set v" "length n < 50" "length v < 500"
  shows "\<exists>it. new_item (n @ CHR ''='' # v) (length n) = Inr it
    \<and> item_of it = (ltrim (rtrim n), ltrim (rtrim v))"
proof -
  from trim_array [OF assms(1,3)] trim_array [OF assms(2,4)] obtain w w' where
    w: "Ltrim (Rtrim (n @ replicate (50 - length n) NUL)) = ltrim (rtrim n) @ NUL # w"
       "Ltrim (Rtrim (v @ replicate (500 - length v) NUL)) = ltrim (rtrim v) @ NUL # w'" by blast
  have "NUL \<notin> set (ltrim (rtrim n))" "NUL \<notin> set (ltrim (rtrim v))"
    using assms(1,2) set_ltrim set_rtrim by blast+
  then show ?thesis using assms(3) w by (simp add: new_item_def item_of_def c_string_append Let_def)
qed

lemma equals_split:
  "CHR ''='' \<in> set l \<Longrightarrow> l = raw_name l @ CHR ''='' # tl (dropWhile (\<lambda>c. c \<noteq> CHR ''='') l)"
  unfolding raw_name_def by (induction l) auto

lemma raw_name_no_equals: "CHR ''='' \<notin> set (raw_name l)"
  using set_takeWhileD [of "CHR ''=''" _ l] by (auto simp: raw_name_def)

lemma equals_no_end: "CHR ''='' \<notin> line_end"
  by (simp add: line_end_def)

lemma takeWhile_before: "c \<notin> set n \<Longrightarrow> takeWhile (\<lambda>d. d \<noteq> c) (n @ c # v) = n"
  by (induction n) auto

lemma strchr_equals: "CHR ''='' \<notin> set n \<Longrightarrow> strchr (n @ CHR ''='' # v) (CHR ''='') = Some (length n)"
  by (simp add: strchr_def takeWhile_before)

text \<open>A line with or without its newline.\<close>

lemma load_line_item:
  assumes "item_line l" "line_ok l" and "d = l \<or> d = l @ [CHR 0x0A]"
  shows "\<exists>it. load_line d = Inr (Some it) \<and> [item_of it] = spec_line l"
proof -
  define v where "v = tl (dropWhile (\<lambda>c. c \<noteq> CHR ''='') l)"
  have l: "l = raw_name l @ CHR ''='' # v" using assms(1) equals_split by (simp add: item_line_def v_def)
  have "strip d = strip l" using assms(3) by (auto simp: line_end_def)
  moreover have "strip l = raw_name l @ CHR ''='' # strip v"
    by (subst l) (rule strip_append [OF equals_no_end])
  ultimately have sd: "strip d = raw_name l @ CHR ''='' # strip v" by simp
  have nl: "NUL \<notin> set l" using assms(2) by (simp add: line_ok_def)
  have "set l = set (raw_name l) \<union> insert (CHR ''='') (set v)" by (subst l) simp
  then have "set (raw_name l) \<subseteq> set l" "set (strip v) \<subseteq> set l" using set_strip [of v] by blast+
  with nl have nul: "NUL \<notin> set (raw_name l)" "NUL \<notin> set (strip v)" by blast+
  have nd: "NUL \<notin> set d" using nl assms(3) by auto
  have len: "length (raw_name l) < 50" "length (strip v) < 500"
    using assms(1,2) strip_length [of v] arg_cong [OF l, of length] by (auto simp: line_ok_def)
  have "hd l = hd (strip d)" by (subst l) (simp add: sd hd_append)
  with assms(1,3) have hd: "d \<noteq> []" "hd d = hd l" "hd (strip d) = hd l" by (auto simp: item_line_def)
  from new_item_eq [OF nul len] obtain it where
    "new_item (raw_name l @ CHR ''='' # strip v) (length (raw_name l)) = Inr it"
    "item_of it = (ltrim (rtrim (raw_name l)), ltrim (rtrim (strip v)))" by blast
  with assms(1) nd hd sd show ?thesis
    by (simp add: load_line_def c_string_id strip_end_eq item_line_def spec_line_def
        strchr_equals raw_name_no_equals rtrim_strip v_def [symmetric])
qed

lemma load_line_other:
  assumes "\<not> item_line l" "NUL \<notin> set l" and "d = l \<or> d = l @ [CHR 0x0A]"
  shows "load_line d = Inr None"
proof -
  have nul: "NUL \<notin> set d" using assms(2,3) by auto
  have st: "strip d = strip l" using assms(3) by (auto simp: line_end_def)
  consider "l = []" | "l \<noteq> []" "is_comment (hd l)" | "l \<noteq> []" "hd l = CHR ''[''" | "l \<noteq> []" "CHR ''='' \<notin> set l"
    using assms(1) by (auto simp: item_line_def)
  then show ?thesis
  proof cases
    case 1
    with assms(3) nul show ?thesis by (auto simp: load_line_def c_string_id is_comment_def)
  next
    case 2
    with assms(3) nul show ?thesis by (auto simp: load_line_def c_string_id)
  next
    case 3
    then have "l = [] @ CHR ''['' # tl l" by (cases l) auto
    moreover have "strip ([] @ CHR ''['' # tl l) = [] @ CHR ''['' # strip (tl l)"
      by (rule strip_append) (simp add: line_end_def)
    ultimately have "hd (strip l) = CHR ''[''" by (metis append_Nil list.sel(1))
    with assms(3) nul st show ?thesis by (auto simp: load_line_def c_string_id strip_end_eq)
  next
    case 4
    with set_strip [of l] have "CHR ''='' \<notin> set (strip l)" by auto
    with nul st show ?thesis by (simp add: load_line_def c_string_id strip_end_eq strchr_def Let_def)
  qed
qed

lemma load_line_cases:
  assumes "line_ok l" and "d = l \<or> d = l @ [CHR 0x0A]"
  obtains (item) it where "load_line d = Inr (Some it)" "spec_line l = [item_of it]"
    | (other) "load_line d = Inr None" "spec_line l = []"
proof (cases "item_line l")
  case True
  from load_line_item [OF True assms] item show ?thesis by metis
next
  case False
  with assms have "load_line d = Inr None" by (intro load_line_other) (auto simp: line_ok_def)
  with False other show ?thesis by (simp add: spec_line_def)
qed

lemma get_line_line:
  "CHR 0x0A \<notin> set l \<Longrightarrow> length l < n \<Longrightarrow> get_line n (l @ CHR 0x0A # r) = (l @ [CHR 0x0A], r, False)"
proof (induction l arbitrary: n)
  case Nil
  then show ?case by (cases n) auto
next
  case (Cons c l)
  then show ?case by (cases n) auto
qed

lemma get_line_last: "CHR 0x0A \<notin> set l \<Longrightarrow> length l < n \<Longrightarrow> get_line n l = (l, [], True)"
proof (induction l arbitrary: n)
  case Nil
  then show ?case by (cases n) auto
next
  case (Cons c l)
  then show ?case by (cases n) auto
qed

lemma get_line_progress:
  "0 < n \<Longrightarrow> get_line n s = (l, r, e) \<Longrightarrow> e \<or> length r < length s"
proof (induction n s arbitrary: l r e rule: get_line.induct)
  case (3 n c s)
  then show ?case by (cases n) (auto split: if_splits prod.splits)
qed auto

lemma split_lines_line: "CHR 0x0A \<notin> set l \<Longrightarrow> split_lines (l @ CHR 0x0A # r) = l # split_lines r"
  by (induction l) auto

lemma split_lines_last: "CHR 0x0A \<notin> set l \<Longrightarrow> l \<noteq> [] \<Longrightarrow> split_lines l = [l]"
proof (induction l)
  case (Cons c l)
  then show ?case by (cases l) auto
qed simp

lemma first_line:
  obtains (line) l r where "s = l @ CHR 0x0A # r" "CHR 0x0A \<notin> set l" | (last) "CHR 0x0A \<notin> set s"
  by (metis in_set_conv_decomp_first)

text \<open>One turn of the loop of \<open>Load\<close> that does not fail.\<close>

lemma Load_loop_turn:
  assumes "\<not> eof f" and "fgets 500 f = (d, f')"
  shows "Load_loop f items =
    (case d of None \<Rightarrow> Load_loop f' items
     | Some data \<Rightarrow> (case load_line data of Inl e \<Rightarrow> Some (Inl e)
         | Inr None \<Rightarrow> Load_loop f' items | Inr (Some i) \<Rightarrow> Load_loop f' (items @ [i])))"
  by (subst Load_loop.simps) (use assms in \<open>simp split: option.split\<close>)

lemma Load_loop_ends: "eof f \<Longrightarrow> Load_loop f items = Some (Inr items)"
  by (subst Load_loop.simps) simp

lemma Load_loop_line:
  assumes "\<not> eof f" "fgets 500 f = (Some d, f')" "line_ok l" "d = l \<or> d = l @ [CHR 0x0A]"
  obtains its where "Load_loop f items = Load_loop f' (items @ its)" "map item_of its = spec_line l"
  by (rule load_line_cases [OF assms(3,4)])
     (simp_all add: Load_loop_turn [OF assms(1,2)] that [of "[]"] that [of "[_]"])

lemma Load_loop_spec:
  assumes "\<not> eof f" "\<not> io_error f" "\<forall>l \<in> set (split_lines (content f)). line_ok l"
  shows "\<exists>its. Load_loop f items = Some (Inr (items @ its)) \<and> map item_of its = spec_file (content f)"
  using assms
proof (induction "length (content f)" arbitrary: f items rule: less_induct)
  case less
  show ?case
  proof (cases "content f" rule: first_line)
    case (line l r)
    let ?f = "f\<lparr>content := r\<rparr>"
    have ok: "line_ok l" "\<forall>l \<in> set (split_lines r). line_ok l"
      using less.prems(3) line by (simp_all add: split_lines_line)
    then have "get_line 499 (content f) = (l @ [CHR 0x0A], r, False)"
      using line by (simp add: get_line_line line_ok_def)
    then have g: "fgets 500 f = (Some (l @ [CHR 0x0A]), ?f)" using less.prems(1) by (simp add: fgets_def)
    from Load_loop_line [OF less.prems(1) g ok(1), of items] obtain i1 where
      1: "Load_loop f items = Load_loop ?f (items @ i1)" "map item_of i1 = spec_line l" by auto
    from less.hyps [of ?f "items @ i1"] less.prems ok(2) line obtain i2 where
      2: "Load_loop ?f (items @ i1) = Some (Inr ((items @ i1) @ i2))" "map item_of i2 = spec_file r" by auto
    have "spec_file (content f) = spec_line l @ spec_file r"
      using line by (simp add: spec_file_def split_lines_line)
    with 1 2 show ?thesis by (intro exI [of _ "i1 @ i2"]) simp
  next
    case last
    let ?f = "f\<lparr>content := [], eof := True\<rparr>"
    show ?thesis
    proof (cases "content f = []")
      case True
      then have "fgets 500 f = (None, f\<lparr>content := [], eof := True\<rparr>)"
        using less.prems(2) get_line_last [of "[]" 499] by (simp add: fgets_def)
      from Load_loop_turn [OF less.prems(1) this, of items] True show ?thesis
        by (simp add: Load_loop_ends spec_file_def)
    next
      case False
      have ok: "line_ok (content f)" using less.prems(3) split_lines_last [OF last False] by simp
      then have "fgets 500 f = (Some (content f), ?f)"
        using less.prems(2) False get_line_last [OF last, of 499] by (simp add: fgets_def line_ok_def)
      from Load_loop_line [OF less.prems(1) this ok, of items] obtain its where
        "Load_loop f items = Load_loop ?f (items @ its)" "map item_of its = spec_line (content f)" by auto
      with split_lines_last [OF last False] show ?thesis by (simp add: Load_loop_ends spec_file_def)
    qed
  qed
qed

lemma fgets_progress:
  assumes "fgets 500 f = (d, f')" "\<not> eof f" "\<not> io_error f"
  shows "(eof f' \<or> length (content f') < length (content f)) \<and> \<not> io_error f'"
proof -
  obtain l r e where g: "get_line 499 (content f) = (l, r, e)" by (cases "get_line 499 (content f)")
  from get_line_progress [OF _ g] assms g show ?thesis by (auto simp: fgets_def)
qed

lemma Load_loop_returns: "\<not> io_error f \<Longrightarrow> \<exists>r. Load_loop f items = Some r"
proof (induction "if eof f then 0 else Suc (length (content f))" arbitrary: f items rule: less_induct)
  case less
  show ?case
  proof (cases "eof f")
    case False
    obtain d f' where g: "fgets 500 f = (d, f')" by (cases "fgets 500 f")
    from fgets_progress [OF g False less.prems] False
    have "\<exists>r. Load_loop f' its = Some r" for its by (intro less.hyps) auto
    then show ?thesis
      using Load_loop_turn [OF False g, of items] by (auto split: option.split sum.split)
  qed (simp add: Load_loop_ends)
qed

lemma Load_loop_error:
  assumes "Load_loop f items = Some r"
  shows "io_error f \<Longrightarrow> \<not> eof f \<Longrightarrow> r = Inl Name_overflow \<and> content f \<noteq> []"
proof (rule Load_loop.raw_induct [where P = "\<lambda>f items r. io_error f \<longrightarrow> \<not> eof f \<longrightarrow> r = Inl Name_overflow \<and> content f \<noteq> []",
    rule_format, OF _ assms])
  fix Lo f items r
  assume IH: "\<And>f items r. Lo f items = Some r \<Longrightarrow> io_error f \<Longrightarrow> \<not> eof f \<Longrightarrow>
      r = Inl Name_overflow \<and> content f \<noteq> []"
    and b: "(if eof f then Some (Inr items)
       else case fgets 500 f of (None, f') \<Rightarrow> Lo f' items
         | (Some data, f') \<Rightarrow> (case load_line data of Inl e \<Rightarrow> Some (Inl e)
             | Inr None \<Rightarrow> Lo f' items | Inr (Some i) \<Rightarrow> Lo f' (items @ [i]))) = Some r"
    and f: "io_error f" "\<not> eof f"
  obtain l r' e where g: "get_line 499 (content f) = (l, r', e)" by (cases "get_line 499 (content f)")
  obtain d f' where d: "fgets 500 f = (d, f')" by (cases "fgets 500 f")
  have f': "io_error f'" "\<not> eof f'" using d g f by (auto simp: fgets_def split: if_splits)
  have e: "e' = Name_overflow" for e' :: conf_error by (cases e')
  have n: "d = None" "content f' = []" if "content f = []"
    using d f that by (auto simp: fgets_def get_line_last)
  show "r = Inl Name_overflow \<and> content f \<noteq> []"
    using b d f(2) IH [OF _ f'] n by (auto simp: e split: option.splits sum.splits)
qed

lemma Load_directory: "Load (Some \<lparr>content = [], eof = False, io_error = True\<rparr>) items = None"
proof -
  let ?f = "\<lparr>content = [], eof = False, io_error = True\<rparr>"
  have "Load_loop ?f items = None"
    using Load_loop_error [of ?f items] by (cases "Load_loop ?f items") auto
  then show ?thesis by (simp add: Load_def)
qed

section \<open>Queries and printed values\<close>

text \<open>The first entry with a name, up to the case of letters.\<close>

definition lookup :: "(string \<times> string) list \<Rightarrow> string \<Rightarrow> string option" where
  "lookup kvs k = map_option snd (List.find (\<lambda>(n, v). map to_lower n = map to_lower k) kvs)"

lemma GetString_lookup:
  "NUL \<notin> set k \<Longrightarrow> map_option c_string (GetString items k) = lookup (map item_of items) k"
  by (induction items) (auto simp: lookup_def item_of_def strcasecmp_def c_string_id)

lemma atoi_c_string: "atoi (c_string m) = atoi m"
  by (simp add: atoi_def c_string_id [OF c_string_clean])

lemma GetIntDefault_lookup:
  "NUL \<notin> set k \<Longrightarrow>
   GetIntDefault items k d = (case lookup (map item_of items) k of None \<Rightarrow> Some d | Some v \<Rightarrow> atoi v)"
  by (induction items) (auto simp: lookup_def item_of_def strcasecmp_def c_string_id atoi_c_string)

lemma atoi_digits_snoc:
  "(\<And>c. c \<in> set s \<Longrightarrow> is_digit c) \<Longrightarrow> k < 10 \<Longrightarrow> atoi_digits a (s @ [digit_char k]) = atoi_digits a s * 10 + k"
  by (induction s arbitrary: a) (auto simp: digit_char_value is_digit_def)

lemma atoi_digits_decimal: "atoi_digits 0 (decimal n) = n"
proof (induction n rule: decimal_induct)
  case (digit n)
  then show ?case using atoi_digits_snoc [of "[]" n 0] by (simp add: decimal_simps)
next
  case (more n)
  then show ?case by (simp add: decimal_simps(2) atoi_digits_snoc decimal_digits)
qed

text \<open>A decimal number, as \<open>printf\<close> writes it.\<close>

definition show_int :: "int \<Rightarrow> string" where
  "show_int i = (if i < 0 then CHR ''-'' # decimal (nat (- i)) else decimal (nat i))"

lemma decimal_not_Nil: "decimal n \<noteq> []"
  by (cases "n < 10") (simp_all add: decimal_simps)

lemma digit_not:
  "is_digit c \<Longrightarrow> c \<notin> {NUL, CHR ''-'', CHR ''+'', CHR ''='', CHR 0x0A, CHR 0x0D, CHR '' ''} \<and> \<not> isspace c"
  by (auto simp: is_digit_def isspace_def)

lemma decimal_clean:
  "NUL \<notin> set (decimal n)" "\<not> isspace (hd (decimal n))" "hd (decimal n) \<notin> {CHR ''-'', CHR ''+''}"
  using decimal_digits digit_not hd_in_set [OF decimal_not_Nil [of n]] by (blast, blast, blast)

lemma show_int_clean: "NUL \<notin> set (show_int i)"
  using decimal_clean(1) by (simp add: show_int_def)

lemma atoi_show_int:
  assumes "- (2 ^ 31) \<le> i" "i < 2 ^ 31"
  shows "atoi (show_int i) = Some i"
proof (cases "i < 0")
  case True
  with assms show ?thesis
    by (simp add: atoi_def c_string_id show_int_clean) (simp add: show_int_def isspace_def atoi_digits_decimal)
next
  case False
  obtain c s where d: "decimal (nat i) = c # s" using decimal_not_Nil by (cases "decimal (nat i)") auto
  with decimal_clean(2,3) [of "nat i"] have c: "\<not> isspace c" "c \<notin> {CHR ''-'', CHR ''+''}" by auto
  from False have "show_int i = c # s" by (simp add: show_int_def d)
  then have "atoi (show_int i) = (let v = int (atoi_digits 0 (decimal (nat i)))
      in if - (2 ^ 31) \<le> v \<and> v < 2 ^ 31 then Some v else None)"
    using c show_int_clean [of i] by (simp add: atoi_def c_string_id d del: atoi_digits.simps)
  with False assms show ?thesis by (simp add: atoi_digits_decimal)
qed

text \<open>Names and values that survive being written to a file and read again.\<close>

definition printable :: "string \<Rightarrow> string \<Rightarrow> bool" where
  "printable n v \<longleftrightarrow> set n \<inter> {NUL, CHR 0x0A, CHR ''=''} = {} \<and> set v \<inter> {NUL, CHR 0x0A} = {}
     \<and> (n \<noteq> [] \<longrightarrow> \<not> is_comment (hd n) \<and> hd n \<noteq> CHR ''['' \<and> last n \<noteq> CHR '' '')
     \<and> (v \<noteq> [] \<longrightarrow> hd v \<noteq> CHR '' '' \<and> last v \<notin> line_end)
     \<and> length n < 50 \<and> length n + length v < 498"

definition print_file :: "(string \<times> string) list \<Rightarrow> string" where
  "print_file kvs = concat (map (\<lambda>(n, v). n @ ''='' @ v @ [CHR 0x0A]) kvs)"

lemma ltrim_id: "s = [] \<or> hd s \<noteq> CHR '' '' \<Longrightarrow> ltrim s = s"
  by (cases s) (auto simp: ltrim_def)

lemma rtrim_id: "s = [] \<or> last s \<noteq> CHR '' '' \<Longrightarrow> rtrim s = s"
  by (cases s rule: rev_cases) auto

lemma strip_id: "s = [] \<or> last s \<notin> line_end \<Longrightarrow> strip s = s"
  by (cases s rule: rev_cases) auto

lemma printed_line:
  assumes "printable n v"
  shows "line_ok (n @ CHR ''='' # v)" and "spec_line (n @ CHR ''='' # v) = [(n, v)]"
    and "CHR 0x0A \<notin> set (n @ CHR ''='' # v)"
proof -
  let ?l = "n @ CHR ''='' # v"
  have eq: "CHR ''='' \<notin> set n" using assms by (auto simp: printable_def)
  have r: "raw_name ?l = n" unfolding raw_name_def by (rule takeWhile_before [OF eq])
  have dw: "tl (dropWhile (\<lambda>c. c \<noteq> CHR ''='') ?l) = v" using eq by (induction n) auto
  have hd: "item_line ?l" using assms by (cases n) (auto simp: printable_def item_line_def is_comment_def)
  have "n = [] \<or> hd n \<noteq> CHR '' ''" "n = [] \<or> last n \<noteq> CHR '' ''"
    using assms by (auto simp: printable_def is_comment_def)
  then have "ltrim (rtrim n) = n" by (simp add: rtrim_id ltrim_id)
  moreover have "ltrim (strip v) = v" using assms by (auto simp: printable_def strip_id ltrim_id)
  ultimately show "spec_line ?l = [(n, v)]" using hd r dw by (simp add: spec_line_def)
  show "line_ok ?l" using assms r by (auto simp: line_ok_def printable_def)
  show "CHR 0x0A \<notin> set ?l" using assms by (auto simp: printable_def)
qed

lemma printed_file:
  assumes "\<forall>(n, v) \<in> set kvs. printable n v"
  shows "(\<forall>l \<in> set (split_lines (print_file kvs)). line_ok l) \<and> spec_file (print_file kvs) = kvs"
  using assms
proof (induction kvs)
  case Nil
  then show ?case by (simp add: print_file_def spec_file_def)
next
  case (Cons kv kvs)
  obtain n v where kv: "kv = (n, v)" by (cases kv)
  with Cons.prems have p: "printable n v" by simp
  have "split_lines (print_file (kv # kvs)) = (n @ CHR ''='' # v) # split_lines (print_file kvs)"
    using split_lines_line [OF printed_line(3) [OF p], of "print_file kvs"] by (simp add: print_file_def kv)
  with Cons printed_line [OF p] show ?case by (simp add: spec_file_def kv)
qed

section \<open>Properties\<close>

text \<open>
  C13. Loading a text file whose lines fit the buffer of 500 and whose names fit their array gives
  the items the file stands for (\<open>spec_file\<close>: comments, section headers and other lines skipped,
  names and values trimmed), appended to those already loaded; and a query answers with the first
  item of that name, up to case. The trimming, which shifts the text inside the arrays, and the
  cutting of lines by \<open>fgets\<close> are those of the code.
\<close>

theorem Load_refines_spec:
  assumes "\<forall>l \<in> set (split_lines s). line_ok l"
  shows "\<exists>its. Load (Some \<lparr>content = s, eof = False, io_error = False\<rparr>) [] = Some (Inr (True, its))
    \<and> map item_of its = spec_file s
    \<and> (\<forall>k d. NUL \<notin> set k \<longrightarrow> map_option c_string (GetString its k) = lookup (spec_file s) k
        \<and> GetIntDefault its k d = (case lookup (spec_file s) k of None \<Rightarrow> Some d | Some v \<Rightarrow> atoi v))"
proof -
  from Load_loop_spec [of "\<lparr>content = s, eof = False, io_error = False\<rparr>" "[]"] assms obtain its where
    "Load_loop \<lparr>content = s, eof = False, io_error = False\<rparr> [] = Some (Inr its)" "map item_of its = spec_file s"
    by auto
  then show ?thesis
    using GetString_lookup [of _ its] GetIntDefault_lookup [of _ its]
    by (intro exI [of _ its]) (simp add: Load_def)
qed

definition demo_file :: string where
  "demo_file = ''#Net'' @ [CHR 0x0A] @ ''[Net]'' @ [CHR 0x0A] @ ''Sock_MaxWaitTime =  20 '' @ [CHR 0x0D, CHR 0x0A] @ ''Daemon = 1''"

theorem Load_refines_spec_witness:
  "\<exists>its. Load (Some \<lparr>content = demo_file, eof = False, io_error = False\<rparr>) [] = Some (Inr (True, its))
    \<and> map item_of its = [(''Sock_MaxWaitTime'', ''20''), (''Daemon'', ''1'')]"
proof -
  have l: "split_lines demo_file = [''#Net'', ''[Net]'', ''Sock_MaxWaitTime =  20 '' @ [CHR 0x0D], ''Daemon = 1'']"
    by (simp add: demo_file_def)
  have ok: "\<forall>l \<in> set (split_lines demo_file). line_ok l"
    by (simp add: l line_ok_def item_line_def is_comment_def raw_name_def)
  have "spec_file demo_file = [(''Sock_MaxWaitTime'', ''20''), (''Daemon'', ''1'')]"
    by (simp add: spec_file_def l spec_line_def item_line_def is_comment_def raw_name_def rtrim_def
        ltrim_def strip_def line_end_def)
  with Load_refines_spec [OF ok] show ?thesis by auto
qed

text \<open>
  C29. Round trip: names and values written one to a line are read back by \<open>Load\<close>, and an integer
  of 32 bits written in decimal is read back by \<open>GetIntDefault\<close>; for items that are \<open>printable\<close> (the
  name does not begin with a comment character, both are trimmed, the name is below 50 characters).
\<close>

theorem Load_print_roundtrip:
  assumes "\<forall>(n, v) \<in> set kvs. printable n v"
  shows "\<exists>its. Load (Some \<lparr>content = print_file kvs, eof = False, io_error = False\<rparr>) [] = Some (Inr (True, its))
    \<and> map item_of its = kvs
    \<and> (\<forall>n i d. NUL \<notin> set n \<longrightarrow> - (2 ^ 31) \<le> i \<longrightarrow> i < 2 ^ 31 \<longrightarrow> lookup kvs n = Some (show_int i) \<longrightarrow>
         GetIntDefault its n d = Some i)"
proof -
  from Load_loop_spec [of "\<lparr>content = print_file kvs, eof = False, io_error = False\<rparr>" "[]"]
    printed_file [OF assms] obtain its where
    "Load_loop \<lparr>content = print_file kvs, eof = False, io_error = False\<rparr> [] = Some (Inr its)" "map item_of its = kvs"
    by auto
  then show ?thesis
    by (intro exI [of _ its]) (auto simp: Load_def GetIntDefault_lookup atoi_show_int)
qed

theorem Load_print_roundtrip_witness:
  "\<exists>its. Load (Some \<lparr>content = print_file [(''Log'', ''error.log''), (''WorkerProcesses'', show_int 4)],
       eof = False, io_error = False\<rparr>) [] = Some (Inr (True, its))
    \<and> GetIntDefault its ''workerprocesses'' 1 = Some 4"
proof -
  let ?kvs = "[(''Log'', ''error.log''), (''WorkerProcesses'', show_int 4)]"
  have s4: "show_int 4 = [digit_char 4]" by (simp add: show_int_def decimal_simps)
  have d4: "is_digit (digit_char 4)" by (simp add: digit_char_is_digit)
  have ok: "\<forall>(n, v) \<in> set ?kvs. printable n v"
    using digit_not [OF d4] by (auto simp: s4 printable_def is_comment_def line_end_def)
  have "lookup ?kvs ''workerprocesses'' = Some (show_int 4)"
    by (simp add: lookup_def to_lower_def char_of_def bit_Suc_0_iff)
  with Load_print_roundtrip [OF ok] show ?thesis by fastforce
qed

text \<open>
  C33. \<open>Load\<close> returns for every file that can be read, whatever it holds: the loop ends with the
  end of the file. Where reading fails before the end of the file is met (a directory, a device
  that fails), the end of file flag is never set and the loop never ends: there is no result other
  than a name that overflowed before, and none at all for a directory.
\<close>

theorem Load_returns_unless_read_fails:
  "(\<exists>r. Load (Some \<lparr>content = s, eof = False, io_error = False\<rparr>) items = Some r)
   \<and> (Load (Some \<lparr>content = s, eof = False, io_error = True\<rparr>) items \<in> {None, Some (Inl Name_overflow)})
   \<and> Load (Some \<lparr>content = [], eof = False, io_error = True\<rparr>) items = None"
proof (intro conjI)
  let ?f = "\<lambda>b s. \<lparr>content = s, eof = False, io_error = b\<rparr>"
  show "\<exists>r. Load (Some (?f False s)) items = Some r"
    using Load_loop_returns [of "?f False s" items] by (auto simp: Load_def)
  have E: "Load_loop (?f True s) items \<in> {None, Some (Inl Name_overflow)}" for s
    using Load_loop_error [of "?f True s" items] by (cases "Load_loop (?f True s) items") auto
  from E [of s] show "Load (Some (?f True s)) items \<in> {None, Some (Inl Name_overflow)}"
    by (elim insertE emptyE) (simp_all add: Load_def)
  show "Load (Some (?f True [])) items = None" by (rule Load_directory)
qed

end
