(* ===== verification/QcLog.thy ===== *)
theory QcLog
  imports QcConf
begin

text \<open>
  The log: public/qc\_log.cc. A message is built in a buffer of 2048 bytes by the formatter and
  written with one \<open>write\<close>. What the system answers is a parameter: the text of an error number,
  the local time, the success of \<open>write\<close> and \<open>open\<close>. The result is the list of the writes that
  succeeded, as pairs of a descriptor and the bytes; an undefined behaviour is an error value.
\<close>

section \<open>The code\<close>

record qc_log_t =
  log_level :: int
  log_fd :: int

datatype write_result = W_ok | W_nospace | W_failed

record 'd env =
  doubles :: "'d double_ops"
  strerror :: "int \<Rightarrow> string"
  tm_now :: "u32 list"
  pid_now :: u32
  write_to :: "int \<Rightarrow> write_result"

type_synonym writes = "(int \<times> string) list"

definition QC_MAX_ERROR_STR :: nat where "QC_MAX_ERROR_STR = 2048"
definition STDERR_FILENO :: int where "STDERR_FILENO = 2"

definition err_levels :: "string list" where
  "err_levels = [''stderr'', ''emerg'', ''alert'', ''crit'', ''error'', ''warn'', ''notice'', ''info'', ''debug'']"

definition sys_write :: "'d env \<Rightarrow> int \<Rightarrow> string \<Rightarrow> writes" where
  "sys_write E fd s = (if write_to E fd = W_ok then [(fd, s)] else [])"

text \<open>
  \<open>qc_log_errno\<close>: the number is printed into an array of ten, which a number of six characters
  overruns; the text is left out when it does not fit the message.
\<close>

definition qc_log_errno :: "'d env \<Rightarrow> dest \<Rightarrow> int \<Rightarrow> fmt_error + dest" where
  "qc_log_errno E b err =
     (let perrorinfo = strerror E err;
          leftstr = '' ('' @ show_int err @ '': '';
          rightstr = '')''
      in if 10 \<le> length leftstr then Inl No_room
         else if length perrorinfo + (length leftstr + length rightstr) < room b
         then Inr (b\<lparr>written := written b @ leftstr @ perrorinfo @ rightstr,
                     room := room b - (length leftstr + length perrorinfo + length rightstr)\<rparr>)
         else Inr b)"

text \<open>The newline goes over the last characters when the buffer is full; then the bytes up to \<open>p\<close>.\<close>

definition end_line :: "dest \<Rightarrow> string" where
  "end_line b = (if room b \<le> 1 then take (QC_MAX_ERROR_STR - 2) (written b) else written b) @ [CHR 0x0A]"

definition time_format :: string where "time_format = ''%4d/%02d/%02d %02d:%02d:%02d''"

text \<open>The time goes to an array of 40 zeros with no limit passed to the formatter.\<close>

definition time_string :: "'d env \<Rightarrow> fmt_error + string" where
  "time_string E =
     bind_fmt (qc_slprintf (doubles E) \<lparr>written = [], room = 2 ^ 63\<rparr> time_format (map A_int (tm_now E)))
       (\<lambda>b. if 40 \<le> length (written b) then Inl No_room else Inr (written b))"

definition log_message :: "'d env \<Rightarrow> nat \<Rightarrow> int \<Rightarrow> string \<Rightarrow> 'd arg list \<Rightarrow> fmt_error + string" where
  "log_message E level err fmt args =
     bind_fmt (time_string E) (\<lambda>t.
     bind_fmt (if level < length err_levels then Inr (err_levels ! level) else Inl Bad_arg) (\<lambda>name.
     bind_fmt (qc_slprintf (doubles E) \<lparr>written = t, room = QC_MAX_ERROR_STR - length t\<rparr> '' [%s] '' [A_str name]) (\<lambda>b1.
     bind_fmt (qc_slprintf (doubles E) b1 ''%P: '' [A_int (pid_now E)]) (\<lambda>b2.
     bind_fmt (qc_vslprintf (doubles E) fmt args b2) (\<lambda>b3.
     bind_fmt (if err \<noteq> 0 then qc_log_errno E b3 err else Inr b3) (\<lambda>b4. Inr (end_line b4)))))))"

definition qc_log_error_core ::
  "'d env \<Rightarrow> qc_log_t \<Rightarrow> nat \<Rightarrow> int \<Rightarrow> string \<Rightarrow> 'd arg list \<Rightarrow> fmt_error + writes" where
  "qc_log_error_core E qc_log level err fmt args =
     bind_fmt (log_message E level err fmt args) (\<lambda>errstr.
       Inr (if int level > log_level qc_log then []
            else (case write_to E (log_fd qc_log) of
                    W_ok \<Rightarrow> [(log_fd qc_log, errstr)]
                  | W_nospace \<Rightarrow> []
                  | W_failed \<Rightarrow> if log_fd qc_log \<noteq> STDERR_FILENO then sys_write E STDERR_FILENO errstr else [])))"

text \<open>
  \<open>qc_log_stderr\<close> replaces the newline by a terminator and passes the message on as the format of
  \<open>qc_log_error_core\<close>, with no arguments.
\<close>

definition qc_log_stderr :: "'d env \<Rightarrow> qc_log_t \<Rightarrow> int \<Rightarrow> string \<Rightarrow> 'd arg list \<Rightarrow> fmt_error + writes" where
  "qc_log_stderr E qc_log err fmt args =
     bind_fmt (qc_vslprintf (doubles E) fmt args \<lparr>written = ''quickcomm: '', room = QC_MAX_ERROR_STR - 11\<rparr>) (\<lambda>b1.
     bind_fmt (if err \<noteq> 0 then qc_log_errno E b1 err else Inr b1) (\<lambda>b2.
       let errstr = end_line b2; out = sys_write E STDERR_FILENO errstr
       in if log_fd qc_log > STDERR_FILENO
          then bind_fmt (qc_log_error_core E qc_log 0 0 (c_string (butlast errstr)) [])
                 (\<lambda>out2. Inr (out @ out2))
          else Inr out))"

text \<open>\<open>qc_log_init\<close>: \<open>fd\<close> and \<open>err\<close> are the results of \<open>open\<close>.\<close>

definition qc_log_init ::
  "'d env \<Rightarrow> CConfItem list \<Rightarrow> int \<Rightarrow> int \<Rightarrow> (fmt_error + qc_log_t \<times> string \<times> writes) option" where
  "qc_log_init E items fd err =
     (let plogname = (case GetString items ''Log'' of None \<Rightarrow> ''error.log'' | Some s \<Rightarrow> c_string s)
      in case GetIntDefault items ''LogLevel'' 6 of
           None \<Rightarrow> None
         | Some level \<Rightarrow>
             (let l = \<lparr>log_level = level, log_fd = fd\<rparr>
              in Some (if fd = -1
                 then bind_fmt (qc_log_stderr E l err
                        (''[alert] could not open error log file: open() '' @ [CHR 0x22] @ ''%s'' @ [CHR 0x22] @ '' failed'')
                        [A_str plogname])
                        (\<lambda>out. Inr (l, plogname, out))
                 else Inr (l, plogname, []))))"

section \<open>The text of a message\<close>

definition err_text :: "'d env \<Rightarrow> int \<Rightarrow> string" where
  "err_text E err = '' ('' @ show_int err @ '': '' @ strerror E err @ '')''"

text \<open>A full line: the text, the error if there is one and it fits, cut off for the newline.\<close>

definition line_of :: "'d env \<Rightarrow> int \<Rightarrow> string \<Rightarrow> string" where
  "line_of E err s =
     take 2046 (if err \<noteq> 0 \<and> length s + length (err_text E err) < 2048 then s @ err_text E err else s) @ [CHR 0x0A]"

lemma show_int_length:
  assumes "-10000 < err" "err < 100000"
  shows "length (show_int err) \<le> 5"
proof -
  have "length (decimal n) \<le> k" if "n < 10 ^ k" "0 < k" for n k
    by (rule digits_length) (use that in auto)
  from this [of "nat (- err)" 4] this [of "nat err" 5] assms show ?thesis by (simp add: show_int_def)
qed

lemma qc_log_errno_eq:
  assumes "-10000 < err" "err < 100000"
  shows "qc_log_errno E b err = Inr (if length (err_text E err) < room b then emit (err_text E err) b else b)"
  using show_int_length [OF assms] by (auto simp: qc_log_errno_def err_text_def emit_def Let_def)

lemma end_line_emit:
  assumes "length (written b) + room b = 2048"
  shows "end_line (emit s b) = take 2046 (written b @ s) @ [CHR 0x0A]"
proof -
  have m: "min (2046 - length (written b)) (room b) = 2046 - length (written b)" using assms by simp
  have t: "take 2046 (written b @ take (room b) s) = take 2046 (written b @ s)"
    by (simp only: take_append take_take m)
  show ?thesis
  proof (cases "room b - length s \<le> 1")
    case True
    with t show ?thesis by (simp add: end_line_def QC_MAX_ERROR_STR_def)
  next
    case False
    then have "length s \<le> room b" "length (written b @ s) \<le> 2046" using assms by simp_all
    then have "take (room b) s = s" "take 2046 (written b @ s) = written b @ s" by (simp_all only: take_all)
    with False show ?thesis by (simp add: end_line_def)
  qed
qed

section \<open>The time\<close>

definition pad :: "char \<Rightarrow> nat \<Rightarrow> string \<Rightarrow> string" where
  "pad z w s = replicate (w - length s) z @ s"

lemma render_int:
  assumes "read_spec cs = (\<lparr>zero = z, width = w, sign = True, hex = 0, frac_width = 0\<rparr>, CHR ''d'' # rest)"
    and "n < 2 ^ 31"
  shows "render D (CHR ''%'' # cs) (A_int (of_nat n) # as) =
    bind_fmt (render D rest as) (\<lambda>t. Inr (pad z (unat w) (decimal n) @ t))"
proof -
  have s: "sint (of_nat n :: u32) = int n" using assms(2) by (simp add: signed_of_nat signed_take_bit_int_eq_self)
  have w: "(scast (of_nat n :: u32) :: u64) = of_nat n"
    by (rule trans [OF scast_eq]) (simp only: s of_int_of_nat_eq)
  have u: "unat (of_nat n :: u64) = n" using assms(2) by (simp add: unat_of_nat take_bit_nat_eq_self)
  have s64: "sint (of_nat n :: u64) = int n" using assms(2) by (simp add: signed_of_nat signed_take_bit_int_eq_self)
  have "num_text \<lparr>zero = z, width = w, sign = True, hex = 0, frac_width = 0\<rparr> (of_nat n) 0 = pad z (unat w) (decimal n)"
    by (simp add: num_text_def s64 field_def num_digits_eq(1) u pad_def)
  then show ?thesis using assms(1) by (simp add: render_step(4) directive_text_def w)
qed

definition time_text :: "nat \<Rightarrow> nat \<Rightarrow> nat \<Rightarrow> nat \<Rightarrow> nat \<Rightarrow> nat \<Rightarrow> string" where
  "time_text y mo d h mi s =
     pad (CHR '' '') 4 (decimal y) @ ''/'' @ pad (CHR ''0'') 2 (decimal mo) @ ''/'' @ pad (CHR ''0'') 2 (decimal d)
     @ '' '' @ pad (CHR ''0'') 2 (decimal h) @ '':'' @ pad (CHR ''0'') 2 (decimal mi) @ '':'' @ pad (CHR ''0'') 2 (decimal s)"

definition time_ok :: "'d env \<Rightarrow> nat \<Rightarrow> nat \<Rightarrow> nat \<Rightarrow> nat \<Rightarrow> nat \<Rightarrow> nat \<Rightarrow> bool" where
  "time_ok E y mo d h mi s \<longleftrightarrow> tm_now E = map of_nat [y, mo, d, h, mi, s] \<and> y < 10000
     \<and> mo < 100 \<and> d < 100 \<and> h < 100 \<and> mi < 100 \<and> s < 100"

lemma read_spec_time:
  "read_spec (CHR ''4'' # CHR ''d'' # rest) =
     (\<lparr>zero = CHR '' '', width = 4, sign = True, hex = 0, frac_width = 0\<rparr>, CHR ''d'' # rest)"
  "read_spec (CHR ''0'' # CHR ''2'' # CHR ''d'' # rest) =
     (\<lparr>zero = CHR ''0'', width = 2, sign = True, hex = 0, frac_width = 0\<rparr>, CHR ''d'' # rest)"
  by (simp_all add: read_spec_def is_digit_def)

lemma length_pad: "length s \<le> w \<Longrightarrow> length (pad z w s) = w"
  by (simp add: pad_def)

lemma length_time_text:
  assumes "time_ok E y mo d h mi s"
  shows "length (time_text y mo d h mi s) = 19"
proof -
  have "length (decimal n) \<le> 2" if "n < 100" for n by (rule digits_length) (use that in auto)
  moreover have "length (decimal y) \<le> 4" by (rule digits_length) (use assms in \<open>auto simp: time_ok_def\<close>)
  ultimately show ?thesis using assms by (simp add: time_ok_def time_text_def length_pad)
qed

lemma time_string_eq:
  assumes "time_ok E y mo d h mi s"
  shows "time_string E = Inr (time_text y mo d h mi s)"
proof -
  let ?args = "map A_int (map of_nat [y, mo, d, h, mi, s]) :: 'a arg list"
  have b: "y < 2 ^ 31" "mo < 2 ^ 31" "d < 2 ^ 31" "h < 2 ^ 31" "mi < 2 ^ 31" "s < 2 ^ 31"
    using assms by (simp_all add: time_ok_def)
  have "render (doubles E) time_format ?args = Inr (time_text y mo d h mi s)"
    unfolding time_format_def
    by (simp add: render_step(1,2) render_int [OF read_spec_time(1) b(1)] render_int [OF read_spec_time(2) b(2)]
        render_int [OF read_spec_time(2) b(3)] render_int [OF read_spec_time(2) b(4)]
        render_int [OF read_spec_time(2) b(5)] render_int [OF read_spec_time(2) b(6)] time_text_def)
  from render_trunc [OF this, of "\<lparr>written = [], room = 2 ^ 63\<rparr>"] length_time_text [OF assms] assms
  show ?thesis by (simp add: time_string_def qc_slprintf_def emit_def time_ok_def)
qed

section \<open>Messages\<close>

definition head_text :: "'d env \<Rightarrow> string \<Rightarrow> nat \<Rightarrow> string" where
  "head_text E t level = t @ '' ['' @ err_levels ! level @ ''] '' @ show_int (sint (pid_now E)) @ '': ''"

lemma render_append_literal:
  "CHR ''%'' \<notin> set lit \<Longrightarrow> render D (lit @ fmt) args = bind_fmt (render D fmt args) (\<lambda>t. Inr (lit @ t))"
  by (induction lit) (auto simp: render_step bind_fmt_def split: sum.split)

definition plain_spec :: spec where
  "plain_spec = \<lparr>zero = CHR '' '', width = 0, sign = True, hex = 0, frac_width = 0\<rparr>"

lemma read_spec_plain:
  "read_spec (CHR ''s'' # rest) = (plain_spec, CHR ''s'' # rest)"
  "read_spec (CHR ''P'' # rest) = (plain_spec, CHR ''P'' # rest)"
  "read_spec (CHR ''d'' # rest) = (plain_spec, CHR ''d'' # rest)"
  by (simp_all add: read_spec_def is_digit_def plain_spec_def)

lemma num_text_plain: "num_text plain_spec (scast (i :: u32)) 0 = show_int (sint i)"
proof -
  have "render whole_ops ''%d'' [A_int i] = Inr (num_text plain_spec (scast i) 0)"
    by (simp add: render_step(4) [of _ "CHR ''d''" "[]"] read_spec_plain directive_text_def render_step(1)
        plain_spec_def)
  with percent_d_render [of whole_ops i] show ?thesis by (simp add: show_int_def)
qed

lemma render_directives:
  "render D (''%s'' @ rest) (A_str p # as) = bind_fmt (render D rest as) (\<lambda>t. Inr (p @ t))"
  "render D (''%P'' @ rest) (A_int i # as) = bind_fmt (render D rest as) (\<lambda>t. Inr (show_int (sint i) @ t))"
proof -
  show "render D (''%s'' @ rest) (A_str p # as) = bind_fmt (render D rest as) (\<lambda>t. Inr (p @ t))"
    by (simp add: render_step(4) [of _ "CHR ''s''" rest] read_spec_plain directive_text_def)
  have "plain_spec\<lparr>sign := True\<rparr> = plain_spec" by (simp add: plain_spec_def)
  then show "render D (''%P'' @ rest) (A_int i # as) = bind_fmt (render D rest as) (\<lambda>t. Inr (show_int (sint i) @ t))"
    by (simp add: render_step(4) [of _ "CHR ''P''" rest] read_spec_plain directive_text_def num_text_plain)
qed

lemma show_int_pid: "length (show_int (sint (i :: u32))) \<le> 11"
proof -
  have l: "length (decimal n) \<le> 10" if "n < 10 ^ 10" for n by (rule digits_length) (use that in auto)
  have "- (2 ^ 31) \<le> sint i" "sint i < 2 ^ 31" using sint_ge [of i] sint_lt [of i] by simp_all
  then have "nat (sint i) < 10 ^ 10" "nat (- sint i) < 10 ^ 10" by simp_all
  from this [THEN l] show ?thesis by (simp add: show_int_def)
qed

lemma head_length:
  assumes "time_ok E y mo d h mi s" "level < 9"
  shows "length (head_text E (time_text y mo d h mi s) level) \<le> 42"
proof -
  have "length (err_levels ! level) \<le> 6" using assms(2) by (simp add: err_levels_def nth_Cons split: nat.split)
  then show ?thesis using show_int_pid [of "pid_now E"] length_time_text [OF assms(1)] by (simp add: head_text_def)
qed

lemma log_message_format:
  assumes "time_ok E y mo d h mi s" "level < 9"
  defines "H \<equiv> head_text E (time_text y mo d h mi s) level"
  shows "log_message E level err fmt args =
    bind_fmt (qc_vslprintf (doubles E) fmt args \<lparr>written = H, room = 2048 - length H\<rparr>)
      (\<lambda>b3. bind_fmt (if err \<noteq> 0 then qc_log_errno E b3 err else Inr b3) (\<lambda>b4. Inr (end_line b4)))"
proof -
  let ?t = "time_text y mo d h mi s" and ?l = "err_levels ! level"
  let ?b = "\<lparr>written = ?t, room = QC_MAX_ERROR_STR - length ?t\<rparr>"
  let ?x = "'' ['' @ ?l @ ''] '' @ show_int (sint (pid_now E)) @ '': ''"
  have r1: "render (doubles E) '' [%s] '' [A_str ?l] = Inr ('' ['' @ ?l @ ''] '')"
    by (simp add: render_step(2) render_directives(1) [simplified] render_literal)
  have r2: "render (doubles E) ''%P: '' [A_int (pid_now E)] = Inr (show_int (sint (pid_now E)) @ '': '')"
    by (simp add: render_directives(2) [simplified] render_literal)
  have "length ?l \<le> 6" using assms(2) by (simp add: err_levels_def nth_Cons split: nat.split)
  then have "length ?x \<le> 2048 - length ?t"
    using show_int_pid [of "pid_now E"] length_time_text [OF assms(1)] by simp
  then have "emit ?x ?b = \<lparr>written = H, room = 2048 - length H\<rparr>"
    by (simp add: emit_def H_def head_text_def QC_MAX_ERROR_STR_def)
  then show ?thesis
    using assms(2) render_trunc [OF r1] render_trunc [OF r2]
    by (simp add: log_message_def time_string_eq [OF assms(1)] err_levels_def qc_slprintf_def)
qed

lemma log_message_eq:
  assumes "time_ok E y mo d h mi s" "level < 9" "-10000 < err" "err < 100000"
    and "render (doubles E) fmt args = Inr msg"
  shows "log_message E level err fmt args =
    Inr (line_of E err (head_text E (time_text y mo d h mi s) level @ msg))"
proof -
  let ?H = "head_text E (time_text y mo d h mi s) level"
  let ?b = "\<lparr>written = ?H, room = 2048 - length ?H\<rparr>"
  have wr: "length (written ?b) + room ?b = 2048"
    using head_length [OF assms(1,2)] by simp
  have "log_message E level err fmt args =
      bind_fmt (if err \<noteq> 0 then qc_log_errno E (emit msg ?b) err else Inr (emit msg ?b)) (\<lambda>b4. Inr (end_line b4))"
    by (simp add: log_message_format [OF assms(1,2)] render_trunc [OF assms(5)])
  also have "\<dots> = Inr (line_of E err (?H @ msg))"
    using end_line_emit [OF wr, of msg] end_line_emit [OF wr, of "msg @ err_text E err"] wr
    by (auto simp: qc_log_errno_eq [OF assms(3,4)] line_of_def)
  finally show ?thesis .
qed

section \<open>Properties\<close>

lemma line_of_length: "length (line_of E err s) \<le> 2047"
  by (simp add: line_of_def)

lemma core_eq:
  assumes "log_message E level err fmt args = Inr line"
  shows "qc_log_error_core E l level err fmt args =
    Inr (if int level > log_level l then []
         else if write_to E (log_fd l) = W_ok then [(log_fd l, line)]
         else if write_to E (log_fd l) = W_failed \<and> log_fd l \<noteq> 2 \<and> write_to E 2 = W_ok then [(2, line)] else [])"
  using assms by (cases "write_to E (log_fd l)") (simp_all add: qc_log_error_core_def sys_write_def STDERR_FILENO_def)

text \<open>
  C17. A message of the log is one line of at most 2047 bytes that ends in a newline: the time, the
  level and the process, the text of the format and, if it fits, the text of the error. It is
  written with one write to the log file if its level is enabled, and to the terminal instead when
  that write fails for another reason than a full disk (a log file that was never opened is such a
  reason).
\<close>

theorem log_writes_one_line:
  assumes "time_ok E y mo d h mi s" "level < 9" "-10000 < err" "err < 100000"
    and "render (doubles E) fmt args = Inr msg"
  shows "\<exists>line. line = line_of E err (head_text E (time_text y mo d h mi s) level @ msg)
    \<and> length line \<le> 2047 \<and> last line = CHR 0x0A
    \<and> qc_log_error_core E l level err fmt args =
        Inr (if int level > log_level l then []
             else if write_to E (log_fd l) = W_ok then [(log_fd l, line)]
             else if write_to E (log_fd l) = W_failed \<and> log_fd l \<noteq> 2 \<and> write_to E 2 = W_ok then [(2, line)] else [])"
  using log_message_eq [OF assms] core_eq [of E level err fmt args _ l] line_of_length
  by (metis last_snoc line_of_def)

definition demo_env :: "int env" where
  "demo_env = \<lparr>doubles = whole_ops, strerror = (\<lambda>e. ''No such file''),
     tm_now = map of_nat [2025, 1, 8, 19, 57, 11], pid_now = 2037, write_to = (\<lambda>fd. if fd < 0 then W_failed else W_ok)\<rparr>"

lemma demo_time_ok: "time_ok demo_env 2025 1 8 19 57 11"
  by (simp add: time_ok_def demo_env_def)

theorem log_writes_one_line_witness:
  "\<exists>line. qc_log_error_core demo_env \<lparr>log_level = 6, log_fd = -1\<rparr> 4 2 ''open() failed'' [] = Inr [(2, line)]
     \<and> last line = CHR 0x0A"
proof -
  have "render (doubles demo_env) ''open() failed'' [] = Inr ''open() failed''" by (rule render_literal) simp
  from log_writes_one_line [OF demo_time_ok _ _ _ this, of 4 2 "\<lparr>log_level = 6, log_fd = -1\<rparr>"]
  show ?thesis by (simp add: demo_env_def)
qed




end
