(* ===== verification/QcInet.thy ===== *)
theory QcInet
  imports QcLog QcComm
begin

text \<open>
  The text of a peer address: net/qc\_socket\_inet.cc. An address is its family, the four bytes of
  \<open>sin_addr\<close> in the order of memory, and \<open>sin_port\<close> as it is stored (network order).
\<close>

record sockaddr_in =
  sa_family :: nat
  sin_addr :: "u8 \<times> u8 \<times> u8 \<times> u8"
  sin_port :: u16

definition AF_INET :: nat where "AF_INET = 2"

text \<open>The text written, and the length the code returns.\<close>

definition qc_sock_ntop :: "'d double_ops \<Rightarrow> sockaddr_in \<Rightarrow> bool \<Rightarrow> nat \<Rightarrow> fmt_error + string \<times> nat" where
  "qc_sock_ntop D sa port len =
     (if sa_family sa = AF_INET
      then (case sin_addr sa of (p0, p1, p2, p3) \<Rightarrow>
              bind_fmt
                (if port
                 then qc_snprintf D len ''%ud.%ud.%ud.%ud:%d''
                        [A_uint (ucast p0), A_uint (ucast p1), A_uint (ucast p2), A_uint (ucast p3),
                         A_int (ucast (ntohs (sin_port sa)))]
                 else qc_snprintf D len ''%ud.%ud.%ud.%ud''
                        [A_uint (ucast p0), A_uint (ucast p1), A_uint (ucast p2), A_uint (ucast p3)])
                (\<lambda>p. Inr (written p, length (written p))))
      else Inr ([], 0))"

lemma render_uint:
  "render D (CHR ''%'' # CHR ''u'' # CHR ''d'' # rest) (A_uint i # as) =
     bind_fmt (render D rest as) (\<lambda>t. Inr (decimal (unat i) @ t))"
proof -
  have s: "read_spec (CHR ''u'' # CHR ''d'' # rest) =
      (\<lparr>zero = CHR '' '', width = 0, sign = False, hex = 0, frac_width = 0\<rparr>, CHR ''d'' # rest)"
    by (simp add: read_spec_def is_digit_def)
  have "unat i < 2 ^ 64" using unsigned_less [of i, where 'a = nat] by simp
  then have "unat (ucast i :: u64) = unat i" by (simp add: unsigned_ucast_eq take_bit_nat_eq_self)
  then have "num_text \<lparr>zero = CHR '' '', width = 0, sign = False, hex = 0, frac_width = 0\<rparr> 0 (ucast i) = decimal (unat i)"
    by (simp add: num_text_def field_def num_digits_eq(1))
  then show ?thesis by (simp add: render_step(4) [of _ "CHR ''d''" rest] s directive_text_def)
qed

text \<open>The dotted text of the address, with the port in host order.\<close>

definition dotted :: "u8 \<Rightarrow> u8 \<Rightarrow> u8 \<Rightarrow> u8 \<Rightarrow> string" where
  "dotted p0 p1 p2 p3 = decimal (unat p0) @ ''.'' @ decimal (unat p1) @ ''.'' @ decimal (unat p2) @ ''.'' @ decimal (unat p3)"

lemma length_dotted: "length (dotted p0 p1 p2 p3) \<le> 15"
proof -
  have "length (decimal (unat p)) \<le> 3" for p :: u8
    by (rule digits_length) (use unsigned_less [of p, where 'a = nat] in auto)
  from this [of p0] this [of p1] this [of p2] this [of p3] show ?thesis by (simp add: dotted_def)
qed

lemma unat_ucast_byte: "unat (ucast (p :: u8) :: u32) = unat p"
proof -
  have "unat p < 2 ^ 32" using unsigned_less [of p, where 'a = nat] by simp
  then show ?thesis by (simp add: unsigned_ucast_eq take_bit_nat_eq_self)
qed

text \<open>The buffer gets as much of the text as it has room for, and its length is returned.\<close>

lemma qc_sock_ntop_text:
  assumes "sa_family sa = AF_INET" "sin_addr sa = (p0, p1, p2, p3)"
  shows "qc_sock_ntop D sa port len =
    (let s = take len (dotted p0 p1 p2 p3 @ (if port then '':'' @ decimal (unat (ntohs (sin_port sa))) else []))
     in Inr (s, length s))"
proof -
  have n: "unat (ntohs (sin_port sa)) < 2 ^ 31"
    using unsigned_less [of "ntohs (sin_port sa)", where 'a = nat] by simp
  have u: "(ucast (ntohs (sin_port sa)) :: u32) = of_nat (unat (ntohs (sin_port sa)))" by simp
  have "render D (CHR ''%'' # ''d'') [A_int (ucast (ntohs (sin_port sa)))] = Inr (decimal (unat (ntohs (sin_port sa))))"
    unfolding u using render_int [OF read_spec_plain(3) [unfolded plain_spec_def] n, of D "[]" "[]"]
    by (simp add: render_step(1) pad_def)
  then have "render D ''%ud.%ud.%ud.%ud:%d'' [A_uint (ucast p0), A_uint (ucast p1), A_uint (ucast p2), A_uint (ucast p3),
        A_int (ucast (ntohs (sin_port sa)))] = Inr (dotted p0 p1 p2 p3 @ '':'' @ decimal (unat (ntohs (sin_port sa))))"
    and "render D ''%ud.%ud.%ud.%ud'' [A_uint (ucast p0), A_uint (ucast p1), A_uint (ucast p2), A_uint (ucast p3)] =
      Inr (dotted p0 p1 p2 p3)"
    by (simp_all add: render_uint render_step(1,2) dotted_def unat_ucast_byte)
  from this [THEN render_trunc, of "\<lparr>written = [], room = len\<rparr>"] assms show ?thesis
    by (simp add: qc_sock_ntop_def qc_snprintf_def emit_def Let_def)
qed

end
