(* ===== verification/QcSignal.thy ===== *)
theory QcSignal
  imports QcPrintf
begin

text \<open>
  Signals: signal/qc\_signal.cc. The dispositions of a process are a function from signal numbers;
  the children of the master are a list in the order in which \<open>waitpid\<close> finds them. A call of the
  log is recorded with its arguments (theory QcLog turns it into a line); a null string among them
  is an error value.
\<close>

section \<open>The table\<close>

definition SIGHUP :: int where "SIGHUP = 1"
definition SIGINT :: int where "SIGINT = 2"
definition SIGQUIT :: int where "SIGQUIT = 3"
definition SIGTERM :: int where "SIGTERM = 15"
definition SIGCHLD :: int where "SIGCHLD = 17"
definition SIGIO :: int where "SIGIO = 29"
definition SIGSYS :: int where "SIGSYS = 31"

lemmas signal_numbers = SIGHUP_def SIGINT_def SIGQUIT_def SIGTERM_def SIGCHLD_def SIGIO_def SIGSYS_def

datatype disposition = Sig_default | Sig_ignore | Sig_handler

record qc_signal_t =
  signo :: int
  signame :: string
  handler :: bool

text \<open>The entries before the one with number 0, which ends the table; \<open>handler\<close>: it is not \<open>NULL\<close>.\<close>

definition signals :: "qc_signal_t list" where
  "signals =
     [\<lparr>signo = SIGHUP, signame = ''SIGHUP'', handler = True\<rparr>,
      \<lparr>signo = SIGINT, signame = ''SIGINT'', handler = True\<rparr>,
      \<lparr>signo = SIGTERM, signame = ''SIGTERM'', handler = True\<rparr>,
      \<lparr>signo = SIGCHLD, signame = ''SIGCHLD'', handler = True\<rparr>,
      \<lparr>signo = SIGQUIT, signame = ''SIGQUIT'', handler = True\<rparr>,
      \<lparr>signo = SIGIO, signame = ''SIGIO'', handler = True\<rparr>,
      \<lparr>signo = SIGSYS, signame = ''SIGSYS, SIG_IGN'', handler = False\<rparr>]"

type_synonym 'd log_call = "nat \<times> int \<times> string \<times> 'd arg list"

section \<open>Installing the handlers\<close>

text \<open>\<open>ok\<close>: which calls of \<open>sigaction\<close> succeed; \<open>err\<close>: the error number of the one that fails.\<close>

fun init_loop ::
  "(int \<Rightarrow> bool) \<Rightarrow> int \<Rightarrow> qc_signal_t list \<Rightarrow> (int \<Rightarrow> disposition) \<Rightarrow> int \<times> (int \<Rightarrow> disposition) \<times> 'd log_call list" where
  "init_loop ok err [] disp = (0, disp, [])"
| "init_loop ok err (sig # rest) disp =
     (if \<not> ok (signo sig) then (-1, disp, [(1, err, ''sigaction(%s) failed'', [A_str (signame sig)])])
      else init_loop ok err rest (disp(signo sig := (if handler sig then Sig_handler else Sig_ignore))))"

definition qc_init_signals ::
  "(int \<Rightarrow> bool) \<Rightarrow> int \<Rightarrow> (int \<Rightarrow> disposition) \<Rightarrow> int \<times> (int \<Rightarrow> disposition) \<times> 'd log_call list" where
  "qc_init_signals ok err disp = init_loop ok err signals disp"

section \<open>Collecting children\<close>

datatype wstatus = Running | Exited u32 | Killed u32

datatype wait_fault = No_fault | Interrupted | Other_error int

text \<open>
  \<open>waitpid(-1, &status, WNOHANG)\<close> takes the first child that has ended out of the table, or
  returns 0 when all run, or fails with \<open>ECHILD_no\<close> when there is none.
\<close>

datatype waitpid_result = W_pid u32 wstatus | W_zero | W_error int

definition EINTR_no :: int where "EINTR_no = 4"
definition ECHILD_no :: int where "ECHILD_no = 10"

fun take_ended :: "(u32 \<times> wstatus) list \<Rightarrow> ((u32 \<times> wstatus) \<times> (u32 \<times> wstatus) list) option" where
  "take_ended [] = None"
| "take_ended ((pid, st) # kids) =
     (if st \<noteq> Running then Some ((pid, st), kids)
      else map_option (\<lambda>(k, rest). (k, (pid, st) # rest)) (take_ended kids))"

definition waitpid :: "wait_fault \<Rightarrow> (u32 \<times> wstatus) list \<Rightarrow> waitpid_result \<times> (u32 \<times> wstatus) list" where
  "waitpid f kids =
     (case f of
        Interrupted \<Rightarrow> (W_error EINTR_no, kids)
      | Other_error e \<Rightarrow> (W_error e, kids)
      | No_fault \<Rightarrow>
          (case take_ended kids of
             Some ((pid, st), rest) \<Rightarrow> (W_pid pid st, rest)
           | None \<Rightarrow> (if kids = [] then W_error ECHILD_no else W_zero, kids)))"

definition exit_line :: "u32 \<Rightarrow> wstatus \<Rightarrow> 'd log_call" where
  "exit_line pid st =
     (case st of
        Killed sig \<Rightarrow> (2, 0, ''pid = %P exited on signal %d!'', [A_int pid, A_int sig])
      | Exited code \<Rightarrow> (6, 0, ''pid = %P exited with code %d!'', [A_int pid, A_int code])
      | Running \<Rightarrow> (6, 0, ''pid = %P exited with code %d!'', [A_int pid, A_int 0]))"

lemma take_ended_length: "take_ended kids = Some (k, rest) \<Longrightarrow> length kids = Suc (length rest)"
  by (induction kids arbitrary: rest rule: take_ended.induct) (auto split: if_splits)

text \<open>The faults that meet the calls of \<open>waitpid\<close>, in order; afterwards there are none.\<close>

function qc_process_get_status ::
  "wait_fault list \<Rightarrow> (u32 \<times> wstatus) list \<Rightarrow> bool \<Rightarrow> (u32 \<times> wstatus) list \<times> 'd log_call list" where
  "qc_process_get_status fs kids one =
     (case waitpid (if fs = [] then No_fault else hd fs) kids of
        (W_zero, kids') \<Rightarrow> (kids', [])
      | (W_error err, kids') \<Rightarrow>
          if err = EINTR_no \<and> fs \<noteq> [] then qc_process_get_status (tl fs) kids' one
          else if err = ECHILD_no \<and> one then (kids', [])
          else if err = ECHILD_no then (kids', [(7, err, ''waitpid() failed!'', [])])
          else (kids', [(2, err, ''waitpid() failed!'', [])])
      | (W_pid pid st, kids') \<Rightarrow>
          (let (kids'', log) = qc_process_get_status (tl fs) kids' True in (kids'', exit_line pid st # log)))"
  by pat_completeness auto
termination
  by (relation "measure (\<lambda>(fs, kids, one). length fs + length kids)")
     (auto simp: waitpid_def dest: take_ended_length
       split: wait_fault.splits option.splits prod.splits if_splits)

declare qc_process_get_status.simps [simp del]

section \<open>The handler\<close>

datatype process_kind = Master | Worker_process

record 'd proc =
  qc_process :: process_kind
  qc_reap :: bool
  children :: "(u32 \<times> wstatus) list"
  log_calls :: "'d log_call list"

fun find_signal :: "int \<Rightarrow> qc_signal_t list \<Rightarrow> string option" where
  "find_signal s [] = None"
| "find_signal s (sig # rest) = (if signo sig = s then Some (signame sig) else find_signal s rest)"

text \<open>\<open>from\<close>: the process that sent the signal, when it is known and not 0.\<close>

definition qc_signal_handler ::
  "int \<Rightarrow> u32 option \<Rightarrow> wait_fault list \<Rightarrow> 'd proc \<Rightarrow> fmt_error + 'd proc" where
  "qc_signal_handler s from fs P =
     (case find_signal s signals of
        None \<Rightarrow> Inl Bad_arg
      | Some name \<Rightarrow>
          (let P1 = (if qc_process P = Master \<and> s = SIGCHLD then P\<lparr>qc_reap := True\<rparr> else P);
               line = (case from of
                   Some pid \<Rightarrow> if pid \<noteq> 0
                     then (6, 0, ''signal %d (%s) received from %P%s'',
                           [A_int (word_of_int s), A_str name, A_int pid, A_str []])
                     else (6, 0, ''signal %d (%s) received %s'', [A_int (word_of_int s), A_str name, A_str []])
                 | None \<Rightarrow> (6, 0, ''signal %d (%s) received %s'', [A_int (word_of_int s), A_str name, A_str []]));
               P2 = P1\<lparr>log_calls := log_calls P1 @ [line]\<rparr>
           in if s = SIGCHLD
              then (let (ks, log) = qc_process_get_status fs (children P2) False
                    in Inr (P2\<lparr>children := ks, log_calls := log_calls P2 @ log\<rparr>))
              else Inr P2))"

section \<open>What they do\<close>

lemma take_ended_spec:
  "take_ended kids = None \<longleftrightarrow> (\<forall>k \<in> set kids. snd k = Running)"
  "take_ended kids = Some (k, rest) \<Longrightarrow>
     filter (\<lambda>k. snd k \<noteq> Running) kids = k # filter (\<lambda>k. snd k \<noteq> Running) rest
     \<and> filter (\<lambda>k. snd k = Running) kids = filter (\<lambda>k. snd k = Running) rest \<and> snd k \<noteq> Running"
  by (induction kids arbitrary: k rest rule: take_ended.induct) (auto split: if_splits)

text \<open>Every child that has ended is collected, with a line each; those that run are left alone.\<close>

lemma get_status_collects:
  assumes "\<forall>f \<in> set fs. \<forall>e. f \<noteq> Other_error e"
  shows "\<exists>log :: 'd log_call list. qc_process_get_status fs kids one = (filter (\<lambda>k. snd k = Running) kids,
      map (\<lambda>(pid, st). exit_line pid st) (filter (\<lambda>k. snd k \<noteq> Running) kids) @ log)
    \<and> (log \<noteq> [] \<longrightarrow> kids = [] \<and> \<not> one \<and> log = [(7, ECHILD_no, ''waitpid() failed!'', [])])"
  using assms
proof (induction fs kids one rule: qc_process_get_status.induct)
  case (1 fs kids one)
  let ?f = "if fs = [] then No_fault else hd fs"
  have tl: "\<forall>f \<in> set (tl fs). \<forall>e. f \<noteq> Other_error e" using "1.prems" by (cases fs) auto
  consider "?f = No_fault" | "?f = Interrupted" "fs \<noteq> []"
    using "1.prems" by (cases fs; cases "hd fs") auto
  then show ?case
  proof cases
    case 1
    show ?thesis
    proof (cases "take_ended kids")
      case None
      then have "\<forall>k \<in> set kids. snd k = Running" using take_ended_spec(1) by blast
      moreover from this have "filter (\<lambda>k. snd k = Running) kids = kids" "filter (\<lambda>k. snd k \<noteq> Running) kids = []"
        by simp_all
      ultimately show ?thesis using 1 None
        by (subst qc_process_get_status.simps) (auto simp: waitpid_def EINTR_no_def ECHILD_no_def)
    next
      case (Some kr)
      obtain pid st rest where kr: "kr = ((pid, st), rest)" by (metis surj_pair)
      have w: "waitpid ?f kids = (W_pid pid st, rest)" using 1 Some kr by (simp add: waitpid_def)
      from "1.IH"(1) [OF w [symmetric] refl] tl obtain log :: "'d log_call list" where
        "qc_process_get_status (tl fs) rest True = (filter (\<lambda>k. snd k = Running) rest,
           map (\<lambda>(pid, st). exit_line pid st) (filter (\<lambda>k. snd k \<noteq> Running) rest) @ log)" "log = []"
        by auto
      with take_ended_spec(2) [OF Some [unfolded kr]] w show ?thesis
        by (subst qc_process_get_status.simps) simp
    qed
  next
    case 2
    then have w: "waitpid ?f kids = (W_error EINTR_no, kids)" by (simp add: waitpid_def)
    from "1.IH"(2) [OF w [symmetric] refl] 2(2) tl obtain log :: "'d log_call list" where
      "qc_process_get_status (tl fs) kids one = (filter (\<lambda>k. snd k = Running) kids,
         map (\<lambda>(pid, st). exit_line pid st) (filter (\<lambda>k. snd k \<noteq> Running) kids) @ log)"
      "log \<noteq> [] \<longrightarrow> kids = [] \<and> \<not> one \<and> log = [(7, ECHILD_no, ''waitpid() failed!'', [])]" by blast
    with w 2(2) show ?thesis by (subst qc_process_get_status.simps) simp
  qed
qed

lemma init_loop_ok:
  assumes "init_loop ok err sigs disp = (r, disp', log)" and "distinct (map signo sigs)"
  shows "(r = 0 \<longleftrightarrow> (\<forall>sig \<in> set sigs. ok (signo sig))) \<and> (r = 0 \<or> r = -1)
    \<and> (\<forall>k. k \<notin> signo ` set sigs \<longrightarrow> disp' k = disp k)
    \<and> (r = 0 \<longrightarrow> log = [] \<and> (\<forall>sig \<in> set sigs. disp' (signo sig) = (if handler sig then Sig_handler else Sig_ignore)))"
  using assms
proof (induction sigs arbitrary: disp)
  case (Cons sig sigs)
  show ?case
  proof (cases "ok (signo sig)")
    case True
    have "init_loop ok err sigs (disp(signo sig := (if handler sig then Sig_handler else Sig_ignore))) = (r, disp', log)"
      using Cons.prems(1) True by simp
    from Cons.IH [OF this] Cons.prems(2) True show ?thesis by auto
  qed (use Cons.prems in auto)
qed simp

section \<open>Properties\<close>

text \<open>
  C16. The handler of \<open>SIGCHLD\<close> in the master collects every child that has ended, whichever and
  however many there are, also when \<open>waitpid\<close> is interrupted on the way: none stays a zombie, those
  that run stay, each collected child has one line in the log that tells how it ended, and the
  handler returns. The signal itself is logged first.
\<close>

theorem SIGCHLD_collects_children:
  assumes "\<forall>f \<in> set fs. \<forall>e. f \<noteq> Other_error e" and "qc_process P = Master"
  shows "\<exists>P' first rest. qc_signal_handler SIGCHLD from fs (P :: 'd proc) = Inr P' \<and> qc_reap P'
    \<and> children P' = filter (\<lambda>k. snd k = Running) (children P)
    \<and> log_calls P' = log_calls P @ [first] @ map (\<lambda>(pid, st). exit_line pid st) (filter (\<lambda>k. snd k \<noteq> Running) (children P)) @ rest
    \<and> (rest \<noteq> [] \<longrightarrow> children P = [])"
proof -
  have name: "find_signal SIGCHLD signals = Some ''SIGCHLD''" by (simp add: signals_def signal_numbers)
  from get_status_collects [OF assms(1), of "children P" False] obtain log :: "'d log_call list" where
    "qc_process_get_status fs (children P) False = (filter (\<lambda>k. snd k = Running) (children P),
       map (\<lambda>(pid, st). exit_line pid st) (filter (\<lambda>k. snd k \<noteq> Running) (children P)) @ log)"
    "log \<noteq> [] \<longrightarrow> children P = []" by blast
  then show ?thesis
    using assms(2) by (auto simp: qc_signal_handler_def name Let_def split: option.split)
qed

definition demo_master :: "int proc" where
  "demo_master = \<lparr>qc_process = Master, qc_reap = False,
     children = [(101, Running), (102, Killed 9), (103, Exited 0)], log_calls = []\<rparr>"

theorem SIGCHLD_collects_children_witness:
  "\<exists>P'. qc_signal_handler SIGCHLD (Some 102) [Interrupted] demo_master = Inr P' \<and> children P' = [(101, Running)]
     \<and> length (log_calls P') \<ge> 3"
  using SIGCHLD_collects_children [of "[Interrupted]" demo_master "Some 102"]
  by (fastforce simp: demo_master_def)

text \<open>
  C39. \<open>qc_init_signals\<close> returns 0 exactly when every call of \<open>sigaction\<close> succeeds; then the signals
  of its table have its handler, \<open>SIGSYS\<close> is ignored and every other signal keeps its disposition,
  and the handler finds the name of each signal it can be called for, so that it never reads a null
  string. The handler leaves the children alone for every signal but \<open>SIGCHLD\<close>.
\<close>

theorem init_signals_installs:
  "case qc_init_signals ok err disp of (r, disp', log :: 'd log_call list) \<Rightarrow>
     (r = 0 \<longleftrightarrow> (\<forall>s \<in> {SIGHUP, SIGINT, SIGTERM, SIGCHLD, SIGQUIT, SIGIO, SIGSYS}. ok s)) \<and> (r = 0 \<or> r = -1)
     \<and> (\<forall>k. k \<notin> {SIGHUP, SIGINT, SIGTERM, SIGCHLD, SIGQUIT, SIGIO, SIGSYS} \<longrightarrow> disp' k = disp k)
     \<and> (r = 0 \<longrightarrow> log = [] \<and> disp' SIGSYS = Sig_ignore
          \<and> (\<forall>s \<in> {SIGHUP, SIGINT, SIGTERM, SIGCHLD, SIGQUIT, SIGIO}. disp' s = Sig_handler
               \<and> (\<forall>from fs (P :: 'd proc). \<exists>P'. qc_signal_handler s from fs P = Inr P'
                    \<and> (s \<noteq> SIGCHLD \<longrightarrow> children P' = children P))))"
proof -
  obtain r disp' and log :: "'d log_call list" where run: "qc_init_signals ok err disp = (r, disp', log)"
    by (metis surj_pair)
  have d: "distinct (map signo signals)" by (simp add: signals_def signal_numbers)
  have s: "signo ` set signals = {SIGHUP, SIGINT, SIGTERM, SIGCHLD, SIGQUIT, SIGIO, SIGSYS}"
    by (simp add: signals_def)
  note L = init_loop_ok [OF run [unfolded qc_init_signals_def] d]
  have h: "\<exists>P'. qc_signal_handler s sender fs P = Inr P' \<and> (s \<noteq> SIGCHLD \<longrightarrow> children P' = children P)"
    if "s \<in> {SIGHUP, SIGINT, SIGTERM, SIGCHLD, SIGQUIT, SIGIO}" for s sender fs and P :: "'d proc"
  proof -
    have "find_signal s signals \<noteq> None" using that by (auto simp: signals_def signal_numbers)
    then obtain n where "find_signal s signals = Some n" by blast
    then show ?thesis by (simp add: qc_signal_handler_def Let_def case_prod_beta)
  qed
  have e: "r = 0 \<longrightarrow> disp' SIGSYS = Sig_ignore
      \<and> (\<forall>s \<in> {SIGHUP, SIGINT, SIGTERM, SIGCHLD, SIGQUIT, SIGIO}. disp' s = Sig_handler)"
    using L by (simp add: signals_def)
  have a: "(\<forall>sig \<in> set signals. ok (signo sig)) \<longleftrightarrow> (\<forall>k \<in> signo ` set signals. ok k)" by blast
  show ?thesis
    unfolding run prod.case using L h e unfolding a s by blast
qed

theorem init_signals_installs_witness:
  "case qc_init_signals (\<lambda>_. True) 0 (\<lambda>_. Sig_default) of (r, disp', log :: int log_call list) \<Rightarrow>
     r = 0 \<and> log = [] \<and> disp' 9 = Sig_default \<and> disp' SIGSYS = Sig_ignore \<and> disp' SIGCHLD = Sig_handler"
  using init_signals_installs [where ok = "\<lambda>_. True" and err = 0 and disp = "\<lambda>_. Sig_default" and 'd = int]
  by (auto simp: signal_numbers split: prod.splits)

end
