(* ===== verification/QcTitle.thy ===== *)
theory QcTitle
  imports QcConf
begin

text \<open>
  The title of a process: proc/qc\_setproctitle.cc, and the code of app/QuickComm.cc and
  proc/qc\_process\_cycle.cc that measures the arguments and puts the title of the master together.
  The strings of \<open>argv\<close> and, behind them, of \<open>environ\<close> lie one after the other in one block of
  memory, as the system places them; an access outside of an array or of that block is \<open>None\<close>.
\<close>

section \<open>The code\<close>

definition cells :: "string list \<Rightarrow> string" where
  "cells ss = concat (map (\<lambda>s. s @ [NUL]) ss)"

text \<open>
  \<open>main\<close>: the loop over \<open>i < argc\<close> adds up \<open>strlen(environ[i] + 1)\<close>. Behind the last string
  \<open>environ[i]\<close> is null, and behind the terminator of an empty string the next one begins.
\<close>

fun argv_mem :: "nat \<Rightarrow> string list \<Rightarrow> nat option" where
  "argv_mem 0 environ = Some 0"
| "argv_mem (Suc n) [] = None"
| "argv_mem (Suc n) (e # environ) =
     (if e = [] then None else map_option (\<lambda>m. (length e - 1) + m) (argv_mem n environ))"

text \<open>\<open>qc_init_setproctitle\<close> copies the environment into \<open>g_argvneedmem\<close> bytes.\<close>

fun copy_env :: "string list \<Rightarrow> nat \<Rightarrow> string \<Rightarrow> string option" where
  "copy_env [] ptmp mem = Some mem"
| "copy_env (e # environ) ptmp mem =
     (if ptmp + (length e + 1) \<le> length mem
      then copy_env environ (ptmp + (length e + 1))
             (take ptmp mem @ e @ [NUL] @ drop (ptmp + (length e + 1)) mem)
      else None)"

definition qc_init_setproctitle :: "nat \<Rightarrow> string list \<Rightarrow> string option" where
  "qc_init_setproctitle g_argvneedmem environ = copy_env environ 0 (replicate g_argvneedmem NUL)"

text \<open>
  \<open>qc_setproctitle\<close> on the block \<open>m\<close> that starts with \<open>argv[0]\<close>: the title with its terminator,
  then zeros over the rest of \<open>g_argvneedmem + g_envneedmem\<close> bytes.
\<close>

definition qc_setproctitle :: "nat \<Rightarrow> nat \<Rightarrow> string \<Rightarrow> string \<Rightarrow> string option" where
  "qc_setproctitle g_argvneedmem g_envneedmem title m =
     (let title_len = length title; esy = g_argvneedmem + g_envneedmem
      in if esy \<le> title_len then Some m
         else if length m < title_len + 1 \<or> length m < title_len + (esy - title_len) then None
         else (let m1 = title @ [NUL] @ drop (title_len + 1) m
               in Some (take title_len m1 @ replicate (esy - title_len) NUL
                        @ drop (title_len + (esy - title_len)) m1)))"

text \<open>
  The title of the master: an array of 1000 bytes, filled by \<open>strcat\<close>. \<open>None\<close>: it overflows.
  The test of the size is made before.
\<close>

fun strcat_all :: "string \<Rightarrow> string list \<Rightarrow> string option" where
  "strcat_all title [] = Some title"
| "strcat_all title (a # argv) =
     (if length title + length a + 1 \<le> 1000 then strcat_all (title @ a) argv else None)"

definition master_title :: "nat \<Rightarrow> string list \<Rightarrow> string option option" where
  "master_title g_argvneedmem argv =
     (let size = length ''master process'' + 1 + g_argvneedmem
      in if size < 1000 then Some (strcat_all (''master process'' @ '' '') argv) else None)"

section \<open>Properties\<close>

lemma argv_mem_bound: "argv_mem n environ = Some k \<Longrightarrow> k + n \<le> length (cells environ)"
proof (induction n environ arbitrary: k rule: argv_mem.induct)
  case (3 n e environ)
  then show ?case by (cases e) (auto simp: cells_def split: if_splits)
qed (auto simp: cells_def)

lemma argv_mem_env: "argv_mem n environ = Some k \<Longrightarrow> n \<le> length environ"
  by (induction n environ arbitrary: k rule: argv_mem.induct) (auto split: if_splits)

lemma copy_env_fits: "copy_env environ p mem = Some mem' \<Longrightarrow> p \<le> length mem \<Longrightarrow> p + length (cells environ) \<le> length mem"
proof (induction environ p mem rule: copy_env.induct)
  case (2 e environ p mem)
  then have f: "p + (length e + 1) \<le> length mem"
    and r: "copy_env environ (p + (length e + 1)) (take p mem @ e @ [NUL] @ drop (p + (length e + 1)) mem) = Some mem'"
    by (auto split: if_splits)
  have l: "length (take p mem @ e @ [NUL] @ drop (p + (length e + 1)) mem) = length mem" using f by simp
  from "2.IH" [OF f r, unfolded l, OF f] show ?case by (simp add: cells_def)
qed (simp add: cells_def)

lemma strcat_all_eq:
  "strcat_all t argv = (if argv = [] \<or> length t + length (concat argv) + 1 \<le> 1000 then Some (t @ concat argv) else None)"
  by (induction t argv rule: strcat_all.induct) auto

lemma qc_setproctitle_eq:
  assumes "length title < a + e" "a + e \<le> length m"
  shows "qc_setproctitle a e title m = Some (title @ replicate (a + e - length title) NUL @ drop (a + e) m)"
proof -
  obtain k where k: "a + e = length title + Suc k" using assms(1) less_iff_Suc_add by auto
  have "drop (Suc k) (NUL # drop (Suc (length title)) m) = drop (a + e) m" by (simp add: k add.commute)
  with assms show ?thesis by (simp add: qc_setproctitle_def Let_def k)
qed

text \<open>
  C32. With the sizes \<open>main\<close> computes, setting a title stays inside the block of the arguments and
  the environment and leaves its length; when the title is short enough it becomes the text of
  \<open>argv[0]\<close>. But \<open>main\<close> measures the first strings of the environment and not the arguments: the
  copy of the environment overflows its memory for every environment, so it is as well that no code
  calls it, and the title of the master overflows its array when the arguments are long, whatever
  their measured size.
\<close>

theorem proctitle_sizes:
  assumes "argv_mem argc environ = Some need" and "0 < argc" and "length argv = argc"
  shows "(\<exists>m. qc_setproctitle need 0 title (cells argv @ cells environ) = Some m
        \<and> length m = length (cells argv @ cells environ)
        \<and> (length title < need \<longrightarrow> NUL \<notin> set title \<longrightarrow> c_string m = title))
    \<and> qc_init_setproctitle need environ = None
    \<and> (need < 985 \<longrightarrow> 984 < length (concat argv) \<longrightarrow> master_title need argv = Some None)
    \<and> (need < 985 \<longrightarrow> length (concat argv) \<le> 984 \<longrightarrow> master_title need argv = Some (Some (''master process '' @ concat argv)))"
proof (intro conjI impI)
  let ?m = "cells argv @ cells environ"
  have le: "need < length (cells environ)" using argv_mem_bound [OF assms(1)] assms(2) by simp
  show "\<exists>m. qc_setproctitle need 0 title ?m = Some m \<and> length m = length ?m
        \<and> (length title < need \<longrightarrow> NUL \<notin> set title \<longrightarrow> c_string m = title)"
  proof (cases "need \<le> length title")
    case True
    then show ?thesis by (simp add: qc_setproctitle_def)
  next
    case False
    then obtain k where k: "need - length title = Suc k" by (metis Suc_diff_Suc not_le)
    let ?r = "title @ replicate (need - length title) NUL @ drop need ?m"
    have "qc_setproctitle need 0 title ?m = Some ?r"
      using qc_setproctitle_eq [of title need 0 ?m] False le by simp
    moreover have "length ?r = length ?m" using False le by simp
    moreover have "c_string ?r = title" if "NUL \<notin> set title"
      unfolding k replicate_Suc append_Cons by (rule c_string_append [OF that])
    ultimately show ?thesis by blast
  qed
  show "qc_init_setproctitle need environ = None"
    using copy_env_fits [of environ 0 "replicate need NUL"] le
    by (cases "copy_env environ 0 (replicate need NUL)") (simp_all add: qc_init_setproctitle_def)
next
  assume "need < 985" "984 < length (concat argv)"
  then show "master_title need argv = Some None" by (cases argv) (auto simp: master_title_def strcat_all_eq)
next
  assume "need < 985" "length (concat argv) \<le> 984"
  then show "master_title need argv = Some (Some (''master process '' @ concat argv))"
    by (simp add: master_title_def strcat_all_eq)
qed

theorem proctitle_sizes_witness:
  "argv_mem 1 [''SHELL=/bin/bash'', ''LANG=C''] = Some 14
   \<and> qc_init_setproctitle 14 [''SHELL=/bin/bash'', ''LANG=C''] = None
   \<and> master_title 14 [replicate 1000 (CHR ''a'')] = Some None"
proof -
  have a: "argv_mem 1 [''SHELL=/bin/bash'', ''LANG=C''] = Some 14" by simp
  have "master_title 14 [replicate 1000 (CHR ''a'')] = Some None"
    using proctitle_sizes [OF a, of "[replicate 1000 (CHR ''a'')]"] by simp
  moreover have "qc_init_setproctitle 14 [''SHELL=/bin/bash'', ''LANG=C''] = None"
    using proctitle_sizes [OF a, of "[''x'']"] by simp
  ultimately show ?thesis using a by blast
qed

end
