(* ===== verification/QcStartup.thy ===== *)
theory QcStartup
  imports QcSystem QcThreadPool QcInet QcSignal QcTitle
begin

text \<open>
  The start of the program: app/QuickComm.cc, proc/qc\_process\_cycle.cc, proc/qc\_daemon.cc,
  proc/qc\_event.cc, and reading the configuration and starting the threads in net/qc\_socket.cc.
  \<open>fork\<close> returns in two processes; its answer says in which of them the function goes on. What
  other calls of the system answer are arguments. \<open>None\<close> is a number of the configuration that does
  not fit an \<open>int\<close>.
\<close>

section \<open>Configuration\<close>

text \<open>The global \<open>g_socket\<close>: the members the constructor of \<open>CSocket\<close> does not set are zero.\<close>

definition ctor_conf :: sock_conf where
  "ctor_conf = \<lparr>m_worker_connections = 1, m_RecyConnectionWaitTime = 60, m_ifkickTimeCount = 0,
     m_timerconf = \<lparr>m_iWaitTime = 0, m_ifTimeOutKick = 0\<rparr>, m_floodAkEnable = 0,
     m_floodTimeInterval = 0, m_floodKickCount = 0\<rparr>"

definition bind_opt :: "'a option \<Rightarrow> ('a \<Rightarrow> 'b option) \<Rightarrow> 'b option" where
  "bind_opt x f = (case x of None \<Rightarrow> None | Some y \<Rightarrow> f y)"

text \<open>The new configuration and \<open>m_ListenPortCount\<close>.\<close>

definition ReadConf :: "CConfItem list \<Rightarrow> sock_conf \<Rightarrow> int \<Rightarrow> (sock_conf \<times> int) option" where
  "ReadConf items cf ports =
     bind_opt (GetIntDefault items ''worker_connections'' (m_worker_connections cf)) (\<lambda>wc.
     bind_opt (GetIntDefault items ''ListenPortCount'' ports) (\<lambda>pc.
     bind_opt (GetIntDefault items ''Sock_RecyConnectionWaitTime'' (m_RecyConnectionWaitTime cf)) (\<lambda>rw.
     bind_opt (GetIntDefault items ''Sock_WaitTimeEnable'' 0) (\<lambda>kick.
     bind_opt (GetIntDefault items ''Sock_MaxWaitTime'' (m_iWaitTime (m_timerconf cf))) (\<lambda>wt.
     bind_opt (GetIntDefault items ''Sock_TimeOutKick'' 0) (\<lambda>tk.
     bind_opt (GetIntDefault items ''Sock_FloodAttackKickEnable'' 0) (\<lambda>fl.
     bind_opt (GetIntDefault items ''Sock_FloodTimeInterval'' 100) (\<lambda>ft.
     bind_opt (GetIntDefault items ''Sock_FloodKickCounter'' 10) (\<lambda>fk.
       Some (\<lparr>m_worker_connections = wc, m_RecyConnectionWaitTime = rw, m_ifkickTimeCount = kick,
               m_timerconf = \<lparr>m_iWaitTime = (if wt > 5 then wt else 5), m_ifTimeOutKick = tk\<rparr>,
               m_floodAkEnable = fl, m_floodTimeInterval = word_of_int ft, m_floodKickCount = fk\<rparr>, pc))))))))))"

text \<open>The port of the \<open>i\<close>-th listening socket.\<close>

definition listen_port :: "CConfItem list \<Rightarrow> nat \<Rightarrow> int option" where
  "listen_port items i = GetIntDefault items (''ListenPort'' @ decimal i) 10000"

definition Initialize ::
  "(nat \<Rightarrow> port_calls) \<Rightarrow> CConfItem list \<Rightarrow> sock_conf \<Rightarrow> int \<Rightarrow> kernel
   \<Rightarrow> (bool \<times> sock_conf \<times> int \<times> qc_listening list \<times> kernel) option" where
  "Initialize call items cf ports K =
     bind_opt (ReadConf items cf ports) (\<lambda>(cf', n).
       if list_ex (\<lambda>i. listen_port items i = None) [0..<nat n] then None
       else (let (ok, ls, K') = qc_open_listening_sockets call
                    (\<lambda>i. case listen_port items i of Some p \<Rightarrow> p | None \<Rightarrow> 0) (nat n) [] K
             in Some (ok, cf', n, ls, K')))"

section \<open>The threads of a worker\<close>

datatype sock_thread = T_SendQueue | T_RecyConnection | T_TimerMonitor

text \<open>
  \<open>ok k\<close>: the \<open>k\<close>-th call succeeds, of the four of \<open>pthread_mutex_init\<close>, the one of \<open>sem_init\<close>
  and those of \<open>pthread_create\<close>. The result holds \<open>m_threadVector\<close>, into which an item goes before
  its thread is created.
\<close>

definition Initialize_subproc :: "(nat \<Rightarrow> bool) \<Rightarrow> sock_conf \<Rightarrow> bool \<times> sock_thread list" where
  "Initialize_subproc ok cf =
     (if \<not> ok 0 then (False, []) else if \<not> ok 1 then (False, []) else if \<not> ok 2 then (False, [])
      else if \<not> ok 3 then (False, []) else if \<not> ok 4 then (False, [])
      else if \<not> ok 5 then (False, [T_SendQueue])
      else if \<not> ok 6 then (False, [T_SendQueue, T_RecyConnection])
      else if m_ifkickTimeCount cf = 1
      then (ok 7, [T_SendQueue, T_RecyConnection, T_TimerMonitor])
      else (True, [T_SendQueue, T_RecyConnection]))"

section \<open>Processes\<close>

text \<open>
  A process: its numbers, its open descriptors, whether it leads a session, its file mask, and the
  descriptor of the log (\<open>qc_log.fd\<close>).
\<close>

record process =
  qc_pid :: int
  qc_parent :: int
  fds :: "int \<rightharpoonup> string"
  own_session :: bool
  file_mask :: nat
  qlog_fd :: int

text \<open>\<open>open\<close> of the log by \<open>qc_log_init\<close> (\<open>logfd\<close> is -1 when it fails), and \<open>freeresource\<close>.\<close>

definition open_log :: "int \<Rightarrow> process \<Rightarrow> process" where
  "open_log logfd P = P\<lparr>qlog_fd := logfd, fds := (if logfd = -1 then fds P else (fds P)(logfd \<mapsto> ''log''))\<rparr>"

definition freeresource :: "process \<Rightarrow> process" where
  "freeresource P =
     (if qlog_fd P \<noteq> 2 \<and> qlog_fd P \<noteq> -1
      then P\<lparr>fds := (fds P)(qlog_fd P := None), qlog_fd := -1\<rparr> else P)"

datatype fork_result = Fork_failed | In_parent int | In_child int

record daemon_calls =
  d_fork :: fork_result
  d_setsid :: bool
  d_open :: int
  d_dup_in :: bool
  d_dup_out :: bool
  d_close :: bool

definition qc_daemon :: "daemon_calls \<Rightarrow> process \<Rightarrow> int \<times> process" where
  "qc_daemon c P =
     (case d_fork c of
        Fork_failed \<Rightarrow> (-1, P)
      | In_parent pid \<Rightarrow> (1, P)
      | In_child pid \<Rightarrow>
          (let P1 = P\<lparr>qc_parent := qc_pid P, qc_pid := pid\<rparr>
           in if \<not> d_setsid c then (-1, P1)
              else (let P2 = P1\<lparr>own_session := True, file_mask := 0\<rparr>; nfd = d_open c
                    in if nfd = -1 then (-1, P2)
                       else (let P3 = P2\<lparr>fds := (fds P2)(nfd \<mapsto> ''/dev/null'')\<rparr>
                             in if \<not> d_dup_in c then (-1, P3)
                                else (let P4 = P3\<lparr>fds := (fds P3)(0 := fds P3 nfd)\<rparr>
                                      in if \<not> d_dup_out c then (-1, P4)
                                         else (let P5 = P4\<lparr>fds := (fds P4)(1 := fds P4 nfd)\<rparr>
                                               in if nfd > 2
                                                  then (if \<not> d_close c then (-1, P5)
                                                        else (0, P5\<lparr>fds := (fds P5)(nfd := None)\<rparr>))
                                                  else (0, P5)))))))"

text \<open>
  \<open>qc_start_worker_processes\<close> with \<open>qc_spawn_process\<close>: the children a parent has started, or the
  number and the process number of the child in which the function goes on.
\<close>

datatype spawn_result = Parent "(nat \<times> int) list" | Child nat int

fun start_worker_processes :: "nat \<Rightarrow> nat \<Rightarrow> (nat \<Rightarrow> fork_result) \<Rightarrow> (nat \<times> int) list \<Rightarrow> spawn_result" where
  "start_worker_processes i 0 fork kids = Parent kids"
| "start_worker_processes i (Suc n) fork kids =
     (case fork i of
        Fork_failed \<Rightarrow> start_worker_processes (Suc i) n fork kids
      | In_parent pid \<Rightarrow> start_worker_processes (Suc i) n fork (kids @ [(i, pid)])
      | In_child pid \<Rightarrow> Child i pid)"

text \<open>The signals the master blocks while it starts its workers.\<close>

definition master_mask :: "int list" where
  "master_mask = [SIGCHLD, 14, SIGIO, SIGINT, SIGHUP, 10, 12, 28, SIGTERM, SIGQUIT]"

record worker =
  inum :: nat
  worker_mask :: "int list"
  pool_size :: int
  sock_threads :: "sock_thread list"
  listeners :: "qc_listening list"
  wserver :: server

record worker_calls =
  c_pool :: bool
  c_subproc :: "nat \<Rightarrow> bool"
  c_epoll :: bool
  c_time :: int

datatype worker_result = Exits int | Runs worker

text \<open>\<open>qc_worker_process_init\<close>; \<open>qc_epoll_init\<close> leaves the process when a call in it fails.\<close>

definition qc_worker_process_init ::
  "worker_calls \<Rightarrow> CConfItem list \<Rightarrow> nat \<Rightarrow> qc_listening list \<Rightarrow> server \<Rightarrow> worker_result option" where
  "qc_worker_process_init c items i ls s =
     bind_opt (GetIntDefault items ''ProcMsgRecvWorkThreadCount'' 5) (\<lambda>n.
       Some (if \<not> c_pool c then Exits (-2)
             else (let (ok, threads) = Initialize_subproc (c_subproc c) (sconf s)
                   in if \<not> ok then Exits (-2)
                      else (case qc_epoll_init (c_epoll c) (c_time c) ls s of
                              None \<Rightarrow> Exits 2
                            | Some (ls', s') \<Rightarrow>
                                Runs \<lparr>inum = i, worker_mask = [], pool_size = n, sock_threads = threads,
                                      listeners = ls', wserver = s'\<rparr>))))"

text \<open>\<open>qc_process_events_and_timers\<close>, and the turns of the loop in \<open>qc_worker_process_cycle\<close>.\<close>

definition qc_process_events_and_timers :: "wait_result \<times> int \<Rightarrow> server \<Rightarrow> server" where
  "qc_process_events_and_timers w s =
     snd (printTDInfo (snd w) (snd (qc_epoll_process_events (-1) (fst w) s)))"

definition qc_worker_process_cycle :: "(wait_result \<times> int) list \<Rightarrow> server \<Rightarrow> server" where
  "qc_worker_process_cycle ws s = fold qc_process_events_and_timers ws s"

section \<open>The main function\<close>

record boot =
  b_conf :: "stream option"
  b_log :: int
  b_argc :: nat
  b_argv :: "string list"
  b_environ :: "string list"
  b_sigaction :: "int \<Rightarrow> bool"
  b_ports :: "nat \<Rightarrow> port_calls"
  b_daemon :: daemon_calls
  b_fork :: "nat \<Rightarrow> fork_result"
  b_worker :: worker_calls
  b_kernel :: kernel
  b_fill :: "addr \<Rightarrow> nat \<Rightarrow> u8"
  b_junk :: "addr \<Rightarrow> STRUC_MSG_HEADER"

datatype boot_error = Hangs | Undefined

datatype main_result =
    Returned int process
  | Master_waits process "(nat \<times> int) list" "string option"
  | In_worker process worker_result

text \<open>
  \<open>qc_master_process_cycle\<close> and what follows in a child. The title of the master is the text its
  array holds, if the title is set.
\<close>

definition qc_master_process_cycle ::
  "boot \<Rightarrow> nat \<Rightarrow> CConfItem list \<Rightarrow> sock_conf \<Rightarrow> qc_listening list \<Rightarrow> kernel \<Rightarrow> process \<Rightarrow> boot_error + main_result" where
  "qc_master_process_cycle B need items cf ls K P =
     (case master_title need (b_argv B) of
        Some None \<Rightarrow> Inl Undefined
      | title \<Rightarrow>
          (case GetIntDefault items ''WorkerProcesses'' 1 of
             None \<Rightarrow> Inl Undefined
           | Some n \<Rightarrow>
               (case start_worker_processes 0 (nat n) (b_fork B) [] of
                  Parent kids \<Rightarrow> Inr (Master_waits P kids (case title of Some t \<Rightarrow> t | None \<Rightarrow> None))
                | Child i pid \<Rightarrow>
                    (case qc_worker_process_init (b_worker B) items i ls
                            (CSocket_ctor cf (empty_memory (b_fill B) (b_junk B)) K) of
                       None \<Rightarrow> Inl Undefined
                     | Some r \<Rightarrow> Inr (In_worker (P\<lparr>qc_parent := qc_pid P, qc_pid := pid\<rparr>) r)))))"

definition main :: "boot \<Rightarrow> process \<Rightarrow> boot_error + main_result" where
  "main B P =
     (case argv_mem (b_argc B) (b_environ B) of
        None \<Rightarrow> Inl Undefined
      | Some need \<Rightarrow>
          (case Load (b_conf B) [] of
             None \<Rightarrow> Inl Hangs
           | Some (Inl e) \<Rightarrow> Inl Undefined
           | Some (Inr (loaded, items)) \<Rightarrow>
               let P = open_log (b_log B) P in
               if \<not> loaded then Inr (Returned 2 (freeresource P))
               else if fst (qc_init_signals (b_sigaction B) 0 (\<lambda>_. Sig_default)
                      :: int \<times> (int \<Rightarrow> disposition) \<times> int log_call list) \<noteq> 0 then Inr (Returned 1 (freeresource P))
               else (case Initialize (b_ports B) items ctor_conf 1 (b_kernel B) of
                       None \<Rightarrow> Inl Undefined
                     | Some (ok, cf, n, ls, K) \<Rightarrow>
                         if \<not> ok then Inr (Returned 1 (freeresource P))
                         else (case GetIntDefault items ''Daemon'' 0 of
                                 None \<Rightarrow> Inl Undefined
                               | Some d \<Rightarrow>
                                   if d = 1
                                   then (let (r, P') = qc_daemon (b_daemon B) P
                                         in if r = -1 then Inr (Returned 1 (freeresource P'))
                                            else if r = 1 then Inr (Returned 0 (freeresource P'))
                                            else qc_master_process_cycle B need items cf ls K P')
                                   else qc_master_process_cycle B need items cf ls K P))))"

section \<open>The way to a worker\<close>

lemma bind_opt_Some: "bind_opt x f = Some y \<longleftrightarrow> (\<exists>z. x = Some z \<and> f z = Some y)"
  by (simp add: bind_opt_def split: option.split)

lemma ReadConf_wait: "ReadConf items cf p = Some (cf', n) \<Longrightarrow> 5 \<le> m_iWaitTime (m_timerconf cf')"
  by (auto simp: ReadConf_def bind_opt_Some)

lemma Initialize_ok:
  assumes "Initialize call items cf ports K = Some (True, cf', n, ls, K')"
  shows "ReadConf items cf ports = Some (cf', n)" and "K' = K" and "length ls = nat n"
    and "map lfd ls = map (\<lambda>i. c_socket (call i)) [0..<nat n]"
    and "\<forall>i < nat n. listen_port items i = Some (lport (ls ! i)) \<and> c_socket (call i) \<noteq> -1"
proof -
  let ?port = "\<lambda>i. case listen_port items i of Some p \<Rightarrow> p | None \<Rightarrow> 0"
  from assms have R: "ReadConf items cf ports = Some (cf', n)"
    and P: "\<forall>i < nat n. listen_port items i \<noteq> None"
    and O: "qc_open_listening_sockets call ?port (nat n) [] K = (True, ls, K')"
    by (auto simp: Initialize_def bind_opt_Some list_ex_iff split: if_splits prod.splits)
  from O have "open_ports call ?port 0 (nat n) [] K = (True, ls, K')"
    by (auto simp: qc_open_listening_sockets_def split: if_splits prod.splits)
  from open_ports_spec [OF this]
  have L: "ls = map (\<lambda>j. \<lparr>lport = ?port j, lfd = c_socket (call j), lconnection = None\<rparr>) [0..<nat n]"
    "K' = K" "\<forall>j \<in> {0..<nat n}. c_socket (call j) \<noteq> -1" by auto
  show "ReadConf items cf ports = Some (cf', n)" by (rule R)
  show "K' = K" by (rule L(2))
  show "length ls = nat n" by (simp add: L(1))
  show "map lfd ls = map (\<lambda>i. c_socket (call i)) [0..<nat n]" by (simp add: L(1))
  show "\<forall>i < nat n. listen_port items i = Some (lport (ls ! i)) \<and> c_socket (call i) \<noteq> -1"
    using P L(1,3) by (auto split: option.splits)
qed

lemma init_listeners_ports: "init_listeners now i ls s = Some (ls', s') \<Longrightarrow> map lport ls' = map lport ls"
  by (induction now i ls s arbitrary: ls' rule: init_listeners.induct)
     (auto split: prod.splits if_splits option.splits simp: Let_def)


lemma start_workers_child:
  "start_worker_processes i n fork kids = Child j pid \<Longrightarrow> i \<le> j \<and> j < i + n \<and> fork j = In_child pid"
  by (induction i n fork kids rule: start_worker_processes.induct) (auto split: fork_result.splits)

lemma master_worker:
  assumes "qc_master_process_cycle B need items cf ls K P = Inr (In_worker P' r)"
  shows "\<exists>i. qc_worker_process_init (b_worker B) items i ls
      (CSocket_ctor cf (empty_memory (b_fill B) (b_junk B)) K) = Some r"
  using assms by (auto simp: qc_master_process_cycle_def split: option.splits spawn_result.splits)

lemma main_worker:
  assumes "main B P = Inr (In_worker P' r)"
  obtains items cf n ls K i where "Load (b_conf B) [] = Some (Inr (True, items))"
    "Initialize (b_ports B) items ctor_conf 1 (b_kernel B) = Some (True, cf, n, ls, K)"
    "qc_worker_process_init (b_worker B) items i ls (CSocket_ctor cf (empty_memory (b_fill B) (b_junk B)) K) = Some r"
proof -
  from assms obtain items cf n ls K need P1 where
    "Load (b_conf B) [] = Some (Inr (True, items))"
    "Initialize (b_ports B) items ctor_conf 1 (b_kernel B) = Some (True, cf, n, ls, K)"
    "qc_master_process_cycle B need items cf ls K P1 = Inr (In_worker P' r)"
    by (auto simp: main_def Let_def split: option.splits sum.splits prod.splits if_splits)
  with master_worker [OF this(3)] that show ?thesis by blast
qed

lemma worker_init_runs:
  assumes "qc_worker_process_init c items i ls s = Some (Runs w)"
  shows "qc_epoll_init True (c_time c) ls s = Some (listeners w, wserver w)"
    and "T_TimerMonitor \<in> set (sock_threads w) \<longleftrightarrow> m_ifkickTimeCount (sconf s) = 1"
    and "GetIntDefault items ''ProcMsgRecvWorkThreadCount'' 5 = Some (pool_size w)"
  using assms
  by (auto simp: qc_worker_process_init_def bind_opt_Some Initialize_subproc_def qc_epoll_init_def
      split: if_splits option.splits prod.splits)

text \<open>The turns of the event loop, each with what \<open>epoll_wait\<close> reports.\<close>

fun cycle_fits :: "(wait_result \<times> int) list \<Rightarrow> server \<Rightarrow> bool" where
  "cycle_fits [] s \<longleftrightarrow> True"
| "cycle_fits ((w, now) # ws) s \<longleftrightarrow>
     (case w of WaitErr e \<Rightarrow> True | WaitEvents es \<Rightarrow> events_fit es s)
     \<and> cycle_fits ws (qc_process_events_and_timers (w, now) s)"

definition n_events :: "wait_result \<Rightarrow> nat" where
  "n_events w = (case w of WaitErr e \<Rightarrow> 0 | WaitEvents es \<Rightarrow> length es)"

fun cycle_events :: "(wait_result \<times> int) list \<Rightarrow> nat" where
  "cycle_events [] = 0"
| "cycle_events ((w, now) # ws) = n_events w + cycle_events ws"

lemma events_and_timers_run:
  assumes "case w of WaitErr e \<Rightarrow> True | WaitEvents es \<Rightarrow> events_fit es s"
  shows "\<exists>j \<le> 2 * n_events w. worker_run True j s (qc_process_events_and_timers (w, now) s)"
proof -
  let ?t = "snd (qc_epoll_process_events (-1) w s)"
  have "\<exists>j \<le> 2 * n_events w. worker_run True j s ?t"
    using assms events_run worker_run.stay [of True s]
    by (auto simp: qc_epoll_process_events_def n_events_def split: wait_result.splits)
  then obtain j where j: "j \<le> 2 * n_events w" "worker_run True j s ?t" by blast
  from worker_run.step [OF j(2) worker_step.statistics [of True ?t now]] j(1) show ?thesis
    by (auto simp: qc_process_events_and_timers_def)
qed

lemma cycle_run:
  "cycle_fits ws s \<Longrightarrow>
   \<exists>j \<le> 2 * cycle_events ws. worker_run True j s (qc_worker_process_cycle ws s)"
proof (induction ws arbitrary: s)
  case Nil
  show ?case using worker_run.stay by (auto simp: qc_worker_process_cycle_def)
next
  case (Cons w ws)
  obtain ev now where w: "w = (ev, now)" by (cases w)
  let ?t = "qc_process_events_and_timers w s"
  obtain i where i: "i \<le> 2 * n_events ev" "worker_run True i s ?t"
    using events_and_timers_run [where w = ev and s = s and now = now] Cons.prems by (auto simp: w)
  have "cycle_fits ws ?t" using Cons.prems by (simp add: w)
  from Cons.IH [OF this] obtain j where
    j: "j \<le> 2 * cycle_events ws" "worker_run True j ?t (qc_worker_process_cycle ws ?t)" by blast
  from worker_run_trans [OF i(2) j(2)] i(1) j(1) show ?case
    by (auto simp: w qc_worker_process_cycle_def intro!: exI [of _ "i + j"])
qed

section \<open>Properties\<close>

text \<open>
  C3. From the configuration file to the running worker: whenever the program started with a file
  reaches a worker, its configuration is the one the file states, with a waiting time of at least
  five seconds, its thread pool has the size the file gives, it listens on the ports the file names,
  and the thread that closes silent connections runs exactly if the file asks for it. In every
  state the worker reaches from there, unless one of the two defective \<open>EPOLLOUT\<close> events came
  before, the configuration is still that, no memory fault has happened, and the users are within
  the limit of the file.
\<close>

theorem configured_worker_safe:
  assumes "main B P = Inr (In_worker P' (Runs w))"
    and "inj_on (\<lambda>i. c_socket (b_ports B i)) {..<length (listeners w)}"
    and "worker_run d k (wserver w) t" and "2 * length (listeners w) + k < 2 ^ 64"
  shows "\<exists>items cf n. Load (b_conf B) [] = Some (Inr (True, items)) \<and> ReadConf items ctor_conf 1 = Some (cf, n)
    \<and> sconf (wserver w) = cf \<and> 5 \<le> m_iWaitTime (m_timerconf cf)
    \<and> GetIntDefault items ''ProcMsgRecvWorkThreadCount'' 5 = Some (pool_size w)
    \<and> length (listeners w) = nat n \<and> (\<forall>i < nat n. listen_port items i = Some (lport (listeners w ! i)))
    \<and> (T_TimerMonitor \<in> set (sock_threads w) \<longleftrightarrow> m_ifkickTimeCount cf = 1)
    \<and> (sconf t = cf \<and> mem_faults (smem t) = [] \<and> m_onlineUserCount (spool t) \<le> max 0 (m_worker_connections cf)
       \<or> d \<and> after_defect (wserver w) t)"
proof -
  from main_worker [OF assms(1)] obtain items cf n ls K i where
    L: "Load (b_conf B) [] = Some (Inr (True, items))"
    and I: "Initialize (b_ports B) items ctor_conf 1 (b_kernel B) = Some (True, cf, n, ls, K)"
    and W: "qc_worker_process_init (b_worker B) items i ls
              (CSocket_ctor cf (empty_memory (b_fill B) (b_junk B)) K) = Some (Runs w)" by blast
  note I = Initialize_ok [OF I]
  note E = worker_init_runs [OF W]
  have ports: "map lport (listeners w) = map lport ls"
    using E(1) init_listeners_ports by (auto simp: qc_epoll_init_def)
  have len: "length (listeners w) = length ls" using ports by (metis length_map)
  have "inj_on (\<lambda>i. c_socket (b_ports B i)) {0..<nat n}" using assms(2) len I(3) by (simp add: lessThan_atLeast0)
  then have "distinct (map lfd ls)" by (simp add: I(4) distinct_map)
  moreover have "-1 \<notin> set (map lfd ls)" using I(5) by (auto simp: I(4))
  ultimately have S: "started cf (b_fill B) (b_junk B) K (c_time (b_worker B)) ls = Some (listeners w, wserver w)"
    using E(1) ReadConf_wait [OF I(1)] by (simp add: started_def)
  have cf: "sconf (wserver w) = cf" by (rule started_spec(6) [OF S])
  have "inv_step (2 * length ls) k (wserver w) t \<or> d \<and> after_defect (wserver w) t"
    using run_inv_or_defect [OF S assms(3)] assms(4) len by simp
  then have safe: "sconf t = cf \<and> mem_faults (smem t) = [] \<and> m_onlineUserCount (spool t) \<le> max 0 (m_worker_connections cf)
      \<or> d \<and> after_defect (wserver w) t"
    by (auto simp: inv_step_def worker_inv_def acct_def cf)
  have "listen_port items j = Some (lport (listeners w ! j))" if "j < nat n" for j
    using I(3,5) that ports len by (metis nth_map)
  with L I(1) ReadConf_wait [OF I(1)] len I(3) E(2,3) cf safe show ?thesis
    by (intro exI [of _ items] exI [of _ cf] exI [of _ n]) (auto simp: CSocket_ctor_def)
qed

text \<open>
  A process in which \<open>qc_daemon\<close> returns 0 is a new child of the one that called it, leads a
  session of its own, has its standard input and output on the null device, and no other descriptor
  opened or closed; the caller returns 1 unchanged. When it returns -1 the process is still the
  caller (no child was made) or the child, and \<open>main\<close> ends it with code 1.
\<close>

theorem daemon_detaches:
  assumes "d_open c = -1 \<or> 0 \<le> d_open c \<and> fds P (d_open c) = None"
  shows "case qc_daemon c P of (r, P') \<Rightarrow> r \<in> {-1, 0, 1}
    \<and> (r = 1 \<longleftrightarrow> (\<exists>pid. d_fork c = In_parent pid)) \<and> (r = 1 \<longrightarrow> P' = P)
    \<and> (r = 0 \<longrightarrow> d_fork c = In_child (qc_pid P') \<and> qc_parent P' = qc_pid P \<and> own_session P' \<and> file_mask P' = 0
         \<and> fds P' 0 = Some ''/dev/null'' \<and> fds P' 1 = Some ''/dev/null''
         \<and> (\<forall>k. k \<notin> {0, 1} \<longrightarrow> k = 2 \<and> d_open c = 2 \<or> fds P' k = fds P k))
    \<and> (r = -1 \<longrightarrow> P' = P \<or> d_fork c = In_child (qc_pid P'))"
  using assms by (auto simp: qc_daemon_def Let_def split: fork_result.split)











section \<open>A start\<close>

definition demo_boot :: boot where
  "demo_boot = \<lparr>b_conf = Some \<lparr>content = ''ListenPort0=80'', eof = False, io_error = False\<rparr>, b_log = 3, b_argc = 0,
     b_argv = [], b_environ = [], b_sigaction = (\<lambda>_. True),
     b_ports = (\<lambda>i. \<lparr>c_socket = 5, c_reuseaddr = True, c_reuseport = True, c_nonblock = True, c_bind = True, c_listen = True\<rparr>),
     b_daemon = \<lparr>d_fork = In_child 9, d_setsid = True, d_open = 4, d_dup_in = True, d_dup_out = True, d_close = True\<rparr>,
     b_fork = (\<lambda>i. In_child 7),
     b_worker = \<lparr>c_pool = True, c_subproc = (\<lambda>_. True), c_epoll = True, c_time = 0\<rparr>,
     b_kernel = quiet_kernel, b_fill = (\<lambda>_ _. 0), b_junk = (\<lambda>_. \<lparr>pConn = 0, iCurrsequence = 0\<rparr>)\<rparr>"

definition demo_process :: process where
  "demo_process = \<lparr>qc_pid = 1, qc_parent = 0, fds = [0 \<mapsto> ''tty'', 1 \<mapsto> ''tty'', 2 \<mapsto> ''tty''], own_session = False,
     file_mask = 18, qlog_fd = -1\<rparr>"

lemma demo_items:
  obtains items where "Load (b_conf demo_boot) [] = Some (Inr (True, items))"
    "\<And>k d. NUL \<notin> set k \<Longrightarrow> GetIntDefault items k d =
       (if map to_lower k = map to_lower ''ListenPort0'' then Some 80 else Some d)"
proof -
  have s: "split_lines ''ListenPort0=80'' = [''ListenPort0=80'']" by simp
  have "\<forall>l \<in> set (split_lines ''ListenPort0=80''). line_ok l"
    by (simp add: line_ok_def item_line_def is_comment_def raw_name_def)
  moreover have "spec_file ''ListenPort0=80'' = [(''ListenPort0'', ''80'')]"
    by (simp add: spec_file_def spec_line_def item_line_def is_comment_def raw_name_def rtrim_def
        ltrim_def strip_def line_end_def)
  ultimately obtain items where
    "Load_loop \<lparr>content = ''ListenPort0=80'', eof = False, io_error = False\<rparr> [] = Some (Inr items)"
    "map item_of items = [(''ListenPort0'', ''80'')]"
    using Load_loop_spec [of "\<lparr>content = ''ListenPort0=80'', eof = False, io_error = False\<rparr>" "[]"] by auto
  moreover have "atoi ''80'' = Some 80" by (simp add: atoi_def c_string_def isspace_def)
  ultimately show ?thesis
    by (intro that [of items]) (auto simp: Load_def demo_boot_def GetIntDefault_lookup lookup_def)
qed

lemma demo_main:
  obtains P' w where "main demo_boot demo_process = Inr (In_worker P' (Runs w))"
    "listeners w = [\<lparr>lport = 80, lfd = 5, lconnection = Some 0\<rparr>]" "demo_start = Some (listeners w, wserver w)"
proof (rule demo_items)
  fix items
  assume L: "Load (b_conf demo_boot) [] = Some (Inr (True, items))"
    and G: "\<And>k d. NUL \<notin> set k \<Longrightarrow> GetIntDefault items k d =
       (if map to_lower k = map to_lower ''ListenPort0'' then Some 80 else Some d)"
  have other: "GetIntDefault items k d = Some d" if "NUL \<notin> set k" "length k \<noteq> 11" for k d
  proof -
    have "map to_lower k \<noteq> map to_lower ''ListenPort0''" using that(2) by (auto dest: arg_cong [where f = length])
    with G [OF that(1), of d] show ?thesis by simp
  qed
  have R: "ReadConf items ctor_conf 1 = Some (default_conf, 1)"
    by (simp add: ReadConf_def bind_opt_def other ctor_conf_def default_conf_def)
  have P0: "listen_port items 0 = Some 80"
    using G [of "''ListenPort0''" 10000] decimal_zero by (simp add: listen_port_def)
  have I: "Initialize (b_ports demo_boot) items ctor_conf 1 (b_kernel demo_boot) =
      Some (True, default_conf, 1, demo_ls, quiet_kernel)"
    by (simp add: Initialize_def bind_opt_def R P0 qc_open_listening_sockets_def demo_boot_def setnonblocking_ok demo_ls_def)
  obtain s where s: "demo_start = Some ([\<lparr>lport = 80, lfd = 5, lconnection = Some 0\<rparr>], s)"
    by (rule demo_start_facts) blast
  then have E: "qc_epoll_init True 0 demo_ls (CSocket_ctor default_conf
      (empty_memory (\<lambda>_ _. 0) (\<lambda>_. \<lparr>pConn = 0, iCurrsequence = 0\<rparr>)) quiet_kernel) =
      Some ([\<lparr>lport = 80, lfd = 5, lconnection = Some 0\<rparr>], s)"
    by (simp add: demo_start_def started_def split: if_splits)
  let ?w = "\<lparr>inum = 0, worker_mask = [], pool_size = 5, sock_threads = [T_SendQueue, T_RecyConnection],
    listeners = [\<lparr>lport = 80, lfd = 5, lconnection = Some 0\<rparr>], wserver = s\<rparr>"
  have W: "qc_worker_process_init (b_worker demo_boot) items 0 demo_ls (CSocket_ctor default_conf
      (empty_memory (b_fill demo_boot) (b_junk demo_boot)) quiet_kernel) = Some (Runs ?w)"
    by (simp add: qc_worker_process_init_def bind_opt_def other demo_boot_def Initialize_subproc_def E)
       (simp add: CSocket_ctor_def default_conf_def)
  have T: "master_title 0 (b_argv demo_boot) = Some (Some ''master process '')"
    and F: "b_fork demo_boot 0 = In_child 7"
    by (simp_all add: demo_boot_def master_title_def)
  have M: "qc_master_process_cycle demo_boot 0 items default_conf demo_ls quiet_kernel P =
      Inr (In_worker (P\<lparr>qc_parent := qc_pid P, qc_pid := 7\<rparr>) (Runs ?w))" for P
    by (simp add: qc_master_process_cycle_def T F W other)
  have "fst (qc_init_signals (b_sigaction demo_boot) 0 (\<lambda>_. Sig_default) :: int \<times> (int \<Rightarrow> disposition) \<times> int log_call list) = 0"
    by (simp add: demo_boot_def qc_init_signals_def signals_def)
  moreover have "argv_mem (b_argc demo_boot) (b_environ demo_boot) = Some 0" by (simp add: demo_boot_def)
  ultimately have "\<exists>P'. main demo_boot demo_process = Inr (In_worker P' (Runs ?w))"
    unfolding main_def by (simp add: L I other M Let_def)
  then show thesis using that [of _ ?w] s by auto
qed

theorem configured_worker_safe_witness:
  "\<exists>P' w. main demo_boot demo_process = Inr (In_worker P' (Runs w)) \<and> mem_faults (smem (wserver w)) = []
     \<and> (\<exists>items cf n. ReadConf items ctor_conf 1 = Some (cf, n) \<and> 5 \<le> m_iWaitTime (m_timerconf cf)
          \<and> length (listeners w) = nat n)"
proof (rule demo_main)
  fix P' w
  assume w: "main demo_boot demo_process = Inr (In_worker P' (Runs w))"
    "listeners w = [\<lparr>lport = 80, lfd = 5, lconnection = Some 0\<rparr>]"
  have "inj_on (\<lambda>i. c_socket (b_ports demo_boot i)) {..<length (listeners w)}" by (simp add: w(2) inj_on_def)
  moreover have "2 * length (listeners w) + 0 < 2 ^ 64" by (simp add: w(2))
  ultimately obtain items cf n where "ReadConf items ctor_conf 1 = Some (cf, n)" "5 \<le> m_iWaitTime (m_timerconf cf)"
    "length (listeners w) = nat n" "mem_faults (smem (wserver w)) = []"
    using configured_worker_safe [OF w(1) _ worker_run.stay [of False]] by blast
  with w(1) show ?thesis by blast
qed

theorem daemon_detaches_witness:
  "case qc_daemon (b_daemon demo_boot) demo_process of (r, P') \<Rightarrow>
     qc_pid P' = 9 \<and> qc_parent P' = 1 \<and> fds P' 1 = Some ''/dev/null'' \<and> fds P' 2 = Some ''tty''"
proof -
  have c: "d_open (b_daemon demo_boot) = -1 \<or> 0 \<le> d_open (b_daemon demo_boot)
      \<and> fds demo_process (d_open (b_daemon demo_boot)) = None"
    by (simp add: demo_boot_def demo_process_def)
  have "fst (qc_daemon (b_daemon demo_boot) demo_process) = 0" by (simp add: demo_boot_def qc_daemon_def Let_def)
  then obtain P' where q: "qc_daemon (b_daemon demo_boot) demo_process = (0, P')"
    by (cases "qc_daemon (b_daemon demo_boot) demo_process") simp
  from daemon_detaches [OF c] q have d: "In_child 9 = In_child (qc_pid P')" "qc_parent P' = 1" "fds P' 1 = Some ''/dev/null''"
    "\<forall>k. k \<notin> {0, 1} \<longrightarrow> k = 2 \<and> d_open (b_daemon demo_boot) = 2 \<or> fds P' k = fds demo_process k"
    by (simp_all add: demo_boot_def demo_process_def)
  from d(4) have "fds P' 2 = Some ''tty''" by (auto simp: demo_boot_def demo_process_def dest: spec [of _ 2])
  with d q show ?thesis by simp
qed


end
