(* ===== verification/QcShutdown.thy ===== *)
theory QcShutdown
  imports QcStartup
begin

text \<open>
  The end of a worker, behind its endless loop: \<open>Shutdown_subproc\<close> (theory QcServer) once all
  threads are joined, and the queue of messages the destructor of the thread pool clears. The
  clean-ups release every buffer of a queue exactly once; they rest on the locale
  \<open>memory_manager\<close> (theory QcMemory).
\<close>

abbreviation release_all :: "addr list \<Rightarrow> memory \<Rightarrow> memory" where
  "release_all \<equiv> fold (\<lambda>a. FreeMemory (Some a))"

lemma clear_queue_fold: "clear_queue as m = release_all as m"
  by (induction as m rule: clear_queue.induct) simp_all

lemma clearMsgRecvQueue_fold: "clearMsgRecvQueue as free h = ([], fold free as h)"
  by (induction as free h rule: clearMsgRecvQueue.induct) simp_all

lemma three_of_four:
  "distinct (as @ bs @ cs @ ds) \<Longrightarrow> (set as \<union> set bs \<union> set cs \<union> set ds) - (set as \<union> set cs) - set bs = set ds"
  by auto

lemma Shutdown_eq:
  "smem (Shutdown_subproc s) = release_all (m_MsgSendQueue s @ timer_addrs (stimer s)) (smem s)"
  "m_MsgSendQueue (Shutdown_subproc s) = []" "m_MsgRecvQueue (Shutdown_subproc s) = m_MsgRecvQueue s"
  "m_timerQueuemap (stimer (Shutdown_subproc s)) = []"
  "m_cur_size (stimer (Shutdown_subproc s)) = m_cur_size (stimer s) - length (m_timerQueuemap (stimer s))"
  "m_connectionList (spool (Shutdown_subproc s)) = []"
  by (simp_all add: Shutdown_subproc_def clearMsgSendQueue_def clearAllFromTimerQueue_def clearconnection_def
      clear_queue_fold Let_def timer_addrs_def)

text \<open>
  C35. Taking a worker down releases every message in the two queues and every entry of the timer
  queue exactly once, without a fault, and leaves the counters right; but the buffers that the
  connection objects hold (a packet received in part, or one sent in part) are lost with them:
  \<open>clearconnection\<close> frees the objects only. (Unless one of the two defective \<open>EPOLLOUT\<close> events
  came before.)
\<close>

theorem shutdown_loses_connection_buffers:
  assumes "started cf fill junk K now ls = Some (ls', s)" and "worker_run d n s t"
    and "2 * length ls + n < 2 ^ 64"
    and "u = Shutdown_subproc t"
    and "(rest, m) = clearMsgRecvQueue (m_MsgRecvQueue u) (\<lambda>a. FreeMemory (Some a)) (smem u)"
  shows "m_MsgSendQueue u = [] \<and> rest = [] \<and> m_timerQueuemap (stimer u) = [] \<and> m_cur_size (stimer u) = 0
    \<and> m_connectionList (spool u) = [] \<and> mem_faults m = []
    \<and> live (smem u) = set (m_MsgRecvQueue t) \<union> live m
    \<and> live m = (\<Union>p \<in> set (m_connectionList (spool t)). set (conn_bufs (cn t p)))
    \<or> d \<and> after_defect s t"
  using run_inv_or_defect [OF assms(1-3)]
proof
  assume I: "inv_step (2 * length ls) n s t"
  let ?q = "m_MsgSendQueue t @ timer_addrs (stimer t)"
  have A: "acct {#} t" using I by (simp add: inv_step_def worker_inv_def)
  note P = acct_places [OF A]
  have d: "distinct ?q" "set ?q \<subseteq> live (smem t)" using P by auto
  have u: "live (smem u) = live (smem t) - set ?q" "mem_faults (smem u) = []"
    unfolding assms(4) Shutdown_eq cmem.free_all_lv [OF d] cmem.free_all_flt [OF d] using A by (simp_all add: acct_def)
  have r: "distinct (m_MsgRecvQueue t)" "set (m_MsgRecvQueue t) \<subseteq> live (smem u)" using P unfolding u by auto
  have m: "rest = []" "m = release_all (m_MsgRecvQueue t) (smem u)"
    using assms(5) by (simp_all add: assms(4) Shutdown_eq clearMsgRecvQueue_fold)
  have "live m = live (smem u) - set (m_MsgRecvQueue t)" "mem_faults m = []"
    unfolding m cmem.free_all_lv [OF r] cmem.free_all_flt [OF r] by (simp_all add: u)
  moreover have "live (smem t) - set ?q - set (m_MsgRecvQueue t) = (\<Union>p \<in> set (m_connectionList (spool t)). set (conn_bufs (cn t p)))"
    using three_of_four [OF P(1)] P(2) by simp
  moreover have "m_cur_size (stimer t) = length (m_timerQueuemap (stimer t))" using A by (simp add: acct_def timer_wf_def)
  moreover have "m_MsgSendQueue u = []" "m_timerQueuemap (stimer u) = []" "m_connectionList (spool u) = []"
    "m_cur_size (stimer u) = m_cur_size (stimer t) - length (m_timerQueuemap (stimer t))"
    by (simp_all add: assms(4) Shutdown_eq)
  ultimately show ?thesis using m(1) r(2) u(1) by (intro disjI1 conjI) (simp_all, blast+)
qed blast

theorem shutdown_loses_connection_buffers_witness:
  "\<exists>ls s t. demo_start = Some (ls, s) \<and> worker_run False 2 s t \<and> 1 \<in> in_use (spool t)
     \<and> m_connectionList (spool (Shutdown_subproc t)) = []
     \<and> (\<Union>p \<in> set (m_connectionList (spool t)). set (conn_bufs (cn t p))) \<subseteq> live (smem (Shutdown_subproc t))"
proof (rule demo_run)
  fix s u
  assume s: "demo_start = Some ([\<lparr>lport = 80, lfd = 5, lconnection = Some 0\<rparr>], s)" "worker_run False 2 s u"
    "1 \<in> in_use (spool u)"
  have "2 * length demo_ls + 2 < 2 ^ 64" by (simp add: demo_ls_def)
  note W = shutdown_loses_connection_buffers [OF s(1) [unfolded demo_start_def] s(2) this refl prod.collapse,
      unfolded simp_thms]
  have 1: "m_connectionList (spool (Shutdown_subproc u)) = []" using W by (elim conjE)
  have 2: "(\<Union>p \<in> set (m_connectionList (spool u)). set (conn_bufs (cn u p))) \<subseteq> live (smem (Shutdown_subproc u))"
    using W by (elim conjE) (simp only: Un_upper2)
  show ?thesis by (intro exI conjI) (rule s 1 2)+
qed

end
