(* ===== verification/QcTaskPool.thy ===== *)
theory QcTaskPool
  imports QcPrelude
begin

text \<open>
  The template of a task pool in include/thread\_pool.h, a component of its own. Its mutex guards
  every access to the queue, so a step is a whole critical section of a thread, of \<open>submitTask\<close> or
  of the destructor, or what a thread does outside of it. Tasks are values; \<open>submitted\<close>, \<open>taken\<close>,
  \<open>executed\<close> and \<open>refused\<close> record history. The \<open>int\<close>s of the class are 32-bit words, compared as
  signed numbers: \<open>currentTaskSize\<close> is only ever counted up, so it wraps in the end. Creating a
  thread does not fail.
\<close>

section \<open>State\<close>

type_synonym i32 = "32 word"

datatype PoolMode = MODE_FIXED | MODE_CACHED

text \<open>
  Where a thread is in \<open>threadFunc\<close>: not created, about to take the mutex, in a wait for
  \<open>notEmpty_\<close>, with a task, behind it, returned.
\<close>

datatype 'm task_pc = L_none | L_lock | L_wait | L_run 'm | L_spare | L_done

text \<open>
  Where the destructor is: not called, at its mutex with the flag cleared, in the wait for
  \<open>exitCond_\<close>, woken, returned.
\<close>

datatype dtor_pc = D_none | D_lock | D_wait | D_check | D_done

record 'm taskpool =
  thread_list :: "nat set"
  currentThreadSize :: i32
  spareThreadSize :: i32
  MaxThreadSize :: i32
  initThreadSize :: i32
  TaskQueue :: "'m list"
  currentTaskSize :: i32
  MaxTaskSize :: i32
  poolMode :: PoolMode
  isPoolRunning :: bool
  generaID :: nat
  task_pc :: "nat \<Rightarrow> 'm task_pc"
  dtor_pc :: dtor_pc
  submitted :: "'m list"
  taken_tasks :: "'m list"
  executed :: "'m list"
  refused :: "'m list"

definition THREAD_MAX_THRESHHOLD :: i32 where "THREAD_MAX_THRESHHOLD = 1024"
definition TASK_MAX_THRESHHOLD :: i32 where "TASK_MAX_THRESHHOLD = 0x7FFFFFFF"

text \<open>A new pool, when \<open>g\<close> threads have been created in the process before.\<close>

definition ThreadPool_ctor :: "nat \<Rightarrow> 'm taskpool" where
  "ThreadPool_ctor g = \<lparr>thread_list = {}, currentThreadSize = 0, spareThreadSize = 0,
     MaxThreadSize = THREAD_MAX_THRESHHOLD, initThreadSize = 0, TaskQueue = [], currentTaskSize = 0,
     MaxTaskSize = TASK_MAX_THRESHHOLD, poolMode = MODE_FIXED, isPoolRunning = False, generaID = g,
     task_pc = (\<lambda>_. L_none), dtor_pc = D_none, submitted = [], taken_tasks = [], executed = [], refused = []\<rparr>"

definition setMode :: "PoolMode \<Rightarrow> 'm taskpool \<Rightarrow> 'm taskpool" where
  "setMode mode s = s\<lparr>poolMode := mode\<rparr>"

definition setTaskQueMaxThreshHold :: "i32 \<Rightarrow> 'm taskpool \<Rightarrow> 'm taskpool" where
  "setTaskQueMaxThreshHold t s = s\<lparr>MaxTaskSize := t\<rparr>"

definition setThreadSizeThreshHold :: "i32 \<Rightarrow> 'm taskpool \<Rightarrow> 'm taskpool" where
  "setThreadSizeThreshHold t s = s\<lparr>MaxThreadSize := t\<rparr>"

definition goto :: "nat \<Rightarrow> 'm task_pc \<Rightarrow> 'm taskpool \<Rightarrow> 'm taskpool" where
  "goto i pc s = s\<lparr>task_pc := (task_pc s)(i := pc)\<rparr>"

section \<open>The code\<close>

text \<open>\<open>start\<close>: new threads get the next numbers; then the entries 0, 1, ... are started.\<close>

fun create_threads :: "nat \<Rightarrow> 'm taskpool \<Rightarrow> 'm taskpool" where
  "create_threads 0 s = s"
| "create_threads (Suc n) s =
     create_threads n (s\<lparr>thread_list := insert (generaID s) (thread_list s), generaID := Suc (generaID s)\<rparr>)"

text \<open>\<open>None\<close>: \<open>thread_list[i]\<close> made a null entry, and \<open>start\<close> was called on it.\<close>

fun start_threads :: "nat \<Rightarrow> nat \<Rightarrow> 'm taskpool \<Rightarrow> 'm taskpool option" where
  "start_threads i 0 s = Some s"
| "start_threads i (Suc n) s =
     (if i \<in> thread_list s
      then start_threads (Suc i) n (goto i L_lock (s\<lparr>spareThreadSize := spareThreadSize s + 1\<rparr>))
      else None)"

definition start :: "i32 \<Rightarrow> 'm taskpool \<Rightarrow> 'm taskpool option" where
  "start threadsize s =
     (let s1 = create_threads (nat (min (sint threadsize) (sint (MaxThreadSize s))))
                 (s\<lparr>isPoolRunning := True, initThreadSize := threadsize, currentThreadSize := threadsize\<rparr>)
      in start_threads 0 (card (thread_list s1)) s1)"

definition notify_notEmpty :: "'m taskpool \<Rightarrow> 'm taskpool" where
  "notify_notEmpty s = s\<lparr>task_pc := (\<lambda>i. if task_pc s i = L_wait then L_lock else task_pc s i)\<rparr>"

definition notify_exit :: "'m taskpool \<Rightarrow> 'm taskpool" where
  "notify_exit s = s\<lparr>dtor_pc := (if dtor_pc s = D_wait then D_check else dtor_pc s)\<rparr>"

text \<open>A thread with the mutex, at the test of the inner \<open>while\<close>.\<close>

definition thread_section :: "nat \<Rightarrow> 'm taskpool \<Rightarrow> 'm taskpool" where
  "thread_section i s =
     (case TaskQueue s of
        [] \<Rightarrow>
          if \<not> isPoolRunning s
          then goto i L_done (notify_exit (s\<lparr>thread_list := thread_list s - {i}\<rparr>))
          else goto i L_wait s
      | task # rest \<Rightarrow>
          (let s1 = s\<lparr>currentThreadSize := currentThreadSize s - 1, TaskQueue := rest,
                      spareThreadSize := spareThreadSize s - 1, taken_tasks := taken_tasks s @ [task]\<rparr>;
               s2 = (if 0 < length rest then notify_notEmpty s1 else s1)
           in goto i (L_run task) s2))"

text \<open>A wait of \<open>MODE_CACHED\<close> that timed out; \<open>idle\<close>: the last task was done over a minute ago.\<close>

definition retires :: "bool \<Rightarrow> 'm taskpool \<Rightarrow> bool" where
  "retires idle s \<longleftrightarrow> idle \<and> sint (currentThreadSize s) > sint (initThreadSize s)
     \<and> sint (currentThreadSize s) > sint (currentTaskSize s)"

definition thread_timeout :: "bool \<Rightarrow> nat \<Rightarrow> 'm taskpool \<Rightarrow> 'm taskpool" where
  "thread_timeout idle i s =
     (if retires idle s
      then goto i L_done (s\<lparr>thread_list := thread_list s - {i}, currentThreadSize := currentThreadSize s - 1,
             spareThreadSize := spareThreadSize s - 1\<rparr>)
      else thread_section i s)"

text \<open>The comparison of the queue's size with \<open>MaxTaskSize\<close> is one of \<open>size_t\<close>.\<close>

definition not_full :: "'m taskpool \<Rightarrow> bool" where
  "not_full s \<longleftrightarrow> length (TaskQueue s) < unat (scast (MaxTaskSize s) :: 64 word)"

definition submitTask :: "'m \<Rightarrow> 'm taskpool \<Rightarrow> 'm taskpool" where
  "submitTask task s =
     (let s1 = notify_notEmpty (s\<lparr>TaskQueue := TaskQueue s @ [task], currentTaskSize := currentTaskSize s + 1,
                                 submitted := submitted s @ [task]\<rparr>)
      in if poolMode s1 = MODE_CACHED \<and> sint (spareThreadSize s1) < sint (currentTaskSize s1)
            \<and> sint (currentThreadSize s1) < sint (MaxThreadSize s1)
         then goto (generaID s1) L_lock
                (s1\<lparr>thread_list := insert (generaID s1) (thread_list s1), generaID := Suc (generaID s1),
                    spareThreadSize := spareThreadSize s1 + 1, currentThreadSize := currentThreadSize s1 + 1\<rparr>)
         else s1)"

text \<open>
  The steps. Waiting on a condition variable may end for no reason. A submission that times out
  answers with a default value. The owner submits nothing once it has called the destructor.
\<close>

inductive lp_step :: "'m taskpool \<Rightarrow> 'm taskpool \<Rightarrow> bool" where
  lock: "task_pc s i = L_lock \<Longrightarrow> lp_step s (thread_section i s)"
| woken: "task_pc s i = L_wait \<Longrightarrow> lp_step s (goto i L_lock s)"
| timed_out: "task_pc s i = L_wait \<Longrightarrow> poolMode s = MODE_CACHED \<Longrightarrow> lp_step s (thread_timeout idle i s)"
| run: "task_pc s i = L_run task \<Longrightarrow> lp_step s (goto i L_spare (s\<lparr>executed := executed s @ [task]\<rparr>))"
| spare: "task_pc s i = L_spare \<Longrightarrow> lp_step s (goto i L_lock (s\<lparr>spareThreadSize := spareThreadSize s + 1\<rparr>))"
| submit: "dtor_pc s = D_none \<Longrightarrow> not_full s \<Longrightarrow> lp_step s (submitTask task s)"
| refuse: "dtor_pc s = D_none \<Longrightarrow> \<not> not_full s \<Longrightarrow> lp_step s (s\<lparr>refused := refused s @ [task]\<rparr>)"
| dtor_flag: "dtor_pc s = D_none \<Longrightarrow> lp_step s (s\<lparr>isPoolRunning := False, dtor_pc := D_lock\<rparr>)"
| dtor_notify: "dtor_pc s = D_lock \<Longrightarrow>
    lp_step s ((notify_notEmpty s)\<lparr>dtor_pc := (if card (thread_list s) = 0 then D_done else D_wait)\<rparr>)"
| dtor_check: "dtor_pc s = D_check \<Longrightarrow>
    lp_step s (s\<lparr>dtor_pc := (if card (thread_list s) = 0 then D_done else D_wait)\<rparr>)"

inductive_cases lp_stepE: "lp_step s t"

section \<open>The invariant\<close>

definition busy :: "'m task_pc \<Rightarrow> bool" where
  "busy pc \<longleftrightarrow> (\<exists>m. pc = L_run m) \<or> pc = L_spare"

primrec task_of :: "'m task_pc \<Rightarrow> 'm list" where
  "task_of L_none = []" | "task_of L_lock = []" | "task_of L_wait = []" | "task_of (L_run m) = [m]"
| "task_of L_spare = []" | "task_of L_done = []"

definition in_hand :: "nat set \<Rightarrow> (nat \<Rightarrow> 'm task_pc) \<Rightarrow> 'm multiset" where
  "in_hand A g = (\<Sum>i \<in> A. mset (task_of (g i)))"

definition n_busy :: "nat set \<Rightarrow> (nat \<Rightarrow> 'm task_pc) \<Rightarrow> nat" where
  "n_busy A g = (\<Sum>i \<in> A. if busy (g i) then 1 else 0)"

text \<open>The threads in the list are those that run, and none waits once the destructor has called them.\<close>

definition threads_ok :: "'m taskpool \<Rightarrow> bool" where
  "threads_ok s \<longleftrightarrow> finite (thread_list s) \<and> (\<forall>i \<in> thread_list s. i < generaID s)
     \<and> (\<forall>i. i \<in> thread_list s \<longleftrightarrow> task_pc s i \<noteq> L_none \<and> task_pc s i \<noteq> L_done)
     \<and> (dtor_pc s \<noteq> D_none \<longrightarrow> dtor_pc s \<noteq> D_lock \<longrightarrow> (\<forall>i. task_pc s i \<noteq> L_wait))"

definition tasks_ok :: "'m taskpool \<Rightarrow> bool" where
  "tasks_ok s \<longleftrightarrow> submitted s = taken_tasks s @ TaskQueue s
     \<and> mset (taken_tasks s) = mset (executed s) + in_hand (thread_list s) (task_pc s)
     \<and> currentTaskSize s = of_nat (length (submitted s))"

text \<open>
  As long as a thread cannot have left, the counter of threads is their number less the number of
  tasks ever taken, and the spare threads are those without a task, both modulo \<open>2 ^ 32\<close>.
\<close>

definition counters_ok :: "'m taskpool \<Rightarrow> bool" where
  "counters_ok s \<longleftrightarrow> (isPoolRunning s \<longleftrightarrow> dtor_pc s = D_none)
     \<and> (isPoolRunning s \<or> TaskQueue s \<noteq> [] \<longrightarrow>
          currentThreadSize s = of_nat (card (thread_list s)) - of_nat (length (taken_tasks s))
          \<and> spareThreadSize s = of_nat (card (thread_list s)) - of_nat (n_busy (thread_list s) (task_pc s))
          \<and> n_busy (thread_list s) (task_pc s) \<le> length (taken_tasks s))"

text \<open>
  Before a counter can wrap: the counter of threads passes neither the number of threads at the
  start nor the number of tasks, so no thread retires and one is always left for the queue.
\<close>

definition in_range :: "'m taskpool \<Rightarrow> bool" where
  "in_range s \<longleftrightarrow> sint (initThreadSize s) + int (length (submitted s)) < 2 ^ 31"

definition bound_ok :: "'m taskpool \<Rightarrow> bool" where
  "bound_ok s \<longleftrightarrow> 0 \<le> sint (initThreadSize s) \<and> (in_range s \<longrightarrow>
     sint (currentThreadSize s) \<le> max (sint (initThreadSize s)) (int (length (submitted s)))
     \<and> (isPoolRunning s \<or> TaskQueue s \<noteq> [] \<longrightarrow> thread_list s \<noteq> {}
          \<and> int (card (thread_list s)) \<le> sint (initThreadSize s) + int (length (submitted s))))"

definition dtor_ok :: "'m taskpool \<Rightarrow> bool" where
  "dtor_ok s \<longleftrightarrow> (dtor_pc s = D_wait \<longrightarrow> thread_list s \<noteq> {}) \<and> (dtor_pc s = D_done \<longrightarrow> thread_list s = {})"

definition task_inv :: "'m taskpool \<Rightarrow> bool" where
  "task_inv s \<longleftrightarrow> threads_ok s \<and> tasks_ok s \<and> counters_ok s \<and> bound_ok s \<and> dtor_ok s"

section \<open>Counters before they wrap\<close>

lemma sint_i32: "- (2 ^ 31) \<le> x \<Longrightarrow> x < 2 ^ 31 \<Longrightarrow> sint (word_of_int x :: i32) = x"
  by (simp add: sint_sbintrunc' signed_take_bit_int_eq_self)

lemma sint_diff:
  "c < 2 ^ 31 \<Longrightarrow> t \<le> 2 ^ 31 \<Longrightarrow> sint (of_nat c - of_nat t :: i32) = int c - int t"
  using sint_i32 [of "int c - int t"] by simp

lemma sint_nat: "n < 2 ^ 31 \<Longrightarrow> sint (of_nat n :: i32) = int n"
  using sint_diff [of n 0] by simp

section \<open>Sums over the threads\<close>

lemma in_hand_upd:
  "finite A \<Longrightarrow> i \<in> A \<Longrightarrow> in_hand A (g(i := pc)) + mset (task_of (g i)) = in_hand A g + mset (task_of (pc))"
  "finite A \<Longrightarrow> i \<notin> A \<Longrightarrow> in_hand (insert i A) (g(i := pc)) = in_hand A g + mset (task_of (pc))"
  "finite A \<Longrightarrow> i \<in> A \<Longrightarrow> in_hand (A - {i}) (g(i := pc)) + mset (task_of (g i)) = in_hand A g"
  unfolding in_hand_def by (rule sum_fun_upd; assumption)+

lemma n_busy_upd:
  "finite A \<Longrightarrow> i \<in> A \<Longrightarrow> n_busy A (g(i := pc)) + (if busy (g i) then 1 else 0) = n_busy A g + (if busy (pc) then 1 else 0)"
  "finite A \<Longrightarrow> i \<notin> A \<Longrightarrow> n_busy (insert i A) (g(i := pc)) = n_busy A g + (if busy (pc) then 1 else 0)"
  "finite A \<Longrightarrow> i \<in> A \<Longrightarrow> n_busy (A - {i}) (g(i := pc)) + (if busy (g i) then 1 else 0) = n_busy A g"
  unfolding n_busy_def by (rule sum_fun_upd; assumption)+

lemma wake_sums [simp]:
  "in_hand A (\<lambda>i. if g i = L_wait then L_lock else g i) = in_hand A g"
  "n_busy A (\<lambda>i. if g i = L_wait then L_lock else g i) = n_busy A g"
  unfolding in_hand_def n_busy_def by (intro sum.cong; simp add: busy_def)+

lemma busy_simps [simp]:
  "busy (L_run m)" "busy L_spare" "\<not> busy L_none" "\<not> busy L_lock" "\<not> busy L_wait" "\<not> busy L_done"
  by (simp_all add: busy_def)

section \<open>Preservation\<close>

lemma goto_simps [simp]:
  "task_pc (goto i pc s) = (task_pc s)(i := pc)" "thread_list (goto i pc s) = thread_list s"
  "currentThreadSize (goto i pc s) = currentThreadSize s" "spareThreadSize (goto i pc s) = spareThreadSize s"
  "MaxThreadSize (goto i pc s) = MaxThreadSize s" "initThreadSize (goto i pc s) = initThreadSize s"
  "TaskQueue (goto i pc s) = TaskQueue s" "currentTaskSize (goto i pc s) = currentTaskSize s"
  "MaxTaskSize (goto i pc s) = MaxTaskSize s" "poolMode (goto i pc s) = poolMode s"
  "isPoolRunning (goto i pc s) = isPoolRunning s" "generaID (goto i pc s) = generaID s"
  "dtor_pc (goto i pc s) = dtor_pc s" "submitted (goto i pc s) = submitted s"
  "taken_tasks (goto i pc s) = taken_tasks s" "executed (goto i pc s) = executed s"
  "refused (goto i pc s) = refused s"
  by (simp_all add: goto_def)

text \<open>What does not touch the numbers of threads and tasks keeps their bound.\<close>

lemma bound_simps [simp]:
  "bound_ok (goto i pc s) = bound_ok s" "bound_ok (s\<lparr>executed := e\<rparr>) = bound_ok s"
  "bound_ok (s\<lparr>spareThreadSize := x\<rparr>) = bound_ok s" "bound_ok (s\<lparr>refused := q\<rparr>) = bound_ok s"
  "bound_ok (s\<lparr>dtor_pc := d\<rparr>) = bound_ok s"
  by (simp_all add: bound_ok_def in_range_def)

lemma inv_goto:
  assumes "task_inv s" "i \<in> thread_list s" "pc \<noteq> L_none" "pc \<noteq> L_done" "busy pc = busy (task_pc s i)"
    "task_of pc = task_of (task_pc s i)" "pc = L_wait \<longrightarrow> dtor_pc s = D_none"
  shows "task_inv (goto i pc s)"
proof -
  have f: "finite (thread_list s)" using assms(1) by (simp add: task_inv_def threads_ok_def)
  have "in_hand (thread_list s) ((task_pc s)(i := pc)) = in_hand (thread_list s) (task_pc s)"
    using in_hand_upd(1) [OF f assms(2), of "task_pc s" pc] assms(6) by simp
  moreover have "n_busy (thread_list s) ((task_pc s)(i := pc)) = n_busy (thread_list s) (task_pc s)"
    using n_busy_upd(1) [OF f assms(2), of "task_pc s" pc] assms(5) by simp
  ultimately show ?thesis
    using assms by (auto simp: task_inv_def threads_ok_def tasks_ok_def counters_ok_def dtor_ok_def)
qed

lemma wake_pc [simp]:
  "(if pc = L_wait then L_lock else pc) = L_none \<longleftrightarrow> pc = L_none"
  "(if pc = L_wait then L_lock else pc) = L_done \<longleftrightarrow> pc = L_done"
  "(if pc = L_wait then L_lock else pc) \<noteq> L_wait"
  by auto

lemma notify_simps [simp]:
  "task_pc (notify_notEmpty s) = (\<lambda>i. if task_pc s i = L_wait then L_lock else task_pc s i)"
  "thread_list (notify_notEmpty s) = thread_list s" "currentThreadSize (notify_notEmpty s) = currentThreadSize s"
  "spareThreadSize (notify_notEmpty s) = spareThreadSize s" "MaxThreadSize (notify_notEmpty s) = MaxThreadSize s"
  "initThreadSize (notify_notEmpty s) = initThreadSize s" "TaskQueue (notify_notEmpty s) = TaskQueue s"
  "currentTaskSize (notify_notEmpty s) = currentTaskSize s" "poolMode (notify_notEmpty s) = poolMode s"
  "isPoolRunning (notify_notEmpty s) = isPoolRunning s" "generaID (notify_notEmpty s) = generaID s"
  "dtor_pc (notify_notEmpty s) = dtor_pc s" "submitted (notify_notEmpty s) = submitted s"
  "taken_tasks (notify_notEmpty s) = taken_tasks s" "executed (notify_notEmpty s) = executed s"
  by (simp_all add: notify_notEmpty_def)

lemma inv_notify: "task_inv s \<Longrightarrow> task_inv (notify_notEmpty s)"
  unfolding task_inv_def threads_ok_def tasks_ok_def counters_ok_def bound_ok_def in_range_def dtor_ok_def
  by (auto simp only: notify_simps wake_sums wake_pc simp_thms)

lemma inv_take:
  assumes I: "task_inv s" and i: "i \<in> thread_list s" "task_pc s i = L_lock \<or> task_pc s i = L_wait"
    and q: "TaskQueue s = task # rest"
  defines "t \<equiv> goto i (L_run task) (s\<lparr>currentThreadSize := currentThreadSize s - 1, TaskQueue := rest,
      spareThreadSize := spareThreadSize s - 1, taken_tasks := taken_tasks s @ [task]\<rparr>)"
  shows "task_inv t"
proof -
  have f: "finite (thread_list s)" using I by (simp add: task_inv_def threads_ok_def)
  have "in_hand (thread_list s) ((task_pc s)(i := L_run task)) = add_mset task (in_hand (thread_list s) (task_pc s))"
    using in_hand_upd(1) [OF f i(1), of "task_pc s" "L_run task"] i(2) by auto
  moreover have "n_busy (thread_list s) ((task_pc s)(i := L_run task)) = Suc (n_busy (thread_list s) (task_pc s))"
    using n_busy_upd(1) [OF f i(1), of "task_pc s" "L_run task"] i(2) by auto
  moreover have "bound_ok t"
  proof -
    have "sint (currentThreadSize s - 1) \<le> max (sint (initThreadSize s)) (int (length (submitted s)))" if r: "in_range s"
    proof -
      have c: "currentThreadSize s = of_nat (card (thread_list s)) - of_nat (length (taken_tasks s))"
        and l: "int (card (thread_list s)) \<le> sint (initThreadSize s) + int (length (submitted s))"
        and n: "0 \<le> sint (initThreadSize s)" and q': "length (submitted s) = Suc (length (taken_tasks s) + length rest)"
        and b: "sint (currentThreadSize s) \<le> max (sint (initThreadSize s)) (int (length (submitted s)))"
        using I q r by (auto simp: task_inv_def counters_ok_def bound_ok_def tasks_ok_def)
      have "card (thread_list s) < 2 ^ 31" "length (taken_tasks s) \<le> 2 ^ 31" using r l n q' by (simp_all add: in_range_def)
      then have "sint (currentThreadSize s) = int (card (thread_list s)) - int (length (taken_tasks s))"
        unfolding c by (rule sint_diff)
      moreover have w: "currentThreadSize s - 1 = of_nat (card (thread_list s)) - of_nat (Suc (length (taken_tasks s)))"
        by (simp add: c)
      have "sint (currentThreadSize s - 1) = int (card (thread_list s)) - int (Suc (length (taken_tasks s)))"
        unfolding w by (rule sint_diff) (use r l n q' in \<open>simp_all add: in_range_def\<close>)
      ultimately show ?thesis using b by linarith
    qed
    then show ?thesis using I q by (simp add: t_def task_inv_def bound_ok_def in_range_def)
  qed
  ultimately show ?thesis
    using I i q by (auto simp: t_def task_inv_def threads_ok_def tasks_ok_def counters_ok_def dtor_ok_def)
qed

lemma inv_exit:
  assumes I: "task_inv s" and i: "i \<in> thread_list s" "task_pc s i = L_lock \<or> task_pc s i = L_wait"
    and q: "TaskQueue s = []" "\<not> isPoolRunning s"
  shows "task_inv (goto i L_done (notify_exit (s\<lparr>thread_list := thread_list s - {i}\<rparr>)))"
proof -
  have f: "finite (thread_list s)" using I by (simp add: task_inv_def threads_ok_def)
  have "in_hand (thread_list s - {i}) ((task_pc s)(i := L_done)) = in_hand (thread_list s) (task_pc s)"
    using in_hand_upd(3) [OF f i(1), of "task_pc s" L_done] i(2) by auto
  moreover have "bound_ok (notify_exit (s\<lparr>thread_list := thread_list s - {i}\<rparr>))"
    using I q by (simp add: notify_exit_def task_inv_def bound_ok_def in_range_def)
  ultimately show ?thesis
    using I i q f by (auto simp: notify_exit_def task_inv_def threads_ok_def tasks_ok_def counters_ok_def dtor_ok_def)
qed

lemma inv_section:
  assumes I: "task_inv s" and i: "i \<in> thread_list s" "task_pc s i = L_lock \<or> task_pc s i = L_wait"
  shows "task_inv (thread_section i s)"
proof (cases "TaskQueue s")
  case Nil
  show ?thesis
  proof (cases "isPoolRunning s")
    case True
    then have "dtor_pc s = D_none" using I by (simp add: task_inv_def counters_ok_def)
    with inv_goto [OF I i(1), of L_wait] i(2) True Nil show ?thesis by (auto simp: thread_section_def)
  next
    case False
    with inv_exit [OF I i Nil] Nil show ?thesis by (simp add: thread_section_def)
  qed
next
  case (Cons task rest)
  let ?u = "s\<lparr>currentThreadSize := currentThreadSize s - 1, TaskQueue := rest,
      spareThreadSize := spareThreadSize s - 1, taken_tasks := taken_tasks s @ [task]\<rparr>"
  have "goto i (L_run task) (notify_notEmpty ?u) = notify_notEmpty (goto i (L_run task) ?u)"
    by (rule taskpool.equality) (auto simp: fun_eq_iff goto_def notify_notEmpty_def)
  with inv_take [OF I i Cons] inv_notify Cons show ?thesis by (auto simp: thread_section_def Let_def)
qed

text \<open>
  Before a counter can wrap no idle thread ends: the counter of threads never passes the numbers it
  is compared with.
\<close>

lemma no_retirement:
  assumes "task_inv s" and r: "in_range s"
  shows "\<not> retires idle s"
proof -
  have "sint (currentTaskSize s) = int (length (submitted s))"
    using assms sint_nat [of "length (submitted s)"] by (auto simp: task_inv_def tasks_ok_def bound_ok_def in_range_def)
  then show ?thesis using assms by (auto simp: retires_def task_inv_def bound_ok_def)
qed

lemma inv_retire:
  assumes I: "task_inv s" and i: "task_pc s i = L_wait" and r: "retires idle s"
  shows "task_inv (goto i L_done (s\<lparr>thread_list := thread_list s - {i}, currentThreadSize := currentThreadSize s - 1,
             spareThreadSize := spareThreadSize s - 1\<rparr>))"
proof -
  let ?u = "s\<lparr>thread_list := thread_list s - {i}, currentThreadSize := currentThreadSize s - 1,
      spareThreadSize := spareThreadSize s - 1\<rparr>"
  have f: "finite (thread_list s)" and l: "i \<in> thread_list s" using I i by (auto simp: task_inv_def threads_ok_def)
  have h: "in_hand (thread_list s - {i}) ((task_pc s)(i := L_done)) = in_hand (thread_list s) (task_pc s)"
    "n_busy (thread_list s - {i}) ((task_pc s)(i := L_done)) = n_busy (thread_list s) (task_pc s)"
    using in_hand_upd(3) [OF f l, of "task_pc s" L_done] n_busy_upd(3) [OF f l, of "task_pc s" L_done] i by simp_all
  have c: "card (thread_list s) = Suc (card (thread_list s - {i}))" by (rule card.remove [OF f l])
  then have c': "of_nat (card (thread_list s - {i})) = (of_nat (card (thread_list s)) - 1 :: i32)"
    by (simp only: of_nat_Suc add_diff_cancel_left')
  have d: "dtor_pc s = D_none \<or> dtor_pc s = D_lock" using I i by (auto simp: task_inv_def threads_ok_def)
  have "threads_ok (goto i L_done ?u)" using I d l by (auto simp: task_inv_def threads_ok_def)
  moreover have "tasks_ok (goto i L_done ?u)" using I h(1) by (simp add: task_inv_def tasks_ok_def)
  moreover have "counters_ok (goto i L_done ?u)"
    using I h(2) by (simp add: task_inv_def counters_ok_def c')
  moreover have "bound_ok (goto i L_done ?u)"
    using I no_retirement [OF I] r by (auto simp: task_inv_def bound_ok_def in_range_def)
  moreover have "dtor_ok (goto i L_done ?u)" using d by (auto simp: dtor_ok_def)
  ultimately show ?thesis by (simp add: task_inv_def)
qed

lemma n_busy_le: "finite A \<Longrightarrow> n_busy A g \<le> card A"
  unfolding n_busy_def by (rule order_trans [OF sum_bounded_above [of A _ 1]]) auto

lemma inv_new_thread:
  assumes I: "task_inv u" and d: "dtor_pc u = D_none" and c: "sint (spareThreadSize u) < sint (currentTaskSize u)"
    and n: "in_range u \<Longrightarrow> int (card (thread_list u)) < sint (initThreadSize u) + int (length (submitted u))"
  shows "task_inv (goto (generaID u) L_lock (u\<lparr>thread_list := insert (generaID u) (thread_list u),
    generaID := Suc (generaID u), spareThreadSize := spareThreadSize u + 1,
    currentThreadSize := currentThreadSize u + 1\<rparr>))" (is "task_inv ?t")
proof -
  let ?g = "generaID u" and ?k = "card (thread_list u)" and ?b = "n_busy (thread_list u) (task_pc u)"
  have r: "isPoolRunning u" using I d by (simp add: task_inv_def counters_ok_def)
  have g: "?g \<notin> thread_list u" and f: "finite (thread_list u)" using I by (auto simp: task_inv_def threads_ok_def)
  have h: "in_hand (insert ?g (thread_list u)) ((task_pc u)(?g := L_lock)) = in_hand (thread_list u) (task_pc u)"
    "n_busy (insert ?g (thread_list u)) ((task_pc u)(?g := L_lock)) = n_busy (thread_list u) (task_pc u)"
    using in_hand_upd(2) [OF f g, of "task_pc u" L_lock] n_busy_upd(2) [OF f g, of "task_pc u" L_lock] by simp_all
  have "sint (currentThreadSize u + 1) \<le> int (length (submitted u))" if R: "in_range u"
  proof -
    have e: "currentThreadSize u = of_nat ?k - of_nat (length (taken_tasks u))" "spareThreadSize u = of_nat ?k - of_nat ?b"
      "currentTaskSize u = of_nat (length (submitted u))" "?b \<le> length (taken_tasks u)"
      "length (taken_tasks u) \<le> length (submitted u)" "0 \<le> sint (initThreadSize u)"
      using I r by (auto simp: task_inv_def counters_ok_def tasks_ok_def bound_ok_def)
    have k: "?k + 1 < 2 ^ 31" "length (submitted u) < 2 ^ 31" "?b \<le> ?k"
      using n [OF R] R e(6) n_busy_le [OF f, of "task_pc u"] by (simp_all add: in_range_def)
    have "sint (spareThreadSize u) = int ?k - int ?b" "sint (currentTaskSize u) = int (length (submitted u))"
      using sint_diff [of ?k ?b] sint_nat [of "length (submitted u)"] k e(2,3) by simp_all
    moreover have w: "currentThreadSize u + 1 = of_nat (?k + 1) - of_nat (length (taken_tasks u))" by (simp add: e(1))
    have "sint (of_nat (?k + 1) - of_nat (length (taken_tasks u)) :: i32) = int (?k + 1) - int (length (taken_tasks u))"
      using k(1,2) e(5) by (intro sint_diff) simp_all
    then have "sint (currentThreadSize u + 1) = int (?k + 1) - int (length (taken_tasks u))" by (simp only: w)
    ultimately show ?thesis using c e(4) by linarith
  qed
  then have "bound_ok ?t" using I n g f by (auto simp: task_inv_def bound_ok_def in_range_def)
  then show ?thesis
    using I d r g f h by (auto simp: task_inv_def threads_ok_def tasks_ok_def counters_ok_def dtor_ok_def less_Suc_eq)
qed

lemma inv_submit:
  assumes I: "task_inv s" and d: "dtor_pc s = D_none"
  shows "task_inv (submitTask task s)"
proof -
  let ?u = "s\<lparr>TaskQueue := TaskQueue s @ [task], currentTaskSize := currentTaskSize s + 1, submitted := submitted s @ [task]\<rparr>"
  let ?s = "notify_notEmpty ?u"
  have r: "isPoolRunning s" using I d by (simp add: task_inv_def counters_ok_def)
  have U: "task_inv ?s"
  proof (rule inv_notify)
    have "bound_ok ?u" using I r by (auto simp: task_inv_def bound_ok_def in_range_def)
    then show "task_inv ?u"
      using I d r by (auto simp: task_inv_def threads_ok_def tasks_ok_def counters_ok_def dtor_ok_def)
  qed
  have s: "dtor_pc ?s = D_none" using d by simp
  show ?thesis
  proof (cases "poolMode ?s = MODE_CACHED \<and> sint (spareThreadSize ?s) < sint (currentTaskSize ?s)
      \<and> sint (currentThreadSize ?s) < sint (MaxThreadSize ?s)")
    case True
    have "int (card (thread_list ?s)) < sint (initThreadSize ?s) + int (length (submitted ?s))" if "in_range ?s"
      using I r that by (auto simp: task_inv_def bound_ok_def in_range_def)
    with inv_new_thread [OF U s] True show ?thesis by (simp only: submitTask_def Let_def if_True simp_thms)
  qed (use U in \<open>simp only: submitTask_def Let_def if_False simp_thms\<close>)
qed

lemma inv_run:
  assumes I: "task_inv s" and i: "task_pc s i = L_run task"
  shows "task_inv (goto i L_spare (s\<lparr>executed := executed s @ [task]\<rparr>))"
proof -
  have f: "finite (thread_list s)" and l: "i \<in> thread_list s" using I i by (auto simp: task_inv_def threads_ok_def)
  have "add_mset task (in_hand (thread_list s) ((task_pc s)(i := L_spare))) = in_hand (thread_list s) (task_pc s)"
    using in_hand_upd(1) [OF f l, of "task_pc s" L_spare] i by simp
  moreover have "n_busy (thread_list s) ((task_pc s)(i := L_spare)) = n_busy (thread_list s) (task_pc s)"
    using n_busy_upd(1) [OF f l, of "task_pc s" L_spare] i by simp
  ultimately show ?thesis
    using I i l by (auto simp: task_inv_def threads_ok_def tasks_ok_def counters_ok_def dtor_ok_def)
qed

lemma inv_spare:
  assumes I: "task_inv s" and i: "task_pc s i = L_spare"
  shows "task_inv (goto i L_lock (s\<lparr>spareThreadSize := spareThreadSize s + 1\<rparr>))"
proof -
  have f: "finite (thread_list s)" and l: "i \<in> thread_list s" using I i by (auto simp: task_inv_def threads_ok_def)
  have h: "in_hand (thread_list s) ((task_pc s)(i := L_lock)) = in_hand (thread_list s) (task_pc s)"
    using in_hand_upd(1) [OF f l, of "task_pc s" L_lock] i by simp
  have c: "Suc (n_busy (thread_list s) ((task_pc s)(i := L_lock))) = n_busy (thread_list s) (task_pc s)"
    using n_busy_upd(1) [OF f l, of "task_pc s" L_lock] i by simp
  let ?t = "goto i L_lock (s\<lparr>spareThreadSize := spareThreadSize s + 1\<rparr>)"
  have "threads_ok ?t" using I l by (auto simp: task_inv_def threads_ok_def)
  moreover have "tasks_ok ?t" using I h by (simp add: task_inv_def tasks_ok_def)
  moreover have "counters_ok ?t" using I by (auto simp: task_inv_def counters_ok_def simp flip: c)
  moreover have "bound_ok ?t" using I by (simp add: task_inv_def)
  moreover have "dtor_ok ?t" using I by (simp add: task_inv_def dtor_ok_def)
  ultimately show ?thesis by (simp add: task_inv_def)
qed

lemma listed: "task_inv s \<Longrightarrow> task_pc s i \<noteq> L_none \<Longrightarrow> task_pc s i \<noteq> L_done \<Longrightarrow> i \<in> thread_list s"
  by (simp add: task_inv_def threads_ok_def)

lemma task_inv_step:
  assumes I: "task_inv s" and "lp_step s t"
  shows "task_inv t"
  using assms(2)
proof (cases rule: lp_step.cases)
  case (lock i)
  then show ?thesis using inv_section [OF I] listed [OF I, of i] by auto
next
  case (woken i)
  then show ?thesis using inv_goto [OF I, of i L_lock] listed [OF I, of i] by auto
next
  case (timed_out i idle)
  then show ?thesis
    using inv_section [OF I] inv_retire [OF I, of i idle] listed [OF I, of i] by (auto simp: thread_timeout_def)
next
  case (run i task)
  then show ?thesis using inv_run [OF I] by simp
next
  case (spare i)
  then show ?thesis using inv_spare [OF I] by simp
next
  case (submit task)
  then show ?thesis using inv_submit [OF I] by simp
next
  case (refuse task)
  have "task_inv (s\<lparr>refused := refused s @ [task]\<rparr>) = task_inv s"
    by (simp add: task_inv_def threads_ok_def tasks_ok_def counters_ok_def dtor_ok_def)
  then show ?thesis using I refuse by simp
next
  case dtor_flag
  have "bound_ok (s\<lparr>isPoolRunning := False, dtor_pc := D_lock\<rparr>)"
    using I by (auto simp: task_inv_def bound_ok_def in_range_def)
  with dtor_flag show ?thesis using I by (auto simp: task_inv_def threads_ok_def tasks_ok_def counters_ok_def dtor_ok_def)
next
  case dtor_notify
  have "finite (thread_list s)" using I by (simp add: task_inv_def threads_ok_def)
  then show ?thesis using dtor_notify inv_notify [OF I]
    by (auto simp: task_inv_def threads_ok_def tasks_ok_def counters_ok_def dtor_ok_def)
next
  case dtor_check
  have "finite (thread_list s)" using I by (simp add: task_inv_def threads_ok_def)
  then show ?thesis using dtor_check I
    by (auto simp: task_inv_def threads_ok_def tasks_ok_def counters_ok_def dtor_ok_def)
qed

section \<open>Starting\<close>

lemma create_threads_eq:
  "create_threads n s = s\<lparr>thread_list := thread_list s \<union> {generaID s..<generaID s + n}, generaID := generaID s + n\<rparr>"
  by (induction n s rule: create_threads.induct) (auto simp: atLeastLessThan_def intro!: taskpool.equality)

lemma start_threads_eq:
  "{i..<i + n} \<subseteq> thread_list s \<Longrightarrow> start_threads i n s =
     Some (s\<lparr>spareThreadSize := spareThreadSize s + of_nat n,
             task_pc := (\<lambda>k. if i \<le> k \<and> k < i + n then L_lock else task_pc s k)\<rparr>)"
proof (induction i n s rule: start_threads.induct)
  case (1 i s)
  have "(\<lambda>k. if i \<le> k \<and> k < i then L_lock else task_pc s k) = task_pc s" by (rule ext) auto
  then show ?case by simp
next
  case (2 i n s)
  then have "i \<in> thread_list s" "{Suc i..<Suc i + n} \<subseteq> thread_list s" by auto
  with 2 show ?case by (auto simp: fun_eq_iff intro!: taskpool.equality)
qed

text \<open>A pool of a process in which no thread was created before, set up and started.\<close>

definition task_started :: "nat \<Rightarrow> 'm taskpool \<Rightarrow> bool" where
  "task_started n s \<longleftrightarrow> (\<exists>mode mt mx. 1 \<le> n \<and> int n \<le> sint mx \<and>
     start (of_nat n) (setThreadSizeThreshHold mx (setTaskQueMaxThreshHold mt (setMode mode (ThreadPool_ctor 0)))) = Some s)"

lemma start_eq:
  fixes s :: "'m taskpool"
  assumes "int n \<le> sint mx"
  shows "start (of_nat n) (setThreadSizeThreshHold mx (setTaskQueMaxThreshHold mt (setMode mode (ThreadPool_ctor 0)))) =
    Some ((ThreadPool_ctor 0)\<lparr>thread_list := {0..<n}, currentThreadSize := of_nat n, spareThreadSize := of_nat n,
      MaxThreadSize := mx, initThreadSize := of_nat n, MaxTaskSize := mt, poolMode := mode, isPoolRunning := True,
      generaID := n, task_pc := (\<lambda>k. if k < n then L_lock else L_none)\<rparr> :: 'm taskpool)"
proof -
  let ?u = "(ThreadPool_ctor 0)\<lparr>currentThreadSize := of_nat n, MaxThreadSize := mx, initThreadSize := of_nat n,
      MaxTaskSize := mt, poolMode := mode, isPoolRunning := True\<rparr> :: 'm taskpool"
  have n: "nat (min (sint (of_nat n :: i32)) (sint mx)) = n"
    using assms sint_nat [of n] sint_lt [of mx] by (simp add: nat_less_iff)
  have u: "thread_list ?u = {}" "generaID ?u = 0" "spareThreadSize ?u = 0" "task_pc ?u = (\<lambda>_. L_none)"
    by (simp_all add: ThreadPool_ctor_def)
  have "start (of_nat n) (setThreadSizeThreshHold mx (setTaskQueMaxThreshHold mt (setMode mode (ThreadPool_ctor 0)))) =
      start_threads 0 (card (thread_list (create_threads n ?u))) (create_threads n ?u)"
    using n by (simp add: start_def setThreadSizeThreshHold_def setTaskQueMaxThreshHold_def setMode_def Let_def ThreadPool_ctor_def)
  also have "\<dots> = start_threads 0 n (?u\<lparr>thread_list := {0..<n}, generaID := n\<rparr>)"
    by (simp add: create_threads_eq u)
  also have "\<dots> = Some (?u\<lparr>thread_list := {0..<n}, generaID := n, spareThreadSize := of_nat n,
      task_pc := (\<lambda>k. if k < n then L_lock else L_none)\<rparr>)"
    by (subst start_threads_eq) (simp_all add: ThreadPool_ctor_def cong: if_cong)
  finally show ?thesis by simp
qed

lemma task_inv_started:
  assumes "task_started n (s :: 'm taskpool)"
  shows "task_inv s"
proof -
  from assms obtain mode mt mx where n: "1 \<le> n" "int n \<le> sint mx"
    and "start (of_nat n) (setThreadSizeThreshHold mx (setTaskQueMaxThreshHold mt (setMode mode (ThreadPool_ctor 0)))) = Some s"
    by (auto simp: task_started_def)
  with start_eq [OF n(2), where 'm = 'm] have s: "s = (ThreadPool_ctor 0)\<lparr>thread_list := {0..<n}, currentThreadSize := of_nat n,
      spareThreadSize := of_nat n, MaxThreadSize := mx, initThreadSize := of_nat n, MaxTaskSize := mt, poolMode := mode,
      isPoolRunning := True, generaID := n, task_pc := (\<lambda>k. if k < n then L_lock else L_none)\<rparr>" by simp
  have "in_hand {0..<n} (\<lambda>k. if k < n then L_lock else L_none :: 'm task_pc) = {#}"
    "n_busy {0..<n} (\<lambda>k. if k < n then L_lock else L_none :: 'm task_pc) = 0"
    by (simp_all add: in_hand_def n_busy_def)
  moreover have "sint (of_nat n :: i32) = int n" using n(2) sint_lt [of mx] by (intro sint_nat) simp
  ultimately show ?thesis
    using n by (auto simp: s ThreadPool_ctor_def task_inv_def threads_ok_def tasks_ok_def counters_ok_def bound_ok_def in_range_def dtor_ok_def)
qed

interpretation taskpool: step_system "task_started n" lp_step task_inv
  by unfold_locales (auto intro: task_inv_started task_inv_step)


section \<open>What the pool promises\<close>

lemma safe_facts:
  assumes "task_inv s"
  shows "submitted s = taken_tasks s @ TaskQueue s"
    "mset (taken_tasks s) = mset (executed s) + in_hand (thread_list s) (task_pc s)"
    "currentTaskSize s = of_nat (length (submitted s))"
    "isPoolRunning s \<Longrightarrow> currentThreadSize s = of_nat (card (thread_list s)) - of_nat (length (taken_tasks s))
       \<and> spareThreadSize s = of_nat (card (thread_list s)) - of_nat (n_busy (thread_list s) (task_pc s))"
  using assms by (simp_all add: task_inv_def tasks_ok_def counters_ok_def)

lemma range_facts:
  assumes I: "task_inv s" and r: "in_range s"
  shows "sint (currentTaskSize s) = int (length (submitted s))"
    "isPoolRunning s \<Longrightarrow> sint (currentThreadSize s) = int (card (thread_list s)) - int (length (taken_tasks s))"
    "dtor_pc s = D_done \<Longrightarrow> TaskQueue s = [] \<and> mset (executed s) = mset (submitted s)"
proof -
  have n: "0 \<le> sint (initThreadSize s)" and t: "length (taken_tasks s) \<le> length (submitted s)"
    using I by (simp_all add: task_inv_def bound_ok_def tasks_ok_def)
  then show "sint (currentTaskSize s) = int (length (submitted s))"
    using r safe_facts(3) [OF I] sint_nat [of "length (submitted s)"] by (simp add: in_range_def)
  show "sint (currentThreadSize s) = int (card (thread_list s)) - int (length (taken_tasks s))" if p: "isPoolRunning s"
  proof -
    have "int (card (thread_list s)) \<le> sint (initThreadSize s) + int (length (submitted s))"
      using I r p by (simp add: task_inv_def bound_ok_def)
    with r n t have "card (thread_list s) < 2 ^ 31" "length (taken_tasks s) \<le> 2 ^ 31"
      by (simp_all add: in_range_def)
    with safe_facts(4) [OF I p] show ?thesis by (simp add: sint_diff)
  qed
  show "TaskQueue s = [] \<and> mset (executed s) = mset (submitted s)" if d: "dtor_pc s = D_done"
  proof -
    have l: "thread_list s = {}" using I d by (simp add: task_inv_def dtor_ok_def)
    then have q: "TaskQueue s = []" using I r by (auto simp: task_inv_def bound_ok_def)
    with I l show ?thesis by (simp add: task_inv_def tasks_ok_def in_hand_def)
  qed
qed

lemma lp_step_init: "lp_step s t \<Longrightarrow> initThreadSize t = initThreadSize s"
  by (erule lp_step.cases)
    (auto simp: thread_section_def thread_timeout_def notify_exit_def submitTask_def Let_def split: list.split)

lemma started_range:
  assumes "task_started n (s0 :: 'm taskpool)" and "lp_step\<^sup>*\<^sup>* s0 s" and "n + length (submitted s) < 2 ^ 31"
  shows "in_range s"
proof -
  have "initThreadSize s = initThreadSize s0"
    using assms(2) by (induction rule: rtranclp_induct) (simp_all add: lp_step_init)
  moreover have "initThreadSize s0 = of_nat n" using assms(1) start_eq [of n, where 'm = 'm] by (auto simp: task_started_def)
  ultimately show ?thesis using assms(3) sint_nat [of n] by (simp add: in_range_def)
qed

text \<open>
  C15. Task pool, the first of its process, after \<open>start\<close> of \<open>n\<close> threads (at least one, within the
  limit), whatever threads, owner and clock do: tasks are taken in the order of their submission,
  each by one thread; a task that was taken has been executed or is in one thread's hands;
  \<open>currentTaskSize\<close> counts all submissions ever made, \<open>currentThreadSize\<close> is the number of threads
  less the number of tasks taken, and \<open>spareThreadSize\<close> the number of threads without a task, all
  modulo \<open>2 ^ 32\<close>. As long as \<open>n\<close> and the number of submissions are together below \<open>2 ^ 31\<close>, the
  first two hold of the signed values, no idle thread ever passes the test behind the timed wait,
  and when the destructor has returned, exactly the accepted tasks have been executed.
\<close>

theorem taskpool_safe:
  assumes "task_started n s0" and "lp_step\<^sup>*\<^sup>* s0 s"
  shows "submitted s = taken_tasks s @ TaskQueue s
    \<and> mset (taken_tasks s) = mset (executed s) + in_hand (thread_list s) (task_pc s)
    \<and> currentTaskSize s = of_nat (length (submitted s))
    \<and> (isPoolRunning s \<longrightarrow> currentThreadSize s = of_nat (card (thread_list s)) - of_nat (length (taken_tasks s))
         \<and> spareThreadSize s = of_nat (card (thread_list s)) - of_nat (n_busy (thread_list s) (task_pc s)))
    \<and> (n + length (submitted s) < 2 ^ 31 \<longrightarrow>
         sint (currentTaskSize s) = int (length (submitted s))
         \<and> (isPoolRunning s \<longrightarrow> sint (currentThreadSize s) = int (card (thread_list s)) - int (length (taken_tasks s)))
         \<and> \<not> retires idle s
         \<and> (dtor_pc s = D_done \<longrightarrow> TaskQueue s = [] \<and> mset (executed s) = mset (submitted s)))"
proof -
  have I: "task_inv s" using assms by (rule taskpool.started_run_inv)
  with safe_facts [OF I] range_facts [OF I] no_retirement [OF I] started_range [OF assms] show ?thesis by blast
qed


text \<open>A pool of one thread of mode cached, with the limit of one thread.\<close>

definition limit_one :: "'m taskpool" where
  "limit_one = the (start 1 (setThreadSizeThreshHold 1 (setMode MODE_CACHED (ThreadPool_ctor 0))))"

lemma limit_one_eq:
  "start 1 (setThreadSizeThreshHold 1 (setMode MODE_CACHED (ThreadPool_ctor 0))) = Some limit_one"
  "limit_one = \<lparr>thread_list = {0}, currentThreadSize = 1, spareThreadSize = 1, MaxThreadSize = 1,
     initThreadSize = 1, TaskQueue = [], currentTaskSize = 0, MaxTaskSize = TASK_MAX_THRESHHOLD,
     poolMode = MODE_CACHED, isPoolRunning = True, generaID = 1, task_pc = (\<lambda>_. L_none)(0 := L_lock),
     dtor_pc = D_none, submitted = [], taken_tasks = [], executed = [], refused = []\<rparr>"
  unfolding limit_one_def
  by (simp_all add: start_def setThreadSizeThreshHold_def setMode_def ThreadPool_ctor_def goto_def)

lemma limit_one_started: "task_started 1 (limit_one :: 'a taskpool)"
proof -
  have e: "setTaskQueMaxThreshHold TASK_MAX_THRESHHOLD (setMode MODE_CACHED (ThreadPool_ctor 0)) =
      (setMode MODE_CACHED (ThreadPool_ctor 0) :: 'a taskpool)"
    by (simp add: setTaskQueMaxThreshHold_def setMode_def ThreadPool_ctor_def)
  show ?thesis unfolding task_started_def
    by (rule exI [of _ MODE_CACHED], rule exI [of _ TASK_MAX_THRESHHOLD], rule exI [of _ 1])
      (use limit_one_eq(1) [where 'a = 'a] in \<open>simp only: e, simp\<close>)
qed

lemma task_run:
  assumes "task_pc s i = L_lock" and "TaskQueue s = task # rest"
  shows "lp_step\<^sup>*\<^sup>* s (goto i L_lock ((goto i L_spare ((thread_section i s)\<lparr>executed := executed s @ [task]\<rparr>))
    \<lparr>spareThreadSize := spareThreadSize (thread_section i s) + 1\<rparr>))"
proof -
  let ?u = "thread_section i s" and ?v = "goto i L_spare ((thread_section i s)\<lparr>executed := executed s @ [task]\<rparr>)"
  have u: "task_pc ?u i = L_run task" "executed ?u = executed s"
    using assms by (simp_all add: thread_section_def Let_def)
  have "lp_step s ?u" using assms(1) by (rule lp_step.lock)
  moreover have "lp_step ?u ?v" using lp_step.run [OF u(1)] u(2) by simp
  moreover have "lp_step ?v (goto i L_lock (?v\<lparr>spareThreadSize := spareThreadSize ?v + 1\<rparr>))"
    by (rule lp_step.spare) simp
  ultimately show ?thesis by simp
qed

text \<open>One task more, by thread 0.\<close>

definition one_more :: "nat \<Rightarrow> 'm taskpool \<Rightarrow> bool" where
  "one_more k s \<longleftrightarrow> thread_list s = {0..<k} \<and> generaID s = k \<and> TaskQueue s = [] \<and> dtor_pc s = D_none
     \<and> currentThreadSize s = 0 \<and> spareThreadSize s = of_nat k \<and> currentTaskSize s = of_nat k \<and> MaxThreadSize s = 1
     \<and> MaxTaskSize s = TASK_MAX_THRESHHOLD \<and> poolMode s = MODE_CACHED \<and> 0 < k \<and> task_pc s 0 = L_lock"

lemma one_more_first: "\<exists>s :: 'm taskpool. lp_step\<^sup>*\<^sup>* limit_one s \<and> one_more 1 s"
proof -
  let ?u = "submitTask (undefined :: 'm) limit_one"
  have s: "lp_step limit_one ?u" by (rule lp_step.submit) (simp_all add: limit_one_eq not_full_def TASK_MAX_THRESHHOLD_def)
  have u: "task_pc ?u 0 = L_lock" "TaskQueue ?u = [undefined]"
    by (simp_all add: limit_one_eq submitTask_def Let_def notify_notEmpty_def)
  show ?thesis
    by (rule exI, rule conjI [OF converse_rtranclp_into_rtranclp [OF s task_run [OF u]]])
      (auto simp: one_more_def limit_one_eq submitTask_def thread_section_def Let_def notify_notEmpty_def goto_def)
qed

lemma one_more_next:
  assumes "one_more k (s :: 'm taskpool)" and "Suc k < 2 ^ 31"
  shows "\<exists>t. lp_step\<^sup>*\<^sup>* s t \<and> one_more (Suc k) t"
proof -
  let ?u = "submitTask (undefined :: 'm) s"
  have sint: "sint (of_nat k :: i32) < sint (of_nat k + 1 :: i32)"
    using assms(2) sint_nat [of k] sint_nat [of "Suc k"] by (simp add: add.commute)
  have s: "lp_step s ?u" by (rule lp_step.submit) (use assms(1) in \<open>simp_all add: one_more_def not_full_def TASK_MAX_THRESHHOLD_def\<close>)
  have u: "task_pc ?u 0 = L_lock" "TaskQueue ?u = [undefined]"
    using assms(1) by (simp_all add: one_more_def submitTask_def Let_def notify_notEmpty_def goto_def)
  show ?thesis
    by (rule exI, rule conjI [OF converse_rtranclp_into_rtranclp [OF s task_run [OF u]]])
      (use assms(1) sint in \<open>auto simp: one_more_def submitTask_def thread_section_def Let_def notify_notEmpty_def goto_def\<close>)
qed

text \<open>
  C22. Task pool: the limit on the number of threads does not hold. Each task taken counts one thread
  less although the thread stays, so a pool of one thread in mode cached whose limit is one thread
  can come to have any number of threads below \<open>2 ^ 31\<close>.
\<close>

theorem taskpool_exceeds_limit:
  assumes "1 \<le> k" and "k < 2 ^ 31"
  shows "\<exists>s0 s :: 'm taskpool. start 1 (setThreadSizeThreshHold 1 (setMode MODE_CACHED (ThreadPool_ctor 0))) = Some s0
    \<and> lp_step\<^sup>*\<^sup>* s0 s \<and> MaxThreadSize s = 1 \<and> card (thread_list s) = k \<and> dtor_pc s = D_none"
proof -
  from assms have "\<exists>s :: 'm taskpool. lp_step\<^sup>*\<^sup>* limit_one s \<and> one_more k s"
  proof (induction k rule: dec_induct)
    case base
    show ?case by (rule one_more_first)
  next
    case (step k)
    then show ?case using one_more_next [of k] by (meson Suc_lessD rtranclp_trans)
  qed
  with limit_one_eq(1) [where 'a = 'm] show ?thesis by (fastforce simp: one_more_def)
qed

theorem taskpool_exceeds_limit_witness:
  "\<exists>s0 s :: nat taskpool. start 1 (setThreadSizeThreshHold 1 (setMode MODE_CACHED (ThreadPool_ctor 0))) = Some s0
    \<and> lp_step\<^sup>*\<^sup>* s0 s \<and> MaxThreadSize s = 1 \<and> card (thread_list s) = 1000 \<and> dtor_pc s = D_none"
  by (rule taskpool_exceeds_limit) simp_all

lemma notify_nobody: "\<forall>i. task_pc s i \<noteq> L_wait \<Longrightarrow> notify_notEmpty s = s"
  by (auto simp: notify_notEmpty_def fun_eq_iff intro!: taskpool.equality)

text \<open>A complete run: one task, then the destructor.\<close>

definition run_once :: "'m \<Rightarrow> 'm taskpool" where
  "run_once task = (limit_one :: 'm taskpool)\<lparr>thread_list := {}, currentThreadSize := 0, currentTaskSize := 1,
     isPoolRunning := False, task_pc := (\<lambda>_. L_none)(0 := L_done), dtor_pc := D_done, submitted := [task],
     taken_tasks := [task], executed := [task]\<rparr>"

lemma run_once_reached: "lp_step\<^sup>*\<^sup>* limit_one (run_once task)"
proof -
  let ?u = "submitTask task limit_one"
  define w where "w = goto 0 L_lock ((goto 0 L_spare ((thread_section 0 ?u)\<lparr>executed := executed ?u @ [task]\<rparr>))
    \<lparr>spareThreadSize := spareThreadSize (thread_section 0 ?u) + 1\<rparr>)"
  have w: "w = limit_one\<lparr>currentThreadSize := 0, currentTaskSize := 1, submitted := [task],
      taken_tasks := [task], executed := [task]\<rparr>"
    by (simp add: w_def limit_one_eq submitTask_def thread_section_def Let_def notify_notEmpty_def goto_def
      fun_eq_iff cong: if_cong)
  have "lp_step limit_one ?u" by (rule lp_step.submit) (simp_all add: limit_one_eq not_full_def TASK_MAX_THRESHHOLD_def)
  moreover have "lp_step\<^sup>*\<^sup>* ?u w"
    unfolding w_def by (rule task_run) (simp_all add: limit_one_eq submitTask_def Let_def notify_notEmpty_def)
  moreover have "lp_step w (w\<lparr>isPoolRunning := False, dtor_pc := D_lock\<rparr>)"
    by (rule lp_step.dtor_flag) (simp add: w limit_one_eq)
  moreover have "lp_step (w\<lparr>isPoolRunning := False, dtor_pc := D_lock\<rparr>) (w\<lparr>isPoolRunning := False, dtor_pc := D_wait\<rparr>)"
    using lp_step.dtor_notify [of "w\<lparr>isPoolRunning := False, dtor_pc := D_lock\<rparr>"]
    by (simp add: w limit_one_eq notify_nobody)
  moreover have "lp_step (w\<lparr>isPoolRunning := False, dtor_pc := D_wait\<rparr>)
      ((run_once task)\<lparr>dtor_pc := D_check\<rparr>)"
    using lp_step.lock [of "w\<lparr>isPoolRunning := False, dtor_pc := D_wait\<rparr>" 0]
    by (simp add: w limit_one_eq thread_section_def notify_exit_def goto_def run_once_def)
  moreover have "lp_step ((run_once task)\<lparr>dtor_pc := D_check\<rparr>) (run_once task)"
    using lp_step.dtor_check [of "(run_once task)\<lparr>dtor_pc := D_check\<rparr>"] by (simp add: run_once_def limit_one_eq)
  ultimately show ?thesis by (meson r_into_rtranclp rtranclp_trans)
qed

theorem taskpool_safe_witness:
  "dtor_pc (run_once (7 :: nat)) = D_done \<and> TaskQueue (run_once (7 :: nat)) = []
    \<and> mset (executed (run_once (7 :: nat))) = mset (submitted (run_once (7 :: nat)))
    \<and> \<not> retires True (run_once (7 :: nat))"
  using taskpool_safe [OF limit_one_started run_once_reached [of "7 :: nat"]]
    taskpool_safe [OF limit_one_started run_once_reached [of "7 :: nat"], of True]
  by (simp add: run_once_def)

section \<open>The destructor\<close>

text \<open>What a thread and the destructor can still do once the flag is cleared.\<close>

primrec pc_rank :: "'m task_pc \<Rightarrow> nat" where
  "pc_rank L_none = 0" | "pc_rank L_lock = 1" | "pc_rank L_wait = 2" | "pc_rank (L_run m) = 3"
| "pc_rank L_spare = 2" | "pc_rank L_done = 0"

primrec dtor_rank :: "dtor_pc \<Rightarrow> nat" where
  "dtor_rank D_none = 0" | "dtor_rank D_lock = 1" | "dtor_rank D_wait = 0" | "dtor_rank D_check = 1" | "dtor_rank D_done = 0"

definition rank_sum :: "nat set \<Rightarrow> (nat \<Rightarrow> 'm task_pc) \<Rightarrow> nat" where
  "rank_sum A g = (\<Sum>i \<in> A. pc_rank (g i))"

definition work_left :: "'m taskpool \<Rightarrow> nat" where
  "work_left s = 6 * length (TaskQueue s) + 2 * rank_sum (thread_list s) (task_pc s) + dtor_rank (dtor_pc s)"

lemma rank_sum_upd:
  "finite A \<Longrightarrow> i \<in> A \<Longrightarrow> rank_sum A (g(i := pc)) + pc_rank (g i) = rank_sum A g + pc_rank pc"
  "finite A \<Longrightarrow> i \<in> A \<Longrightarrow> rank_sum (A - {i}) (g(i := pc)) + pc_rank (g i) = rank_sum A g"
  unfolding rank_sum_def by (rule sum_fun_upd; assumption)+

lemma rank_sum_wake: "rank_sum A (\<lambda>i. if g i = L_wait then L_lock else g i) \<le> rank_sum A g"
  unfolding rank_sum_def by (rule sum_mono) simp

definition closing_inv :: "'m taskpool \<Rightarrow> bool" where
  "closing_inv s \<longleftrightarrow> task_inv s \<and> dtor_pc s \<noteq> D_none"

lemma closing_facts:
  assumes "closing_inv s"
  shows "finite (thread_list s)" "\<not> isPoolRunning s" "dtor_pc s \<noteq> D_none" "task_inv s"
    "task_pc s i \<noteq> L_none \<Longrightarrow> task_pc s i \<noteq> L_done \<Longrightarrow> i \<in> thread_list s"
  using assms by (auto simp: closing_inv_def task_inv_def threads_ok_def counters_ok_def)

lemma work_section:
  assumes C: "closing_inv s" and i: "task_pc s i = L_lock \<or> task_pc s i = L_wait"
  shows "work_left (thread_section i s) < work_left s"
proof -
  have l: "i \<in> thread_list s" using closing_facts(5) [OF C, of i] i by auto
  note f = closing_facts(1) [OF C]
  show ?thesis
  proof (cases "TaskQueue s")
    case Nil
    have "rank_sum (thread_list s - {i}) ((task_pc s)(i := L_done)) < rank_sum (thread_list s) (task_pc s)"
      using rank_sum_upd(2) [OF f l, of "task_pc s" L_done] i by auto
    then show ?thesis using closing_facts(2) [OF C] Nil
      by (cases "dtor_pc s") (auto simp: thread_section_def work_left_def notify_exit_def)
  next
    case (Cons task rest)
    have w: "(\<lambda>j. if task_pc s j = L_wait then L_lock else task_pc s j)(i := L_run task) =
        (\<lambda>j. if ((task_pc s)(i := L_run task)) j = L_wait then L_lock else ((task_pc s)(i := L_run task)) j)"
      by (auto simp: fun_eq_iff)
    have r: "rank_sum (thread_list s) ((task_pc s)(i := L_run task)) \<le> rank_sum (thread_list s) (task_pc s) + 2"
      using rank_sum_upd(1) [OF f l, of "task_pc s" "L_run task"] i by auto
    moreover have "rank_sum (thread_list s) ((\<lambda>j. if task_pc s j = L_wait then L_lock else task_pc s j)(i := L_run task))
        \<le> rank_sum (thread_list s) (task_pc s) + 2"
      using rank_sum_wake [of "thread_list s" "(task_pc s)(i := L_run task)"] r unfolding w by linarith
    ultimately show ?thesis using Cons by (simp add: thread_section_def work_left_def Let_def cong: if_cong)
  qed
qed

lemma work_left_step:
  assumes C: "closing_inv s" and "lp_step s t"
  shows "work_left t < work_left s"
  using assms(2)
proof (cases rule: lp_step.cases)
  case (lock i)
  then show ?thesis using work_section [OF C] by simp
next
  case (woken i)
  with rank_sum_upd(1) [OF closing_facts(1) [OF C], of i "task_pc s" L_lock] closing_facts(5) [OF C, of i]
  show ?thesis by (simp add: work_left_def)
next
  case (timed_out i idle)
  have l: "i \<in> thread_list s" using closing_facts(5) [OF C, of i] timed_out by simp
  have "rank_sum (thread_list s - {i}) ((task_pc s)(i := L_done)) < rank_sum (thread_list s) (task_pc s)"
    using rank_sum_upd(2) [OF closing_facts(1) [OF C] l, of "task_pc s" L_done] timed_out by simp
  then show ?thesis
    using timed_out work_section [OF C] by (auto simp: thread_timeout_def work_left_def)
next
  case (run i task)
  with rank_sum_upd(1) [OF closing_facts(1) [OF C], of i "task_pc s" L_spare] closing_facts(5) [OF C, of i]
  show ?thesis by (simp add: work_left_def)
next
  case (spare i)
  with rank_sum_upd(1) [OF closing_facts(1) [OF C], of i "task_pc s" L_lock] closing_facts(5) [OF C, of i]
  show ?thesis by (simp add: work_left_def)
next
  case dtor_notify
  with rank_sum_wake [of "thread_list s" "task_pc s"] show ?thesis by (simp add: work_left_def)
next
  case dtor_check
  then show ?thesis by (simp add: work_left_def)
qed (use closing_facts(3) [OF C] in simp_all)

lemma dtor_section: "dtor_pc s \<noteq> D_none \<Longrightarrow> dtor_pc (thread_section i s) \<noteq> D_none"
  by (cases "TaskQueue s") (auto simp: thread_section_def Let_def notify_exit_def)

lemma closing_inv_step:
  assumes "closing_inv s" and st: "lp_step s t"
  shows "closing_inv t"
proof -
  from assms(1) have d: "dtor_pc s \<noteq> D_none" and I: "task_inv s" by (simp_all add: closing_inv_def)
  from st have "dtor_pc t \<noteq> D_none"
    by (cases rule: lp_step.cases) (use d dtor_section [OF d] in \<open>simp_all add: thread_timeout_def\<close>)
  with task_inv_step [OF I st] show ?thesis by (simp add: closing_inv_def)
qed

interpretation task_closing: step_system closing_inv lp_step closing_inv
  by unfold_locales (auto intro: closing_inv_step)

lemma closing_stuck:
  assumes "closing_inv s" and stuck: "\<And>t. \<not> lp_step s t"
  shows "dtor_pc s = D_done"
proof (rule ccontr)
  assume d: "dtor_pc s \<noteq> D_done"
  have "dtor_pc s \<noteq> D_lock" "dtor_pc s \<noteq> D_check"
    using stuck lp_step.dtor_notify [of s] lp_step.dtor_check [of s] by auto
  with d closing_facts(3) [OF assms(1)] have "dtor_pc s = D_wait" by (cases "dtor_pc s") auto
  then obtain i where i: "i \<in> thread_list s" using assms(1) by (auto simp: closing_inv_def task_inv_def dtor_ok_def)
  then have "task_pc s i \<noteq> L_none" "task_pc s i \<noteq> L_done" using assms(1) by (auto simp: closing_inv_def task_inv_def threads_ok_def)
  then show False
    using stuck lp_step.lock [of s i] lp_step.woken [of s i] lp_step.run [of s i] lp_step.spare [of s i]
    by (cases "task_pc s i") auto
qed

lemma work_left_bound:
  assumes "finite (thread_list s)"
  shows "work_left s \<le> 6 * (length (TaskQueue s) + card (thread_list s)) + 1"
proof -
  have "rank_sum (thread_list s) (task_pc s) \<le> (\<Sum>i \<in> thread_list s. 3)"
    unfolding rank_sum_def by (rule sum_mono) (case_tac "task_pc s i"; simp)
  moreover have "dtor_rank (dtor_pc s) \<le> 1" by (cases "dtor_pc s") simp_all
  ultimately show ?thesis by (simp add: work_left_def)
qed

text \<open>
  C19. Task pool: the destructor returns. From the moment it is called, at most six steps for each
  task in the queue and each thread, and one, are left, whatever the order; and where no step is
  left, the destructor has returned and every task that was accepted has been executed, provided
  fewer than \<open>2 ^ 31 - n\<close> were (before \<open>currentTaskSize\<close> wraps).
\<close>

theorem taskpool_destructor_returns:
  assumes "task_started n s0" and "lp_step\<^sup>*\<^sup>* s0 s" and "dtor_pc s \<noteq> D_none"
  shows "(\<forall>m t. (lp_step ^^ m) s t \<longrightarrow> m \<le> 6 * (length (TaskQueue s) + card (thread_list s)) + 1)
    \<and> (\<forall>t. lp_step\<^sup>*\<^sup>* s t \<and> (\<forall>u. \<not> lp_step t u) \<longrightarrow> dtor_pc t = D_done
         \<and> (n + length (submitted t) < 2 ^ 31 \<longrightarrow> mset (executed t) = mset (submitted t)))
    \<and> (\<exists>t. lp_step\<^sup>*\<^sup>* s t \<and> dtor_pc t = D_done)"
proof -
  have C: "closing_inv s" using taskpool.started_run_inv [OF assms(1,2)] assms(3) by (simp add: closing_inv_def)
  have "m \<le> 6 * (length (TaskQueue s) + card (thread_list s)) + 1" if "(lp_step ^^ m) s t" for m t
    using task_closing.run_bounded [where m = work_left, OF that C work_left_step] work_left_bound [OF closing_facts(1) [OF C]] by simp
  moreover have "dtor_pc t = D_done \<and> (n + length (submitted t) < 2 ^ 31 \<longrightarrow> mset (executed t) = mset (submitted t))"
    if "lp_step\<^sup>*\<^sup>* s t" "\<forall>u. \<not> lp_step t u" for t
  proof -
    have T: "closing_inv t" using task_closing.steps_inv [OF that(1) C] .
    then have d: "dtor_pc t = D_done" using that(2) by (simp add: closing_stuck)
    moreover have "mset (executed t) = mset (submitted t)" if "n + length (submitted t) < 2 ^ 31"
      using range_facts(3) [of t] started_range [OF assms(1) rtranclp_trans [OF assms(2) \<open>lp_step\<^sup>*\<^sup>* s t\<close>] that] T d
      by (simp add: closing_inv_def)
    ultimately show ?thesis by blast
  qed
  moreover have "\<exists>t. lp_step\<^sup>*\<^sup>* s t \<and> (\<forall>u. \<not> lp_step t u)"
    using task_closing.run_to_end [where m = work_left, OF C work_left_step] .
  ultimately show ?thesis by blast
qed

text \<open>The pool of one thread, closed at once.\<close>

theorem taskpool_destructor_returns_witness:
  "\<exists>t. lp_step\<^sup>*\<^sup>* ((limit_one :: nat taskpool)\<lparr>isPoolRunning := False, dtor_pc := D_lock\<rparr>) t \<and> dtor_pc t = D_done"
proof -
  have "lp_step (limit_one :: nat taskpool) (limit_one\<lparr>isPoolRunning := False, dtor_pc := D_lock\<rparr>)"
    by (rule lp_step.dtor_flag) (simp add: limit_one_eq)
  then have "lp_step\<^sup>*\<^sup>* (limit_one :: nat taskpool) (limit_one\<lparr>isPoolRunning := False, dtor_pc := D_lock\<rparr>)"
    by (rule r_into_rtranclp)
  from taskpool_destructor_returns [OF limit_one_started this] show ?thesis by simp
qed

text \<open>
  A second pool of the same process gets thread numbers that do not begin at 0; \<open>start\<close> looks for the
  entry 0 and calls a null pointer.
\<close>

lemma second_pool_start_crashes:
  assumes "0 < g" and "1 \<le> n" and "int n \<le> sint THREAD_MAX_THRESHHOLD"
  shows "start (of_nat n) (ThreadPool_ctor g :: 'm taskpool) = None"
proof -
  let ?u = "(ThreadPool_ctor g)\<lparr>isPoolRunning := True, initThreadSize := of_nat n, currentThreadSize := of_nat n\<rparr> :: 'm taskpool"
  have c: "thread_list (create_threads n ?u) = {g..<g + n}" by (simp add: create_threads_eq ThreadPool_ctor_def)
  have n: "nat (min (sint (of_nat n :: i32)) (sint (MaxThreadSize (ThreadPool_ctor g :: 'm taskpool)))) = n"
    using assms(3) sint_nat [of n] by (simp add: ThreadPool_ctor_def THREAD_MAX_THRESHHOLD_def)
  have "start (of_nat n) (ThreadPool_ctor g :: 'm taskpool) = start_threads 0 n (create_threads n ?u)"
    unfolding start_def n Let_def by (simp add: c)
  then show ?thesis using assms(1,2) c by (cases n) simp_all
qed

end
