(* ===== verification/Spec2Isabelle.thy ===== *)
theory Spec2Isabelle
  imports QcShutdown QcTaskPool
begin

text \<open>
  QuickComm is an epoll based TCP server in C++: a master process starts worker processes, and each
  worker accepts connections, cuts the received bytes into packets, hands complete packets to a pool
  of threads that run the request handlers, and sends the answers from a thread of its own. This
  development models the program from \<open>main\<close> (src/app, src/proc, src/signal) through configuration,
  formatting and log (src/public) to the worker (src/net, src/misc, src/service) as functions on an
  explicit state, and proves what makes it correct.

  \<^bold>\<open>Data.\<close> Machine integers are words of their width where they are compared or wrap
  (sequence numbers are \<open>64 word\<close>, packet fields \<open>16\<close> and \<open>32 word\<close>, the counters of the task pool
  \<open>32 word\<close> read with their sign); the lengths of queues, counts of users, times and descriptors,
  which memory and the kernel keep far below \<open>2 ^ 31\<close>, are \<open>int\<close>. Buffers of \<open>CMemory\<close> live in a heap
  (\<open>memory\<close>, theory QcMemory) that maps addresses to message buffers (\<open>msgbuf\<close>: the
  message header of include/qc\_socket.h and the bytes of the packet); a bad release, an access to a
  released buffer, through a null pointer or out of bounds is recorded as a fault. Connection objects
  (\<open>conn\<close>) are numbered; the pool never deletes one while the worker runs. A worker is the
  record \<open>server\<close> (QcServer): configuration, heap, pool, timer queue, send and receive
  queues, semaphore, and the kernel's side (\<open>kernel\<close>: scripts for \<open>send\<close> and
  \<open>epoll\_ctl\<close>, the bytes sent, registrations, closed descriptors). What other system calls
  answer is an argument of the handler that makes the call.

  \<^bold>\<open>Theories, in the order of the imports.\<close>
  \<^item> QcPrelude: machine types, collections of rules, list and word lemmas.
  \<^item> QcCrc32 (misc/qc\_crc32.cc): the checksum; equivalence with the bitwise CRC-32, detection
    of burst errors, the locale \<open>body_check\<close>.
  \<^item> QcComm (include/qc\_comm.h): constants and the packed packet header, with its round trip.
  \<^item> QcMemory (misc/qc\_memory.cc): the heap, its invariant, frame lemmas (\<open>mem_step\<close>).
  \<^item> QcConn (net/qc\_socket\_conn.cc): connection objects, the pool, the recycling thread.
  \<^item> QcTimer (net/qc\_socket\_time.cc): the timer queue and the collecting loop of its monitor.
  \<^item> QcServer (net/qc\_socket.cc): the state of a worker, closing, flood check, \<open>epoll\_ctl\<close>.
  \<^item> QcAccount: the account of the buffers (\<open>acct\<close>: every live buffer has one owner) and how
    sequence numbers move (\<open>seq_step\<close>); preservation by the shared operations.
  \<^item> QcRecv (net/qc\_socket\_request.cc): the read handler, refined to a parser of the stream.
  \<^item> QcSend, QcSendQueue (net/qc\_socket.cc, net/qc\_socket\_request.cc): \<open>msgSend\<close>, the sending
    thread, the write handler, and the outgoing byte stream of a connection.
  \<^item> QcLogic (service/qc\_slogic.cc): dispatch of requests, the handlers, the ping timeout.
  \<^item> QcRecycle: a turn of the recycling thread on the whole state.
  \<^item> QcEpoll (net/qc\_socket.cc, net/qc\_socket\_accept.cc): listening, epoll, accept, event loop.
  \<^item> QcInvariant, QcSteps, QcSystem: the invariant of the worker, its preservation by every
    handler and thread, the step relation \<open>worker_step\<close>, runs, and what every reachable state
    satisfies. The relation has every event of epoll; two of them meet defects of the code, \<open>EPOLLOUT\<close>
    with an error bit on an open connection (\<open>out_error_leaks_packet\<close>) and \<open>EPOLLOUT\<close> without a pending packet after a
    failed send (\<open>failed_send_then_reads_released\<close>), and a flag of the relation tells the runs with
    them from those without. The properties of reachable states hold up to the first such event
    (\<open>after_defect\<close>).
  \<^item> QcThreadPool (misc/qc\_threadpool.cc): the queue of messages, the threads and shutdown as a
    step relation; safety, no lost message, termination of \<open>StopAll\<close> and the run in which it hangs.
  \<^item> QcPrintf (public/qc\_printf.cc): \<open>qc_vslprintf\<close> and its number conversion, refined to a
    rendering of the format that does not know about the buffer; bounds.
  \<^item> QcConf (public/qc\_conf.cc, public/qc\_public.cc): loading the configuration, refined to a
    specification on text lines, with its round trip and the files on which it does not return.
  \<^item> QcLog, QcInet, QcSignal (public/qc\_log.cc, net/qc\_socket\_inet.cc, signal/qc\_signal.cc):
    log messages, address texts, signal handlers and the collection of children.
  \<^item> QcTitle (proc/qc\_setproctitle.cc): process titles in the memory of arguments and environment.
  \<^item> QcStartup (app/QuickComm.cc, proc, net/qc\_socket.cc): \<open>main\<close>, the daemon, the master and its
    workers, the start of a worker from the configuration, and its event loop; here the safety of
    the worker (QcSystem) is put together with what the configuration file says.
  \<^item> QcShutdown: the clean-ups at the end of a worker, with what they lose.
  \<^item> QcTaskPool (include/thread\_pool.h): the task pool template, which the server does not use;
    the properties are about the first pool of a process (a later one crashes in \<open>start\<close>), and assume
    that creating a thread does not fail.

  The locale \<open>step_system\<close> of QcPrelude is the interface of the step relations of the two pools
  (\<open>tp_step\<close>, \<open>lp_step\<close>) with their invariants; reachability, bounded runs and runs to the end are
  proved in it once.

  \<^bold>\<open>Bounds.\<close> Loops of the code are structural recursion or have a measure; none needs fuel. Two
  loops are partial functions: reading the configuration file, where a theorem says for which files
  it returns, and collecting expired timers, which is proved to return. A token (\<open>iCurrsequence\<close>) is
  only compared for equality, so the theorems about stale tokens carry the hypothesis that fewer
  than \<open>2 ^ 64\<close> sequence numbers are used in the run considered; runs count them. The exact signed
  values of the counters of the task pool are stated while threads and submissions are together
  below \<open>2 ^ 31\<close>, the words themselves always.

  \<^bold>\<open>Parameters.\<close> What the system answers (descriptors, \<open>fork\<close>, \<open>waitpid\<close>, the file behind a
  path, time, error texts) is an argument of the function that asks; the arithmetic of \<open>double\<close> in the
  formatter is a record of operations.

  \<^bold>\<open>Kernel.\<close> The rules of \<open>worker_step\<close> for events say what epoll and the program guarantee: an event
  is for an object that has not been recycled since (the recycling thread waits for that), it calls
  the handler the object was registered with, and \<open>accept\<close> returns a descriptor that is not open.

  \<^bold>\<open>Concurrency.\<close> A step of \<open>worker_step\<close> is a whole handler or critical section, the steps of the
  two pools are critical sections. Two interleavings inside a step of the worker are findings and
  not steps (the manifest lists them): closing a connection against the sending thread in
  \<open>zdClosesocketProc\<close>, and against a new connection in \<open>qc_close_connection\<close>.

  \<^bold>\<open>Not modelled.\<close> The log lines that the start and the network code write (the log itself is
  modelled), joining the threads and destroying the mutexes in \<open>Shutdown_subproc\<close> (which the endless
  loop of a worker never reaches), the scope guard \<open>CLock\<close> around a mutex, and the creation of singletons.
\<close>

end
